(* ===== verification/Prelude.thy ===== *)
theory Prelude
  imports Main "HOL-Library.Word" "HOL-Library.Multiset"
begin

unbundle bit_operations_syntax

text \<open>
  What every component of the model shares: the C integer types of the source as mathematical
  integers with their ranges written out, C's truncating division, byte views of characters,
  \<open>strcmp\<close>, and the first-match scan over a table that the source writes as a \<open>for\<close> loop over an
  index. The facts of a group are collected in the named collections \<open>cint\<close> (ranges and casts),
  \<open>scan\<close> (first-match scans) and \<open>bytes\<close> (byte values).
\<close>

named_theorems cint "ranges and casts of the C integer types"
named_theorems scan "first-match scans over tables"
named_theorems bytes "byte values of characters"

section \<open>C integers\<close>

abbreviation INT64_MIN :: int where "INT64_MIN \<equiv> - 9223372036854775808"
abbreviation INT64_MAX :: int where "INT64_MAX \<equiv> 9223372036854775807"
abbreviation UINT64_MAX :: int where "UINT64_MAX \<equiv> 18446744073709551615"
abbreviation UINT32_MAX :: int where "UINT32_MAX \<equiv> 4294967295"
abbreviation INT32_MAX :: int where "INT32_MAX \<equiv> 2147483647"

definition in_i64 :: "int \<Rightarrow> bool" where
  "in_i64 x \<longleftrightarrow> INT64_MIN \<le> x \<and> x \<le> INT64_MAX"

definition in_u64 :: "int \<Rightarrow> bool" where
  "in_u64 x \<longleftrightarrow> 0 \<le> x \<and> x \<le> UINT64_MAX"

lemma mod_shift: "0 \<le> x - k * m \<Longrightarrow> x - k * m < m \<Longrightarrow> x mod m = x - k * (m::int)"
proof -
  assume "0 \<le> x - k * m" and "x - k * m < m"
  then have "(x - k * m) mod m = x - k * m" by (rule mod_pos_pos_trivial)
  then show ?thesis by (simp add: mod_diff_right_eq [symmetric])
qed

text \<open>The casts \<open>(uint64_t)x\<close> and \<open>(int64_t)x\<close> (two's complement on the target).\<close>

definition to_u64 :: "int \<Rightarrow> int" where
  "to_u64 x = x mod 18446744073709551616"

definition to_i64 :: "int \<Rightarrow> int" where
  "to_i64 x = (x + 9223372036854775808) mod 18446744073709551616 - 9223372036854775808"

lemma in_u64_to_u64 [simp, intro]: "in_u64 (to_u64 x)"
  unfolding in_u64_def to_u64_def by auto

lemma in_i64_to_i64 [simp, intro]: "in_i64 (to_i64 x)"
proof -
  have "0 \<le> (x + 9223372036854775808) mod 18446744073709551616"
    and "(x + 9223372036854775808) mod 18446744073709551616 < 18446744073709551616"
    by simp_all
  then show ?thesis unfolding in_i64_def to_i64_def by linarith
qed

lemma to_u64_id [simp, cint]: "in_u64 x \<Longrightarrow> to_u64 x = x"
  by (simp add: in_u64_def to_u64_def)

lemma to_i64_id [simp, cint]: "in_i64 x \<Longrightarrow> to_i64 x = x"
  by (simp add: in_i64_def to_i64_def)

lemma to_i64_to_u64 [simp, cint]: "to_i64 (to_u64 x) = to_i64 x"
  by (simp add: to_i64_def to_u64_def mod_simps)

lemma to_u64_to_i64 [simp, cint]: "to_u64 (to_i64 x) = to_u64 x"
  by (simp add: to_i64_def to_u64_def mod_simps)

lemma to_u64_take_bit: "to_u64 x = take_bit 64 x"
  by (simp add: to_u64_def take_bit_eq_mod)

lemma to_u64_neg: "- 9223372036854775808 \<le> x \<Longrightarrow> x < 0 \<Longrightarrow> to_u64 x = x + 18446744073709551616"
  unfolding to_u64_def using mod_shift [of x "-1" 18446744073709551616] by simp

lemma to_i64_big:
  "9223372036854775808 \<le> x \<Longrightarrow> x \<le> UINT64_MAX \<Longrightarrow> to_i64 x = x - 18446744073709551616"
  unfolding to_i64_def using mod_shift [of "x + 9223372036854775808" 1 18446744073709551616] by simp

text \<open>C17 division and remainder on signed operands: truncation towards zero.\<close>

definition c_div :: "int \<Rightarrow> int \<Rightarrow> int" where
  "c_div a b = sgn a * sgn b * (\<bar>a\<bar> div \<bar>b\<bar>)"

definition c_mod :: "int \<Rightarrow> int \<Rightarrow> int" where
  "c_mod a b = a - c_div a b * b"

lemma c_div_mod: "c_div a b * b + c_mod a b = a"
  by (simp add: c_mod_def)

lemma c_div_nonneg: "0 \<le> a \<Longrightarrow> 0 \<le> b \<Longrightarrow> c_div a b = a div b"
  by (cases "a = 0"; cases "b = 0") (simp_all add: c_div_def sgn_if)

lemma c_mod_nonneg: "0 \<le> a \<Longrightarrow> 0 \<le> b \<Longrightarrow> c_mod a b = a mod b"
  by (simp add: c_mod_def c_div_nonneg minus_div_mult_eq_mod)

lemma abs_c_div: "\<bar>c_div a b\<bar> = \<bar>a\<bar> div \<bar>b\<bar>"
  by (cases "a = 0"; cases "b = 0") (auto simp: c_div_def abs_mult abs_sgn_eq pos_imp_zdiv_nonneg_iff)

lemma abs_c_mod: "\<bar>c_mod a b\<bar> = \<bar>a\<bar> mod \<bar>b\<bar>"
proof -
  have a: "a = sgn a * \<bar>a\<bar>" and b: "sgn b * b = \<bar>b\<bar>"
    by (simp_all add: sgn_mult_abs abs_sgn mult.commute)
  have "c_mod a b = sgn a * (\<bar>a\<bar> - \<bar>a\<bar> div \<bar>b\<bar> * \<bar>b\<bar>)"
    unfolding c_mod_def c_div_def using a b
    by (metis (no_types, lifting) ab_semigroup_mult_class.mult_ac(1) mult.commute right_diff_distrib)
  then have "c_mod a b = sgn a * (\<bar>a\<bar> mod \<bar>b\<bar>)"
    by (simp add: minus_div_mult_eq_mod)
  then show ?thesis
    by (cases "a = 0"; cases "b = 0") (auto simp: abs_mult abs_sgn_eq)
qed

section \<open>Characters as bytes\<close>

abbreviation ub :: "char \<Rightarrow> nat" where "ub c \<equiv> of_char c"

lemma ub_less [simp, bytes]: "ub c < 256"
  using nat_of_char_less_256 by simp

lemma ub_inject [bytes]: "ub c = ub d \<longleftrightarrow> c = d"
  by (simp add: of_char_eq_iff)

lemma ub_char_of [bytes]: "n < 256 \<Longrightarrow> ub (char_of n) = n"
  by simp

text \<open>\<open>strcmp\<close> on NUL-terminated strings: the sign of the first difference of unsigned bytes.\<close>

fun c_strcmp :: "string \<Rightarrow> string \<Rightarrow> int" where
  "c_strcmp [] [] = 0"
| "c_strcmp [] (y # ys) = -1"
| "c_strcmp (x # xs) [] = 1"
| "c_strcmp (x # xs) (y # ys) =
     (if ub x < ub y then -1 else if ub y < ub x then 1 else c_strcmp xs ys)"

lemma c_strcmp_refl [simp]: "c_strcmp s s = 0"
  by (induction s) auto

lemma c_strcmp_eq_0 [simp]: "c_strcmp s t = 0 \<longleftrightarrow> s = t"
  by (induction s t rule: c_strcmp.induct) (auto simp: not_less intro: antisym)

lemma c_strcmp_neg: "c_strcmp s t = - c_strcmp t s"
  by (induction s t rule: c_strcmp.induct) auto

lemma c_strcmp_range: "c_strcmp s t \<in> {-1, 0, 1}"
  by (induction s t rule: c_strcmp.induct) auto

lemma c_strcmp_trans: "c_strcmp s t \<le> 0 \<Longrightarrow> c_strcmp t u \<le> 0 \<Longrightarrow> c_strcmp s u \<le> 0"
proof (induction s t arbitrary: u rule: c_strcmp.induct)
  case (4 x xs y ys)
  show ?case
  proof (cases u)
    case Nil
    with "4.prems" show ?thesis by simp
  next
    case (Cons z zs)
    have xy: "ub x < ub y \<or> ub x = ub y \<and> c_strcmp xs ys \<le> 0"
      using "4.prems"(1) by (simp only: c_strcmp.simps split: if_split_asm) auto
    have yz: "ub y < ub z \<or> ub y = ub z \<and> c_strcmp ys zs \<le> 0"
      using "4.prems"(2) Cons by (simp only: c_strcmp.simps split: if_split_asm) auto
    consider "ub x < ub z" | "ub x = ub z" "ub x = ub y" "c_strcmp xs ys \<le> 0" "c_strcmp ys zs \<le> 0"
      using xy yz by linarith
    then show ?thesis
    proof cases
      case 1
      then show ?thesis by (simp add: Cons)
    next
      case 2
      then have "c_strcmp xs zs \<le> 0" using "4.IH" by simp
      with 2 show ?thesis by (simp add: Cons)
    qed
  qed
next
  case (2 y ys)
  then show ?case by (cases u) auto
qed auto

section \<open>First-match scans\<close>

text \<open>\<open>for (i = 0; i < n; i++) if (P(t[i])) ...\<close>: the least index whose entry satisfies \<open>P\<close>.\<close>

fun first_index :: "('a \<Rightarrow> bool) \<Rightarrow> 'a list \<Rightarrow> nat option" where
  "first_index P [] = None"
| "first_index P (x # xs) = (if P x then Some 0 else map_option Suc (first_index P xs))"

lemma takeWhile_take: "takeWhile P (take n xs) = take n (takeWhile P xs)"
  by (induction xs arbitrary: n) (auto simp: take_Cons split: nat.split)

lemma find_SomeD: "find P xs = Some x \<Longrightarrow> x \<in> set xs \<and> P x"
  by (auto simp: find_Some_iff)

lemma first_index_SomeD [scan]:
  "first_index P xs = Some i \<Longrightarrow> i < length xs \<and> P (xs ! i) \<and> (\<forall>j < i. \<not> P (xs ! j))"
proof (induction xs arbitrary: i)
  case (Cons x xs)
  then show ?case
    by (cases i) (auto split: if_splits simp: less_Suc_eq_0_disj nth_Cons')
qed simp

lemma first_index_None [scan]: "first_index P xs = None \<longleftrightarrow> (\<forall>x \<in> set xs. \<not> P x)"
  by (induction xs) auto

lemma first_index_Some_iff:
  "first_index P xs = Some i \<longleftrightarrow> i < length xs \<and> P (xs ! i) \<and> (\<forall>j < i. \<not> P (xs ! j))"
proof (rule iffI, erule first_index_SomeD)
  assume i: "i < length xs \<and> P (xs ! i) \<and> (\<forall>j < i. \<not> P (xs ! j))"
  then obtain k where "first_index P xs = Some k"
    by (cases "first_index P xs") (auto simp: first_index_None)
  with first_index_SomeD [OF this] i show "first_index P xs = Some i"
    by (metis linorder_neqE_nat)
qed

lemma first_index_replicate [scan]:
  "0 < n \<Longrightarrow> first_index P (replicate n x) = (if P x then Some 0 else None)"
  by (cases n) (auto simp: first_index_None)

lemma length_filter_update:
  assumes "i < length xs"
  shows "length (filter P (xs[i := y])) + (if P (xs ! i) then 1 else 0)
       = length (filter P xs) + (if P y then 1 else 0)"
  using assms
proof (induction xs arbitrary: i)
  case (Cons x xs)
  then show ?case by (cases i) auto
qed simp

section \<open>Three-way comparators\<close>

text \<open>A comparator in the style of \<open>qsort\<close>: negative, zero or positive. The locale states when it
  orders its arguments; the combinators below preserve it, so that a comparator written as a
  cascade of tests inherits the laws from its parts.\<close>

definition cmp_sorted :: "('a \<Rightarrow> 'a \<Rightarrow> int) \<Rightarrow> 'a list \<Rightarrow> bool" where
  "cmp_sorted cmp xs \<longleftrightarrow> sorted_wrt (\<lambda>x y. cmp x y \<le> 0) xs"

locale three_way =
  fixes cmp :: "'a \<Rightarrow> 'a \<Rightarrow> int"
  assumes cmp_neg: "cmp x y = - cmp y x"
    and cmp_trans: "cmp x y \<le> 0 \<Longrightarrow> cmp y z \<le> 0 \<Longrightarrow> cmp x z \<le> 0"
begin

lemma cmp_refl: "cmp x x = 0"
  using cmp_neg [of x x] by simp

lemma cmp_less_le_trans: "cmp x y < 0 \<Longrightarrow> cmp y z \<le> 0 \<Longrightarrow> cmp x z < 0"
  by (smt (verit) cmp_neg cmp_trans)

lemma cmp_le_less_trans: "cmp x y \<le> 0 \<Longrightarrow> cmp y z < 0 \<Longrightarrow> cmp x z < 0"
  by (smt (verit) cmp_neg cmp_trans)

lemma cmp_total: "cmp x y \<le> 0 \<or> cmp y x \<le> 0"
  using cmp_neg [of x y] by linarith

lemma sorted_nth:
  "cmp_sorted cmp xs \<Longrightarrow> i \<le> j \<Longrightarrow> j < length xs \<Longrightarrow> cmp (xs ! i) (xs ! j) \<le> 0"
  by (cases "i = j") (auto simp: cmp_sorted_def sorted_wrt_iff_nth_less cmp_refl)

lemma sorted_not_less:
  assumes "cmp_sorted cmp xs" and "cmp_sorted cmp ys" and m: "mset xs = mset ys"
    and i: "i < length xs"
  shows "\<not> cmp (xs ! i) (ys ! i) < 0"
proof
  assume lt: "cmp (xs ! i) (ys ! i) < 0"
  let ?P = "\<lambda>z. cmp z (xs ! i) \<le> 0"
  have len: "length ys = length xs" using m by (metis size_mset)
  have "{..i} \<subseteq> {k. k < length xs \<and> ?P (xs ! k)}"
    using sorted_nth [OF assms(1)] i by auto
  then have "card {..i} \<le> length (filter ?P xs)"
    unfolding length_filter_conv_card by (intro card_mono) simp_all
  moreover have "{k. k < length ys \<and> ?P (ys ! k)} \<subseteq> {..<i}"
  proof (clarsimp, rule ccontr)
    fix k assume k: "k < length ys" "?P (ys ! k)" "\<not> k < i"
    then have "cmp (ys ! i) (ys ! k) \<le> 0" using sorted_nth [OF assms(2)] by simp
    with lt have "cmp (xs ! i) (ys ! k) < 0" by (rule cmp_less_le_trans)
    with k(2) cmp_neg [of "xs ! i" "ys ! k"] show False by linarith
  qed
  then have "length (filter ?P ys) \<le> card {..<i}"
    unfolding length_filter_conv_card by (intro card_mono) simp_all
  moreover have "length (filter ?P xs) = length (filter ?P ys)"
    using m by (metis mset_filter size_mset)
  ultimately show False by simp
qed

text \<open>The sorted arrangement of a collection is unique up to ties.\<close>

lemma sorted_unique:
  assumes "cmp_sorted cmp xs" and "cmp_sorted cmp ys" and m: "mset xs = mset ys"
  shows "list_all2 (\<lambda>x y. cmp x y = 0) xs ys"
proof -
  have len: "length ys = length xs" using m by (metis size_mset)
  have "cmp (xs ! i) (ys ! i) = 0" if "i < length xs" for i
    using sorted_not_less [OF assms that] sorted_not_less [OF assms(2,1) m [symmetric], of i]
      cmp_neg [of "xs ! i" "ys ! i"] that len by simp
  then show ?thesis by (simp add: list_all2_conv_all_nth len)
qed

end

definition cmp_int :: "int \<Rightarrow> int \<Rightarrow> int" where
  "cmp_int a b = (if a < b then -1 else if b < a then 1 else 0)"

fun cmp_opt :: "('a \<Rightarrow> 'a \<Rightarrow> int) \<Rightarrow> 'a option \<Rightarrow> 'a option \<Rightarrow> int" where
  "cmp_opt c None None = 0"
| "cmp_opt c None (Some y) = -1"
| "cmp_opt c (Some x) None = 1"
| "cmp_opt c (Some x) (Some y) = c x y"

definition cmp_on :: "('a \<Rightarrow> 'b) \<Rightarrow> ('b \<Rightarrow> 'b \<Rightarrow> int) \<Rightarrow> 'a \<Rightarrow> 'a \<Rightarrow> int" where
  "cmp_on f c x y = c (f x) (f y)"

definition cmp_then :: "('a \<Rightarrow> 'a \<Rightarrow> int) \<Rightarrow> ('a \<Rightarrow> 'a \<Rightarrow> int) \<Rightarrow> 'a \<Rightarrow> 'a \<Rightarrow> int" where
  "cmp_then c d x y = (if c x y \<noteq> 0 then c x y else d x y)"

interpretation cmp_int: three_way cmp_int
  by unfold_locales (auto simp: cmp_int_def split: if_splits)

interpretation c_strcmp: three_way c_strcmp
  by unfold_locales (rule c_strcmp_neg, rule c_strcmp_trans)

lemma three_way_opt: "three_way c \<Longrightarrow> three_way (cmp_opt c)"
proof -
  assume c: "three_way c"
  note n = three_way.cmp_neg [OF c] and t = three_way.cmp_trans [OF c]
  have "cmp_opt c x y = - cmp_opt c y x" for x y
    by (cases x; cases y) (simp_all add: n [symmetric])
  moreover have "cmp_opt c x z \<le> 0" if "cmp_opt c x y \<le> 0" and "cmp_opt c y z \<le> 0" for x y z
    using that by (cases x; cases y; cases z) (auto intro: t)
  ultimately show ?thesis by unfold_locales
qed

lemma three_way_on: "three_way c \<Longrightarrow> three_way (cmp_on f c)"
  unfolding three_way_def cmp_on_def by blast

lemma three_way_then: "three_way c \<Longrightarrow> three_way d \<Longrightarrow> three_way (cmp_then c d)"
proof -
  assume c: "three_way c" and d: "three_way d"
  note cn = three_way.cmp_neg [OF c] and dn = three_way.cmp_neg [OF d]
  note ct = three_way.cmp_trans [OF c] and dt = three_way.cmp_trans [OF d]
  note cl = three_way.cmp_less_le_trans [OF c] and cr = three_way.cmp_le_less_trans [OF c]
  have neg: "cmp_then c d x y = - cmp_then c d y x" for x y
    using cn [of x y] dn [of x y] by (simp add: cmp_then_def)
  have trans: "cmp_then c d x z \<le> 0"
    if xy: "cmp_then c d x y \<le> 0" and yz: "cmp_then c d y z \<le> 0" for x y z
  proof -
    have 1: "c x y < 0 \<or> c x y = 0 \<and> d x y \<le> 0" and 2: "c y z < 0 \<or> c y z = 0 \<and> d y z \<le> 0"
      using xy yz by (auto simp: cmp_then_def split: if_splits)
    have "c x z \<le> 0" using 1 2 by (intro ct [of x y z]) auto
    moreover have "d x z \<le> 0" if "c x z = 0"
    proof -
      have "\<not> c x y < 0" using cl [of x y z] 2 that by auto
      moreover have "\<not> c y z < 0" using cr [of x y z] 1 that by auto
      ultimately show ?thesis using 1 2 dt [of x y z] by simp
    qed
    ultimately show ?thesis by (simp add: cmp_then_def)
  qed
  from neg trans show ?thesis by unfold_locales
qed

lemmas three_way_intros =
  three_way_opt three_way_on three_way_then cmp_int.three_way_axioms c_strcmp.three_way_axioms

end
