(* ===== verification/Diag.thy ===== *)
theory Diag
  imports Prelude
begin

text \<open>
  The diagnostic records of \<open>bootstrap/src/diag/diag.c\<close>, \<open>diag_codes.c\<close> and \<open>diag.h\<close>: spans,
  records and their setters, the closed registry of codes, validation, the trap-record
  factories and the ordering comparator with the sort built on it. A \<open>char *\<close> that may be NULL
  is a \<open>string option\<close>; an owned array with its count is a list in insertion order. Heap
  allocation inside the setters succeeds in the model (their \<open>false\<close> on exhaustion is not
  represented); every other early return is.
\<close>

section \<open>Spans\<close>

record diag_position =
  pos_line :: int
  pos_col :: int
  pos_offset :: int

record diag_span =
  span_file :: string
  span_start :: diag_position
  span_end :: diag_position

definition diag_span_new_range ::
  "string \<Rightarrow> int \<Rightarrow> int \<Rightarrow> int \<Rightarrow> int \<Rightarrow> int \<Rightarrow> int \<Rightarrow> diag_span" where
  "diag_span_new_range file start_line start_col start_offset end_line end_col end_offset =
     \<lparr>span_file = file,
      span_start = \<lparr>pos_line = start_line, pos_col = start_col, pos_offset = start_offset\<rparr>,
      span_end = \<lparr>pos_line = end_line, pos_col = end_col, pos_offset = end_offset\<rparr>\<rparr>"

definition diag_span_new_point :: "string \<Rightarrow> int \<Rightarrow> int \<Rightarrow> int \<Rightarrow> diag_span" where
  "diag_span_new_point file line col offset =
     diag_span_new_range file line col offset line col offset"

text \<open>The loop of \<open>diag_span_from_offset\<close>: \<open>i\<close> runs over the bytes before \<open>offset\<close>.\<close>

fun span_scan :: "string \<Rightarrow> nat \<Rightarrow> nat \<Rightarrow> int \<Rightarrow> int \<Rightarrow> int \<times> int" where
  "span_scan text 0 i line line_start = (line, line_start)"
| "span_scan text (Suc n) i line line_start =
     (if text ! i = CHR 0x0A then span_scan text n (Suc i) (line + 1) (int i + 1)
      else span_scan text n (Suc i) line line_start)"

definition diag_span_from_offset :: "string \<Rightarrow> string \<Rightarrow> int \<Rightarrow> diag_span option" where
  "diag_span_from_offset file text offset =
     (if offset < 0 \<or> int (length text) < offset then None
      else (case span_scan text (nat offset) 0 1 0 of
              (line, line_start) \<Rightarrow>
                Some (diag_span_new_point file line (offset - line_start + 1) offset)))"

section \<open>Records\<close>

datatype diag_kv_value = KvString string | KvInt int

record diag_kv =
  kv_key :: string
  kv_value :: diag_kv_value

record diag_cause =
  cause_code :: string
  cause_message :: string
  cause_span :: "diag_span option"

record diag_correction =
  corr_replacement :: string
  corr_span :: "diag_span option"

record diag_record =
  rec_code :: "string option"
  rec_severity :: "string option"
  rec_phase :: "string option"
  rec_message :: "string option"
  rec_primary_span :: "diag_span option"
  rec_recovery :: "string option"
  rec_secondary_spans :: "diag_span list"
  rec_expected :: "diag_kv list"
  rec_actual :: "diag_kv list"
  rec_causes :: "diag_cause list"
  rec_corrections :: "diag_correction list"
  rec_related :: "diag_kv list"
  rec_trap_code :: "int option"
  rec_exit_code :: "int option"

definition diag_record_new :: diag_record where
  "diag_record_new =
     \<lparr>rec_code = None, rec_severity = None, rec_phase = None, rec_message = None,
      rec_primary_span = None, rec_recovery = None, rec_secondary_spans = [],
      rec_expected = [], rec_actual = [], rec_causes = [], rec_corrections = [],
      rec_related = [], rec_trap_code = None, rec_exit_code = None\<rparr>"

section \<open>The code registry\<close>

record diag_code_info =
  ci_code :: string
  ci_phase :: string
  ci_severity :: string
  ci_description :: string

definition code_info :: "string \<Rightarrow> string \<Rightarrow> string \<Rightarrow> string \<Rightarrow> diag_code_info" where
  "code_info c p s d = \<lparr>ci_code = c, ci_phase = p, ci_severity = s, ci_description = d\<rparr>"

definition kCodes :: "diag_code_info list" where
  "kCodes =
    [code_info ''AIC-L0001'' ''lex'' ''error''
       ''invalid byte / invalid UTF-8 sequence / malformed character or token'',
     code_info ''AIC-L0002'' ''lex'' ''error''
       ''UTF-8 BOM present'',
     code_info ''AIC-L0003'' ''lex'' ''error''
       ''NUL byte in source (outside literal/comment)'',
     code_info ''AIC-L0004'' ''lex'' ''error''
       ''unterminated block comment'',
     code_info ''AIC-L0005'' ''lex'' ''error''
       ''misplaced '_' in integer literal'',
     code_info ''AIC-L0006'' ''lex'' ''error''
       ''integer literal value not representable in its type'',
     code_info ''AIC-L0007'' ''lex'' ''error''
       ''line terminator inside string literal'',
     code_info ''AIC-L0008'' ''lex'' ''error''
       ''invalid escape sequence'',
     code_info ''AIC-L0009'' ''lex'' ''error''
       ''string literal bytes not valid UTF-8 after escape expansion'',
     code_info ''AIC-S0101'' ''syntax'' ''error''
       ''expected token (details in message)'',
     code_info ''AIC-S0102'' ''syntax'' ''error''
       ''unexpected token / excluded construct'',
     code_info ''AIC-S0103'' ''syntax'' ''error''
       ''module declaration not first element'',
     code_info ''AIC-S0104'' ''syntax'' ''error''
       ''controlled body without braces'',
     code_info ''AIC-N0201'' ''name'' ''error''
       ''duplicate declaration in same scope'',
     code_info ''AIC-N0202'' ''name'' ''error''
       ''undeclared name'',
     code_info ''AIC-N0203'' ''name'' ''error''
       ''access to private item from another module'',
     code_info ''AIC-N0204'' ''name'' ''error''
       ''imported module not found at canonical path'',
     code_info ''AIC-N0205'' ''name'' ''error''
       ''module declaration name does not match canonical path'',
     code_info ''AIC-N0206'' ''name'' ''error''
       ''import cycle'',
     code_info ''AIC-N0207'' ''name'' ''error''
       ''module declaration uses the reserved rt prefix'',
     code_info ''AIC-N0208'' ''name'' ''error''
       ''import of reserved runtime submodule not in the runtime surface'',
     code_info ''AIC-N0209'' ''name'' ''error''
       ''bare import rt; (import a specific runtime submodule instead)'',
     code_info ''AIC-T0301'' ''type'' ''error''
       ''enum member value not representable in underlying type'',
     code_info ''AIC-T0302'' ''type'' ''error''
       ''use of incomplete struct type as a value'',
     code_info ''AIC-T0303'' ''type'' ''error''
       ''struct recursion by value (infinite size)'',
     code_info ''AIC-T0304'' ''type'' ''error''
       ''==/!= on array or struct type'',
     code_info ''AIC-T0305'' ''type'' ''error''
       ''chained comparison'',
     code_info ''AIC-T0306'' ''type'' ''error''
       ''operator not applicable to operand type'',
     code_info ''AIC-T0307'' ''type'' ''error''
       ''no common type / type mismatch (implicit conversion absent)'',
     code_info ''AIC-T0308'' ''type'' ''error''
       ''invalid explicit cast pair'',
     code_info ''AIC-T0309'' ''type'' ''error''
       ''array literal element count mismatch'',
     code_info ''AIC-T0310'' ''type'' ''error''
       ''condition is not bool'',
     code_info ''AIC-T0311'' ''type'' ''error''
       ''switch selector is not integer/enum'',
     code_info ''AIC-T0312'' ''type'' ''error''
       ''call argument count mismatch'',
     code_info ''AIC-T0313'' ''type'' ''error''
       ''struct literal field error (missing, duplicate, or unknown field)'',
     code_info ''AIC-E0401'' ''semantic'' ''error''
       ''expression is not a constant expression'',
     code_info ''AIC-E0402'' ''semantic'' ''error''
       ''address of const / address of non-lvalue'',
     code_info ''AIC-E0403'' ''semantic'' ''error''
       ''missing initializer on variable declaration'',
     code_info ''AIC-E0404'' ''semantic'' ''error''
       ''assignment to const'',
     code_info ''AIC-E0405'' ''semantic'' ''error''
       ''constant expression overflow (checked arithmetic)'',
     code_info ''AIC-E0406'' ''semantic'' ''error''
       ''constant division by zero'',
     code_info ''AIC-E0407'' ''semantic'' ''error''
       ''constant shift count out of range'',
     code_info ''AIC-E0408'' ''semantic'' ''error''
       ''constant cast out of range'',
     code_info ''AIC-E0409'' ''semantic'' ''error''
       ''constant index/slice bound out of range'',
     code_info ''AIC-E0410'' ''semantic'' ''error''
       ''constant str slice not on code point boundary'',
     code_info ''AIC-E0411'' ''semantic'' ''error''
       ''constant pointer difference not divisible by element size'',
     code_info ''AIC-E0412'' ''semantic'' ''error''
       ''switch case body missing terminating statement (no fall-through)'',
     code_info ''AIC-E0413'' ''semantic'' ''error''
       ''duplicate switch case value'',
     code_info ''AIC-E0414'' ''semantic'' ''error''
       ''break/continue outside loop (or break outside switch)'',
     code_info ''AIC-E0415'' ''semantic'' ''error''
       ''return value mismatch (value in void, or missing value in non-void)'',
     code_info ''AIC-E0416'' ''semantic'' ''error''
       ''non-void function path without return'',
     code_info ''AIC-E0417'' ''semantic'' ''error''
       ''unreachable statement'',
     code_info ''AIC-E0418'' ''semantic'' ''error''
       ''entry main signature invalid / missing'',
     code_info ''AIC-E0419'' ''semantic'' ''error''
       ''assignment to non-lvalue'',
     code_info ''AIC-E0420'' ''semantic'' ''error''
       ''duplicate switch default clause'',
     code_info ''AIC-I0501'' ''ir'' ''error''
       ''IR invariant violation (compiler internal)'',
     code_info ''AIC-B0601'' ''backend'' ''error''
       ''backend constraint violation (e.g., unsupported target feature)'',
     code_info ''AIC-O0701'' ''object'' ''error''
       ''object emission failure / deterministic-artifact failure'',
     code_info ''AIC-O0702'' ''link'' ''error''
       ''link failure reported by external linker'',
     code_info ''AIC-BL0801'' ''build'' ''error''
       ''build manifest schema error'',
     code_info ''AIC-BL0802'' ''build'' ''error''
       ''project root missing/invalid'',
     code_info ''AIC-BL0803'' ''build'' ''error''
       ''entry module not found'',
     code_info ''AIC-R0801'' ''trap'' ''error''
       ''checked conversion out of range'',
     code_info ''AIC-R0802'' ''trap'' ''error''
       ''arithmetic overflow (checked)'',
     code_info ''AIC-R0803'' ''trap'' ''error''
       ''division by zero'',
     code_info ''AIC-R0804'' ''trap'' ''error''
       ''shift count out of range'',
     code_info ''AIC-R0805'' ''trap'' ''error''
       ''invalid bool byte value'',
     code_info ''AIC-R0806'' ''trap'' ''error''
       ''invalid UTF-8 to str cast'',
     code_info ''AIC-R0807'' ''trap'' ''error''
       ''index/slice span out of bounds'',
     code_info ''AIC-R0808'' ''trap'' ''error''
       ''str slice not on code point boundary'',
     code_info ''AIC-R0809'' ''trap'' ''error''
       ''null pointer dereference'',
     code_info ''AIC-R0810'' ''trap'' ''error''
       ''pointer difference not divisible by element size'',
     code_info ''AIC-R0811'' ''trap'' ''error''
       ''invalid address/alignment memory access'',
     code_info ''AIC-R0812'' ''trap'' ''error''
       ''double release'',
     code_info ''AIC-R0813'' ''trap'' ''error''
       ''invalid release (pointer not from allocator)'',
     code_info ''AIC-R0814'' ''trap'' ''error''
       ''invalid/closed file handle'',
     code_info ''AIC-R0815'' ''trap'' ''error''
       ''stack exhaustion'',
     code_info ''AIC-R0816'' ''trap'' ''error''
       ''pointer arithmetic overflow (checked scaling / byte-difference overflow)'',
     code_info ''AIC-U0000'' ''trap'' ''error''
       ''user trap via rt.trap.report (numeric code in trap_code)'']"

definition diag_code_lookup :: "string \<Rightarrow> diag_code_info option" where
  "diag_code_lookup code = find (\<lambda>info. ci_code info = code) kCodes"

definition diag_code_at :: "nat \<Rightarrow> diag_code_info option" where
  "diag_code_at index = (if length kCodes \<le> index then None else Some (kCodes ! index))"

definition diag_code_count :: nat where
  "diag_code_count = length kCodes"

section \<open>Setters\<close>

text \<open>\<open>is_one_of(value, a, b, c)\<close> with the three alternatives of each caller in a list.\<close>

definition is_one_of :: "string option \<Rightarrow> string list \<Rightarrow> bool" where
  "is_one_of value alts = (case value of None \<Rightarrow> False | Some v \<Rightarrow> v \<in> set alts)"

definition severity_values :: "string list" where
  "severity_values = [''error'', ''warning'', ''note'']"

definition recovery_values :: "string list" where
  "recovery_values = [''authoritative'', ''cascading'', ''recovery_derived'']"

definition kPhases :: "string list" where
  "kPhases = [''lex'', ''syntax'', ''name'', ''type'', ''semantic'', ''ir'', ''backend'',
              ''object'', ''link'', ''build'', ''trap'']"

definition phase_is_valid :: "string option \<Rightarrow> bool" where
  "phase_is_valid phase = (case phase of None \<Rightarrow> False | Some p \<Rightarrow> p \<in> set kPhases)"

definition diag_record_set_code :: "diag_record \<Rightarrow> string option \<Rightarrow> bool \<times> diag_record" where
  "diag_record_set_code rec code =
     (case code of
        None \<Rightarrow> (False, rec)
      | Some c \<Rightarrow>
          (case diag_code_lookup c of
             None \<Rightarrow> (False, rec)
           | Some info \<Rightarrow>
               (True, rec\<lparr>rec_code := Some c, rec_phase := Some (ci_phase info),
                          rec_severity := Some (ci_severity info)\<rparr>)))"

definition diag_record_set_severity :: "diag_record \<Rightarrow> string option \<Rightarrow> bool \<times> diag_record" where
  "diag_record_set_severity rec severity =
     (if \<not> is_one_of severity severity_values then (False, rec)
      else (True, rec\<lparr>rec_severity := severity\<rparr>))"

definition diag_record_set_phase :: "diag_record \<Rightarrow> string option \<Rightarrow> bool \<times> diag_record" where
  "diag_record_set_phase rec phase =
     (if \<not> phase_is_valid phase then (False, rec) else (True, rec\<lparr>rec_phase := phase\<rparr>))"

definition diag_record_set_message :: "diag_record \<Rightarrow> string option \<Rightarrow> bool \<times> diag_record" where
  "diag_record_set_message rec message =
     (True, rec\<lparr>rec_message := Some (case message of None \<Rightarrow> [] | Some m \<Rightarrow> m)\<rparr>)"

definition diag_record_set_primary_span ::
  "diag_record \<Rightarrow> diag_span option \<Rightarrow> bool \<times> diag_record" where
  "diag_record_set_primary_span rec span = (True, rec\<lparr>rec_primary_span := span\<rparr>)"

definition diag_record_set_recovery :: "diag_record \<Rightarrow> string option \<Rightarrow> bool \<times> diag_record" where
  "diag_record_set_recovery rec recovery =
     (case recovery of
        None \<Rightarrow> (True, rec\<lparr>rec_recovery := None\<rparr>)
      | Some r \<Rightarrow>
          if \<not> is_one_of recovery recovery_values then (False, rec)
          else (True, rec\<lparr>rec_recovery := Some r\<rparr>))"

definition diag_record_add_secondary_span ::
  "diag_record \<Rightarrow> diag_span option \<Rightarrow> bool \<times> diag_record" where
  "diag_record_add_secondary_span rec span =
     (case span of None \<Rightarrow> (False, rec)
      | Some s \<Rightarrow> (True, rec\<lparr>rec_secondary_spans := rec_secondary_spans rec @ [s]\<rparr>))"

text \<open>\<open>rec_add_kv\<close>: append one key/value member; a NULL key or a NULL string value is refused.\<close>

definition rec_add_kv ::
  "diag_kv list \<Rightarrow> string option \<Rightarrow> diag_kv_value option \<Rightarrow> (diag_kv list) option" where
  "rec_add_kv arr key val =
     (case (key, val) of
        (Some k, Some v) \<Rightarrow> Some (arr @ [\<lparr>kv_key = k, kv_value = v\<rparr>])
      | _ \<Rightarrow> None)"

definition diag_record_add_related_str ::
  "diag_record \<Rightarrow> string option \<Rightarrow> string option \<Rightarrow> bool \<times> diag_record" where
  "diag_record_add_related_str rec key val =
     (case rec_add_kv (rec_related rec) key (map_option KvString val) of
        None \<Rightarrow> (False, rec) | Some kvs \<Rightarrow> (True, rec\<lparr>rec_related := kvs\<rparr>))"

definition diag_record_add_related_int ::
  "diag_record \<Rightarrow> string option \<Rightarrow> int \<Rightarrow> bool \<times> diag_record" where
  "diag_record_add_related_int rec key val =
     (case rec_add_kv (rec_related rec) key (Some (KvInt val)) of
        None \<Rightarrow> (False, rec) | Some kvs \<Rightarrow> (True, rec\<lparr>rec_related := kvs\<rparr>))"

definition diag_record_add_expected_str ::
  "diag_record \<Rightarrow> string option \<Rightarrow> string option \<Rightarrow> bool \<times> diag_record" where
  "diag_record_add_expected_str rec key val =
     (case rec_add_kv (rec_expected rec) key (map_option KvString val) of
        None \<Rightarrow> (False, rec) | Some kvs \<Rightarrow> (True, rec\<lparr>rec_expected := kvs\<rparr>))"

definition diag_record_add_expected_int ::
  "diag_record \<Rightarrow> string option \<Rightarrow> int \<Rightarrow> bool \<times> diag_record" where
  "diag_record_add_expected_int rec key val =
     (case rec_add_kv (rec_expected rec) key (Some (KvInt val)) of
        None \<Rightarrow> (False, rec) | Some kvs \<Rightarrow> (True, rec\<lparr>rec_expected := kvs\<rparr>))"

definition diag_record_add_actual_str ::
  "diag_record \<Rightarrow> string option \<Rightarrow> string option \<Rightarrow> bool \<times> diag_record" where
  "diag_record_add_actual_str rec key val =
     (case rec_add_kv (rec_actual rec) key (map_option KvString val) of
        None \<Rightarrow> (False, rec) | Some kvs \<Rightarrow> (True, rec\<lparr>rec_actual := kvs\<rparr>))"

definition diag_record_add_actual_int ::
  "diag_record \<Rightarrow> string option \<Rightarrow> int \<Rightarrow> bool \<times> diag_record" where
  "diag_record_add_actual_int rec key val =
     (case rec_add_kv (rec_actual rec) key (Some (KvInt val)) of
        None \<Rightarrow> (False, rec) | Some kvs \<Rightarrow> (True, rec\<lparr>rec_actual := kvs\<rparr>))"

definition diag_record_add_cause ::
  "diag_record \<Rightarrow> string option \<Rightarrow> string option \<Rightarrow> diag_span option \<Rightarrow> bool \<times> diag_record" where
  "diag_record_add_cause rec code message span =
     (case (code, message) of
        (Some c, Some m) \<Rightarrow>
          (True, rec\<lparr>rec_causes := rec_causes rec @
             [\<lparr>cause_code = c, cause_message = m, cause_span = span\<rparr>]\<rparr>)
      | _ \<Rightarrow> (False, rec))"

definition diag_record_add_correction ::
  "diag_record \<Rightarrow> string option \<Rightarrow> diag_span option \<Rightarrow> bool \<times> diag_record" where
  "diag_record_add_correction rec replacement span =
     (case replacement of None \<Rightarrow> (False, rec)
      | Some r \<Rightarrow>
          (True, rec\<lparr>rec_corrections := rec_corrections rec @
             [\<lparr>corr_replacement = r, corr_span = span\<rparr>]\<rparr>))"

definition diag_record_set_trap_code :: "diag_record \<Rightarrow> int \<Rightarrow> bool \<times> diag_record" where
  "diag_record_set_trap_code rec trap_code =
     (if trap_code < 0 \<or> UINT32_MAX < trap_code then (False, rec)
      else (True, rec\<lparr>rec_trap_code := Some trap_code\<rparr>))"

definition diag_record_set_exit_code :: "diag_record \<Rightarrow> int \<Rightarrow> bool \<times> diag_record" where
  "diag_record_set_exit_code rec exit_code = (True, rec\<lparr>rec_exit_code := Some exit_code\<rparr>)"

section \<open>Validation\<close>

text \<open>\<open>None\<close>: the record is valid; \<open>Some e\<close>: it is refused with the reason \<open>e\<close> (the text the
  source copies into \<open>errbuf\<close>).\<close>

definition diag_record_validate :: "diag_record \<Rightarrow> string option" where
  "diag_record_validate rec =
     (case rec_code rec of
        None \<Rightarrow> Some ''code is required''
      | Some code \<Rightarrow>
     (case diag_code_lookup code of
        None \<Rightarrow> Some ''unknown diagnostic code''
      | Some info \<Rightarrow>
     (case rec_severity rec of
        None \<Rightarrow> Some ''severity is required''
      | Some severity \<Rightarrow>
     (if \<not> is_one_of (Some severity) severity_values then Some ''invalid severity''
      else
     (case rec_phase rec of
        None \<Rightarrow> Some ''phase is required''
      | Some phase \<Rightarrow>
     (if phase \<noteq> ci_phase info then Some ''phase does not match the code registry''
      else if rec_message rec = None then Some ''message is required''
      else if (severity = ''error'' \<or> phase = ''trap'') \<and> rec_recovery rec = None
        then Some ''recovery is required on error and trap records''
      else if rec_recovery rec \<noteq> None \<and> \<not> is_one_of (rec_recovery rec) recovery_values
        then Some ''invalid recovery marking''
      else (case rec_trap_code rec of
              None \<Rightarrow> None
            | Some t \<Rightarrow> if t < 0 \<or> UINT32_MAX < t then Some ''trap_code is outside u32 range''
                        else None)))))))"

section \<open>Trap-record factories\<close>

abbreviation DIAG_TRAP_EXIT_CODE :: int where "DIAG_TRAP_EXIT_CODE \<equiv> 70"

text \<open>A chain \<open>if (!f(rec, ...) || !g(rec, ...) ...)\<close> of setters: the first failure abandons the
  record, otherwise each works on the record its predecessor left.\<close>

fun setters :: "(diag_record \<Rightarrow> bool \<times> diag_record) list \<Rightarrow> diag_record \<Rightarrow> diag_record option" where
  "setters [] rec = Some rec"
| "setters (f # fs) rec =
     (case f rec of (False, _) \<Rightarrow> None | (True, rec') \<Rightarrow> setters fs rec')"

definition diag_trap_record_ex ::
  "string option \<Rightarrow> string option \<Rightarrow> diag_span option \<Rightarrow> int \<Rightarrow> diag_record option" where
  "diag_trap_record_ex code message span exit_code =
     (case code of
        None \<Rightarrow> None
      | Some c \<Rightarrow>
     (case diag_code_lookup c of
        None \<Rightarrow> None
      | Some info \<Rightarrow>
          if ci_phase info \<noteq> ''trap'' then None
          else setters
            [\<lambda>r. diag_record_set_code r (Some c),
             \<lambda>r. diag_record_set_phase r (Some ''trap''),
             \<lambda>r. diag_record_set_severity r (Some ''error''),
             \<lambda>r. diag_record_set_message r (Some (case message of None \<Rightarrow> [] | Some m \<Rightarrow> m)),
             \<lambda>r. diag_record_set_primary_span r span,
             \<lambda>r. diag_record_set_recovery r (Some ''authoritative''),
             \<lambda>r. diag_record_set_exit_code r
                   (if exit_code \<le> 0 then DIAG_TRAP_EXIT_CODE else exit_code)]
            diag_record_new))"

definition diag_trap_record ::
  "string option \<Rightarrow> string option \<Rightarrow> diag_span option \<Rightarrow> diag_record option" where
  "diag_trap_record code message span = diag_trap_record_ex code message span DIAG_TRAP_EXIT_CODE"

definition diag_user_trap_record ::
  "int \<Rightarrow> string option \<Rightarrow> diag_span option \<Rightarrow> diag_record option" where
  "diag_user_trap_record caller_code message span =
     (if caller_code < 0 \<or> UINT32_MAX < caller_code then None
      else (case diag_trap_record (Some ''AIC-U0000'') message span of
              None \<Rightarrow> None
            | Some rec \<Rightarrow> Some (rec\<lparr>rec_trap_code := Some caller_code\<rparr>)))"

section \<open>Ordering\<close>

definition phase_rank :: "string option \<Rightarrow> int" where
  "phase_rank phase =
     (case phase of None \<Rightarrow> -1
      | Some p \<Rightarrow> (case first_index (\<lambda>q. q = p) kPhases of None \<Rightarrow> -1 | Some i \<Rightarrow> int i))"

text \<open>\<open>strcmp(a->code, b->code)\<close>: a record that reaches the comparator has its code set (NULL
  would be undefined behaviour in C; the model reads it as the empty string).\<close>

definition rec_code_str :: "diag_record \<Rightarrow> string" where
  "rec_code_str rec = (case rec_code rec of None \<Rightarrow> [] | Some c \<Rightarrow> c)"

definition diag_record_compare :: "diag_record option \<Rightarrow> diag_record option \<Rightarrow> int" where
  "diag_record_compare pa pb =
     (case (pa, pb) of
        (None, None) \<Rightarrow> 0
      | (None, Some _) \<Rightarrow> -1
      | (Some _, None) \<Rightarrow> 1
      | (Some a, Some b) \<Rightarrow>
          (let ra = (if phase_rank (rec_phase a) < 0 then 11 else phase_rank (rec_phase a));
               rb = (if phase_rank (rec_phase b) < 0 then 11 else phase_rank (rec_phase b))
           in if ra \<noteq> rb then (if ra < rb then -1 else 1)
           else case (rec_primary_span a, rec_primary_span b) of
             (None, None) \<Rightarrow> c_strcmp (rec_code_str a) (rec_code_str b)
           | (None, Some _) \<Rightarrow> -1
           | (Some _, None) \<Rightarrow> 1
           | (Some sa, Some sb) \<Rightarrow>
               (let c = c_strcmp (span_file sa) (span_file sb)
                in if c \<noteq> 0 then c
                else if pos_offset (span_start sa) \<noteq> pos_offset (span_start sb)
                  then (if pos_offset (span_start sa) < pos_offset (span_start sb) then -1 else 1)
                else c_strcmp (rec_code_str a) (rec_code_str b))))"

text \<open>\<open>diag_sort_records\<close> sorts an array of record pointers (NULL pointers allowed) in place with
  \<open>qsort\<close>. C leaves the order of ties to the library, so the sort routine is an argument.\<close>

definition diag_sort_records ::
  "((diag_record option \<Rightarrow> diag_record option \<Rightarrow> int) \<Rightarrow> diag_record option list
     \<Rightarrow> diag_record option list) \<Rightarrow> diag_record option list option \<Rightarrow> diag_record option list option"
where
  "diag_sort_records qsort recs =
     (case recs of None \<Rightarrow> None
      | Some rs \<Rightarrow> if length rs \<le> 1 then Some rs else Some (qsort diag_record_compare rs))"

section \<open>The comparator is a total preorder\<close>

lemma cmp_int_cond: "cmp_int a b = 0 \<longleftrightarrow> a = b" "a \<noteq> b \<Longrightarrow> cmp_int a b = (if a < b then -1 else 1)"
  by (auto simp: cmp_int_def)

text \<open>The rank the comparator uses: unknown phases after all known ones.\<close>

definition sort_rank :: "diag_record \<Rightarrow> int" where
  "sort_rank r = (if phase_rank (rec_phase r) < 0 then 11 else phase_rank (rec_phase r))"

definition compare_keys :: "diag_record option \<Rightarrow> diag_record option \<Rightarrow> int" where
  "compare_keys = cmp_opt
     (cmp_then (cmp_on sort_rank cmp_int)
     (cmp_then (cmp_on rec_primary_span
                  (cmp_opt (cmp_then (cmp_on span_file c_strcmp)
                                     (cmp_on (\<lambda>s. pos_offset (span_start s)) cmp_int))))
               (cmp_on rec_code_str c_strcmp)))"

lemma diag_record_compare_keys: "diag_record_compare = compare_keys"
proof (intro ext)
  fix pa pb
  show "diag_record_compare pa pb = compare_keys pa pb"
  proof (cases "pa = None \<or> pb = None")
    case True
    then show ?thesis
      by (cases pa; cases pb) (simp_all add: diag_record_compare_def compare_keys_def)
  next
    case False
    then obtain a b where ab: "pa = Some a" "pb = Some b" by auto
    show ?thesis
      unfolding ab diag_record_compare_def compare_keys_def Let_def
      by (cases "rec_primary_span a"; cases "rec_primary_span b")
        (simp_all add: cmp_then_def cmp_on_def sort_rank_def [symmetric] cmp_int_cond)
  qed
qed

interpretation rec_order: three_way diag_record_compare
  unfolding diag_record_compare_keys compare_keys_def by (intro three_way_intros)

text \<open>What C promises of \<open>qsort\<close> with a consistent comparator.\<close>

locale c_qsort =
  fixes qs :: "('a \<Rightarrow> 'a \<Rightarrow> int) \<Rightarrow> 'a list \<Rightarrow> 'a list"
  assumes qs_mset: "mset (qs cmp xs) = mset xs"
    and qs_sorted: "three_way cmp \<Longrightarrow> cmp_sorted cmp (qs cmp xs)"
begin

lemma qs_length: "length (qs cmp xs) = length xs"
  using qs_mset by (metis size_mset)

lemma qs_unique:
  "three_way cmp \<Longrightarrow> cmp_sorted cmp ys \<Longrightarrow> mset ys = mset xs
     \<Longrightarrow> list_all2 (\<lambda>x y. cmp x y = 0) (qs cmp xs) ys"
  by (rule three_way.sorted_unique) (simp_all add: qs_mset qs_sorted)

end

fun insert_by :: "('a \<Rightarrow> 'a \<Rightarrow> int) \<Rightarrow> 'a \<Rightarrow> 'a list \<Rightarrow> 'a list" where
  "insert_by cmp x [] = [x]"
| "insert_by cmp x (y # ys) = (if cmp x y \<le> 0 then x # y # ys else y # insert_by cmp x ys)"

definition insertion_sort :: "('a \<Rightarrow> 'a \<Rightarrow> int) \<Rightarrow> 'a list \<Rightarrow> 'a list" where
  "insertion_sort cmp xs = foldr (insert_by cmp) xs []"

lemma mset_insert_by [simp]: "mset (insert_by cmp x xs) = add_mset x (mset xs)"
  by (induction xs) auto

lemma mset_insertion_sort: "mset (insertion_sort cmp xs) = mset xs"
  unfolding insertion_sort_def by (induction xs) auto

lemma sorted_insert_by:
  assumes c: "three_way cmp"
  shows "cmp_sorted cmp xs \<Longrightarrow> cmp_sorted cmp (insert_by cmp x xs)"
proof (induction xs)
  case (Cons y ys)
  have set: "set (insert_by cmp x ys) = insert x (set ys)"
    by (metis mset_insert_by set_mset_add_mset_insert set_mset_mset)
  show ?case
  proof (cases "cmp x y \<le> 0")
    case True
    with Cons.prems show ?thesis
      by (auto simp: cmp_sorted_def intro: three_way.cmp_trans [OF c])
  next
    case False
    then have "cmp y x \<le> 0" using three_way.cmp_total [OF c] by blast
    with Cons False show ?thesis by (auto simp: cmp_sorted_def set)
  qed
qed (simp add: cmp_sorted_def)

interpretation insertion_sort: c_qsort insertion_sort
proof
  show "mset (insertion_sort cmp xs) = mset xs" for cmp and xs :: "'a list"
    by (rule mset_insertion_sort)
  show "cmp_sorted cmp (insertion_sort cmp xs)" if "three_way cmp" for cmp and xs :: "'a list"
    unfolding insertion_sort_def
    by (induction xs) (simp add: cmp_sorted_def, simp add: sorted_insert_by [OF that])
qed

text \<open>What every caller of \<open>diag_sort_records\<close> gets.\<close>

lemma sort_result:
  assumes "c_qsort qs" and "recs = the (diag_sort_records qs (Some xs))"
  shows "mset recs = mset xs" and "cmp_sorted diag_record_compare recs"
  using c_qsort.qs_mset [OF assms(1)] c_qsort.qs_sorted [OF assms(1) rec_order.three_way_axioms]
  by (cases xs; simp add: assms(2) diag_sort_records_def cmp_sorted_def)+

section \<open>Registry and setters\<close>

lemma kCodes_distinct: "distinct (map ci_code kCodes)"
  by (simp add: kCodes_def code_info_def)

lemma kCodes_error: "info \<in> set kCodes \<Longrightarrow> ci_severity info = ''error''"
  by (auto simp: kCodes_def code_info_def)

lemma kCodes_phase: "info \<in> set kCodes \<Longrightarrow> ci_phase info \<in> set kPhases"
  by (auto simp: kCodes_def code_info_def kPhases_def)

lemma diag_code_lookup_SomeD:
  "diag_code_lookup c = Some info \<Longrightarrow> info \<in> set kCodes \<and> ci_code info = c"
  by (auto simp: diag_code_lookup_def find_Some_iff)

lemma diag_code_lookup_mem: "info \<in> set kCodes \<Longrightarrow> diag_code_lookup (ci_code info) = Some info"
proof -
  assume m: "info \<in> set kCodes"
  then obtain info' where i: "diag_code_lookup (ci_code info) = Some info'"
    by (cases "diag_code_lookup (ci_code info)") (auto simp: diag_code_lookup_def find_None_iff)
  then have "info' \<in> set kCodes" "ci_code info' = ci_code info"
    using diag_code_lookup_SomeD by auto
  with m have "info' = info"
    using kCodes_distinct by (auto simp: distinct_map inj_on_def)
  with i show ?thesis by simp
qed

lemma lookup_U0000: "diag_code_lookup ''AIC-U0000'' =
    Some (code_info ''AIC-U0000'' ''trap'' ''error''
      ''user trap via rt.trap.report (numeric code in trap_code)'')"
  by (simp add: diag_code_lookup_def kCodes_def code_info_def)

lemmas setter_defs =
  diag_record_set_code_def diag_record_set_phase_def diag_record_set_severity_def
  diag_record_set_message_def diag_record_set_primary_span_def diag_record_set_recovery_def
  diag_record_set_exit_code_def diag_record_set_trap_code_def

lemma phase_is_valid_trap: "phase_is_valid (Some ''trap'')"
  by (simp add: phase_is_valid_def kPhases_def)

lemma is_one_of_consts:
  "is_one_of (Some ''error'') severity_values" "is_one_of (Some ''authoritative'') recovery_values"
  by (simp_all add: is_one_of_def severity_values_def recovery_values_def)

text \<open>The record a trap factory builds.\<close>

lemma diag_trap_record_ex_Some:
  "diag_trap_record_ex code message span e = Some rec \<longleftrightarrow>
     (\<exists>c info. code = Some c \<and> diag_code_lookup c = Some info \<and> ci_phase info = ''trap'' \<and>
        rec = diag_record_new
          \<lparr>rec_code := Some c, rec_severity := Some ''error'', rec_phase := Some ''trap'',
           rec_message := Some (case message of None \<Rightarrow> [] | Some m \<Rightarrow> m),
           rec_primary_span := span, rec_recovery := Some ''authoritative'',
           rec_exit_code := Some (if e \<le> 0 then DIAG_TRAP_EXIT_CODE else e)\<rparr>)"
proof (cases code)
  case (Some c)
  then show ?thesis
    by (cases "diag_code_lookup c")
      (auto simp: diag_trap_record_ex_def setter_defs phase_is_valid_trap is_one_of_consts
         diag_record_new_def)
qed (simp add: diag_trap_record_ex_def)

lemma diag_trap_record_ex_not_None:
  "diag_trap_record_ex code message span e \<noteq> None \<longleftrightarrow>
     (\<exists>c info. code = Some c \<and> diag_code_lookup c = Some info \<and> ci_phase info = ''trap'')"
  unfolding not_None_eq diag_trap_record_ex_Some by blast

lemma validate_trap:
  assumes "diag_code_lookup c = Some info" and "ci_phase info = ''trap''"
    and "\<And>t. rec_trap_code rec = Some t \<Longrightarrow> 0 \<le> t \<and> t \<le> UINT32_MAX"
    and "rec_code rec = Some c" and "rec_severity rec = Some ''error''"
    and "rec_phase rec = Some ''trap''" and "rec_message rec \<noteq> None"
    and "rec_recovery rec = Some ''authoritative''"
  shows "diag_record_validate rec = None"
  using assms by (cases "rec_trap_code rec")
    (auto simp: diag_record_validate_def is_one_of_consts)

section \<open>Records built through the interface\<close>

text \<open>Every record a client can build: the empty record and whatever setter calls, refused or
  not, leave of it.\<close>

inductive rec_built :: "diag_record \<Rightarrow> bool" where
  new: "rec_built diag_record_new"
| set_code: "rec_built r \<Longrightarrow> rec_built (snd (diag_record_set_code r c))"
| set_severity: "rec_built r \<Longrightarrow> rec_built (snd (diag_record_set_severity r c))"
| set_phase: "rec_built r \<Longrightarrow> rec_built (snd (diag_record_set_phase r c))"
| set_message: "rec_built r \<Longrightarrow> rec_built (snd (diag_record_set_message r c))"
| set_span: "rec_built r \<Longrightarrow> rec_built (snd (diag_record_set_primary_span r s))"
| set_recovery: "rec_built r \<Longrightarrow> rec_built (snd (diag_record_set_recovery r c))"
| add_secondary: "rec_built r \<Longrightarrow> rec_built (snd (diag_record_add_secondary_span r s))"
| add_related_str: "rec_built r \<Longrightarrow> rec_built (snd (diag_record_add_related_str r c v))"
| add_related_int: "rec_built r \<Longrightarrow> rec_built (snd (diag_record_add_related_int r c i))"
| add_expected_str: "rec_built r \<Longrightarrow> rec_built (snd (diag_record_add_expected_str r c v))"
| add_expected_int: "rec_built r \<Longrightarrow> rec_built (snd (diag_record_add_expected_int r c i))"
| add_actual_str: "rec_built r \<Longrightarrow> rec_built (snd (diag_record_add_actual_str r c v))"
| add_actual_int: "rec_built r \<Longrightarrow> rec_built (snd (diag_record_add_actual_int r c i))"
| add_cause: "rec_built r \<Longrightarrow> rec_built (snd (diag_record_add_cause r c m s))"
| add_correction: "rec_built r \<Longrightarrow> rec_built (snd (diag_record_add_correction r c s))"
| set_trap_code: "rec_built r \<Longrightarrow> rec_built (snd (diag_record_set_trap_code r i))"
| set_exit_code: "rec_built r \<Longrightarrow> rec_built (snd (diag_record_set_exit_code r i))"

definition rec_wf :: "diag_record \<Rightarrow> bool" where
  "rec_wf r \<longleftrightarrow>
     (\<forall>c. rec_code r = Some c \<longrightarrow>
        diag_code_lookup c \<noteq> None \<and> rec_severity r \<noteq> None \<and> rec_phase r \<noteq> None) \<and>
     (rec_severity r \<noteq> None \<longrightarrow> is_one_of (rec_severity r) severity_values) \<and>
     (rec_recovery r \<noteq> None \<longrightarrow> is_one_of (rec_recovery r) recovery_values) \<and>
     (\<forall>t. rec_trap_code r = Some t \<longrightarrow> 0 \<le> t \<and> t \<le> UINT32_MAX)"

lemma kCodes_severity: "diag_code_lookup c = Some info \<Longrightarrow> ci_severity info = ''error''"
  by (auto dest!: diag_code_lookup_SomeD kCodes_error)

lemma rec_built_wf: "rec_built r \<Longrightarrow> rec_wf r"
proof (induction rule: rec_built.induct)
  case new
  show ?case by (simp add: rec_wf_def diag_record_new_def)
next
  case (set_code r c)
  then show ?case
    by (auto simp: diag_record_set_code_def rec_wf_def kCodes_severity is_one_of_consts
        split: option.splits)
next
  case (set_severity r c)
  then show ?case
    by (cases c) (auto simp: diag_record_set_severity_def rec_wf_def is_one_of_def)
next
  case (set_phase r c)
  then show ?case
    by (cases c) (auto simp: diag_record_set_phase_def rec_wf_def phase_is_valid_def)
next
  case (set_recovery r c)
  then show ?case
    by (cases c) (auto simp: diag_record_set_recovery_def rec_wf_def is_one_of_def)
qed (auto simp: rec_wf_def setter_defs diag_record_add_secondary_span_def
      diag_record_add_related_str_def diag_record_add_related_int_def
      diag_record_add_expected_str_def diag_record_add_expected_int_def
      diag_record_add_actual_str_def diag_record_add_actual_int_def
      diag_record_add_cause_def diag_record_add_correction_def split: option.splits)

section \<open>Properties\<close>

text \<open>What two records must share to be a tie of the comparator.\<close>

definition sort_key :: "diag_record \<Rightarrow> int \<times> (string \<times> int) option \<times> string" where
  "sort_key r = (sort_rank r,
     map_option (\<lambda>s. (span_file s, pos_offset (span_start s))) (rec_primary_span r),
     rec_code_str r)"

lemma diag_record_compare_0: "diag_record_compare x y = 0 \<longleftrightarrow> map_option sort_key x = map_option sort_key y"
proof (cases "x = None \<or> y = None")
  case False
  then obtain a b where ab: "x = Some a" "y = Some b" by auto
  show ?thesis
    unfolding ab diag_record_compare_keys compare_keys_def
    by (cases "rec_primary_span a"; cases "rec_primary_span b")
      (simp_all add: cmp_then_def cmp_on_def cmp_int_cond(1) sort_key_def)
qed (cases x; cases y; simp add: diag_record_compare_def)

text \<open>C19: \<open>diag_sort_records\<close>, over any \<open>qsort\<close> that keeps C's contract, returns a permutation
  of the records that the comparator orders, and the keys it emits in sequence (phase rank, file
  and start offset, code) are those of every other ordered permutation: the emission order is
  determined by the records up to records with equal keys.\<close>

theorem diag_sort_determined:
  assumes qs: "c_qsort qs"
  shows "\<exists>out. diag_sort_records qs (Some recs) = Some out \<and> mset out = mset recs \<and>
           cmp_sorted diag_record_compare out \<and>
           (\<forall>ys. mset ys = mset recs \<and> cmp_sorted diag_record_compare ys
              \<longrightarrow> map (map_option sort_key) ys = map (map_option sort_key) out)"
proof (intro exI conjI allI impI)
  let ?out = "the (diag_sort_records qs (Some recs))"
  show "diag_sort_records qs (Some recs) = Some ?out" by (simp add: diag_sort_records_def)
  show m: "mset ?out = mset recs" by (rule sort_result(1) [OF qs refl])
  show s: "cmp_sorted diag_record_compare ?out" by (rule sort_result(2) [OF qs refl])
  fix ys assume ys: "mset ys = mset recs \<and> cmp_sorted diag_record_compare ys"
  then have "list_all2 (\<lambda>x y. diag_record_compare x y = 0) ys ?out"
    using rec_order.sorted_unique [of ys ?out] m s by simp
  then show "map (map_option sort_key) ys = map (map_option sort_key) ?out"
    unfolding diag_record_compare_0 by (simp add: list_all2_conv_all_nth list_eq_iff_nth_eq)
qed

lemma diag_sort_determined_witness:
  "mset (the (diag_sort_records insertion_sort
           (Some [Some diag_record_new, None, diag_trap_record (Some ''AIC-R0803'') None None])))
     = mset [Some diag_record_new, None, diag_trap_record (Some ''AIC-R0803'') None None]"
  using diag_sort_determined [OF insertion_sort.c_qsort_axioms,
    of "[Some diag_record_new, None, diag_trap_record (Some ''AIC-R0803'') None None]"]
  by (metis option.sel)

text \<open>C31: the trap-record factories produce a record exactly for a registered code of phase
  \<open>trap\<close>, the record always validates, is an authoritative error of phase \<open>trap\<close> carrying the
  message and span given, and its exit code is the requested one when positive and 70 otherwise; a
  user trap is produced exactly for caller codes in the u32 range and carries that code.\<close>

theorem trap_factories_valid:
  "(diag_trap_record_ex code msg span e \<noteq> None \<longleftrightarrow>
      (\<exists>c info. code = Some c \<and> info \<in> set kCodes \<and> ci_code info = c \<and> ci_phase info = ''trap''))
   \<and> pred_option (\<lambda>rec. diag_record_validate rec = None \<and> rec_code rec = code \<and>
        rec_phase rec = Some ''trap'' \<and> rec_severity rec = Some ''error'' \<and>
        rec_message rec = Some (case msg of None \<Rightarrow> [] | Some m \<Rightarrow> m) \<and>
        rec_primary_span rec = span \<and> rec_recovery rec = Some ''authoritative'' \<and>
        rec_exit_code rec = Some (if 0 < e then e else 70) \<and> rec_trap_code rec = None)
      (diag_trap_record_ex code msg span e)
   \<and> (diag_user_trap_record u msg span \<noteq> None \<longleftrightarrow> 0 \<le> u \<and> u \<le> UINT32_MAX)
   \<and> pred_option (\<lambda>rec. diag_record_validate rec = None \<and> rec_trap_code rec = Some u \<and>
        rec_exit_code rec = Some 70) (diag_user_trap_record u msg span)"
proof (intro conjI)
  show "diag_trap_record_ex code msg span e \<noteq> None \<longleftrightarrow>
      (\<exists>c info. code = Some c \<and> info \<in> set kCodes \<and> ci_code info = c \<and> ci_phase info = ''trap'')"
    unfolding diag_trap_record_ex_not_None
    by (metis diag_code_lookup_SomeD diag_code_lookup_mem)
  show "pred_option (\<lambda>rec. diag_record_validate rec = None \<and> rec_code rec = code \<and>
        rec_phase rec = Some ''trap'' \<and> rec_severity rec = Some ''error'' \<and>
        rec_message rec = Some (case msg of None \<Rightarrow> [] | Some m \<Rightarrow> m) \<and>
        rec_primary_span rec = span \<and> rec_recovery rec = Some ''authoritative'' \<and>
        rec_exit_code rec = Some (if 0 < e then e else 70) \<and> rec_trap_code rec = None)
      (diag_trap_record_ex code msg span e)"
  proof (cases "diag_trap_record_ex code msg span e")
    case (Some rec)
    then obtain c info where c: "code = Some c" "diag_code_lookup c = Some info"
        "ci_phase info = ''trap''" and rec: "rec = diag_record_new
          \<lparr>rec_code := Some c, rec_severity := Some ''error'', rec_phase := Some ''trap'',
           rec_message := Some (case msg of None \<Rightarrow> [] | Some m \<Rightarrow> m),
           rec_primary_span := span, rec_recovery := Some ''authoritative'',
           rec_exit_code := Some (if e \<le> 0 then DIAG_TRAP_EXIT_CODE else e)\<rparr>"
      unfolding diag_trap_record_ex_Some by blast
    have "diag_record_validate rec = None"
      by (rule validate_trap [OF c(2,3)]) (simp_all add: rec diag_record_new_def)
    then show ?thesis
      unfolding Some option.pred_inject unfolding c(1) by (simp add: rec diag_record_new_def)
  qed simp
  note i = lookup_U0000
  have ip: "ci_phase (code_info ''AIC-U0000'' ''trap'' ''error''
      ''user trap via rt.trap.report (numeric code in trap_code)'') = ''trap''"
    by (simp only: code_info_def diag_code_info.simps)
  define r where "r = the (diag_trap_record (Some ''AIC-U0000'') msg span)"
  have r: "diag_trap_record (Some ''AIC-U0000'') msg span = Some r"
  proof -
    have "diag_trap_record (Some ''AIC-U0000'') msg span \<noteq> None"
      unfolding diag_trap_record_def diag_trap_record_ex_not_None using i ip by blast
    then show ?thesis unfolding r_def by simp
  qed
  have f: "rec_code r = Some ''AIC-U0000''" "rec_severity r = Some ''error''"
    "rec_phase r = Some ''trap''" "rec_message r \<noteq> None" "rec_recovery r = Some ''authoritative''"
    "rec_exit_code r = Some 70"
    using r by (auto simp: diag_trap_record_def diag_trap_record_ex_Some)
  show "diag_user_trap_record u msg span \<noteq> None \<longleftrightarrow> 0 \<le> u \<and> u \<le> UINT32_MAX"
    by (auto simp: diag_user_trap_record_def r)
  show "pred_option (\<lambda>rec. diag_record_validate rec = None \<and> rec_trap_code rec = Some u \<and>
        rec_exit_code rec = Some 70) (diag_user_trap_record u msg span)"
    using f by (auto simp: diag_user_trap_record_def r intro!: validate_trap [OF i ip])
qed

text \<open>C30: whatever sequence of setter calls builds a record, validation accepts it exactly when
  its code, message and, for an error or a trap, its recovery marking have been set and its phase
  is still the registry's phase of its code; the checks on the registry, the severity and recovery
  vocabularies and the u32 range of \<open>trap_code\<close> cannot fail on such a record.\<close>

theorem built_record_validates:
  assumes "rec_built r"
  shows "(diag_record_validate r = None \<longleftrightarrow>
           (\<exists>c info. rec_code r = Some c \<and> diag_code_lookup c = Some info \<and>
              rec_phase r = Some (ci_phase info) \<and> rec_message r \<noteq> None \<and>
              (rec_severity r = Some ''error'' \<or> rec_phase r = Some ''trap''
                 \<longrightarrow> rec_recovery r \<noteq> None))) \<and>
         diag_record_validate r \<notin>
           {Some ''unknown diagnostic code'', Some ''invalid severity'',
            Some ''invalid recovery marking'', Some ''trap_code is outside u32 range''}"
proof (cases "rec_code r")
  case (Some c)
  note wf = rec_built_wf [OF assms, unfolded rec_wf_def]
  from wf Some obtain info where i: "diag_code_lookup c = Some info" by auto
  from wf Some obtain sv where sv: "rec_severity r = Some sv" "is_one_of (Some sv) severity_values"
    by auto
  from wf Some obtain ph where ph: "rec_phase r = Some ph" by auto
  have tc: "(case rec_trap_code r of None \<Rightarrow> None
            | Some t \<Rightarrow> if t < 0 \<or> UINT32_MAX < t then Some ''trap_code is outside u32 range''
                        else None) = None"
    using wf by (auto split: option.split)
  show ?thesis
    using wf unfolding diag_record_validate_def tc by (auto simp: Some i sv ph)
qed (simp add: diag_record_validate_def)

lemma built_record_validates_witness:
  "diag_record_validate
     (snd (diag_record_set_recovery (snd (diag_record_set_message
       (snd (diag_record_set_code diag_record_new (Some ''AIC-L0003''))) (Some ''nul'')))
       (Some ''cascading''))) = None"
proof -
  let ?r = "snd (diag_record_set_recovery (snd (diag_record_set_message
       (snd (diag_record_set_code diag_record_new (Some ''AIC-L0003''))) (Some ''nul'')))
       (Some ''cascading''))"
  have "rec_built ?r"
    by (intro rec_built.intros)
  moreover have "rec_code ?r = Some ''AIC-L0003'' \<and> rec_phase ?r = Some ''lex'' \<and>
      rec_message ?r \<noteq> None \<and> rec_recovery ?r \<noteq> None"
    "diag_code_lookup ''AIC-L0003'' =
       Some (code_info ''AIC-L0003'' ''lex'' ''error'' ''NUL byte in source (outside literal/comment)'')"
    by (simp_all add: diag_record_set_recovery_def diag_record_set_message_def is_one_of_def
        recovery_values_def diag_record_set_code_def diag_code_lookup_def kCodes_def code_info_def)
  ultimately show ?thesis
    using built_record_validates [of ?r] by (simp add: code_info_def)
qed

end
