(* ===== verification/DiagEmit.thy ===== *)
theory DiagEmit
  imports Diag
begin

text \<open>
  The JSONL emitter of \<open>bootstrap/src/diag/diag_emit.c\<close>. A \<open>DiagBuf\<close> is a record of its contents
  (\<open>data[0 .. len)\<close>), its capacity and its sticky out-of-memory flag; an emitter is a function
  from a buffer to the boolean it returns and the buffer it leaves, and a C chain
  \<open>if (!f(..) || !g(..)) return false;\<close> is \<open>seq_emit\<close>. The argument \<open>mem\<close> says which capacities
  \<open>realloc\<close> can provide. Strings are C strings: the list is the bytes before the NUL.
\<close>

section \<open>The buffer\<close>

record diag_buf =
  buf_data :: string
  buf_cap :: nat
  buf_oom :: bool

type_synonym emitter = "diag_buf \<Rightarrow> bool \<times> diag_buf"

abbreviation SIZE_MAX :: nat where "SIZE_MAX \<equiv> 18446744073709551615"

definition diag_buf_init :: diag_buf where
  "diag_buf_init = \<lparr>buf_data = [], buf_cap = 0, buf_oom = False\<rparr>"

definition diag_buf_ok :: "diag_buf option \<Rightarrow> bool" where
  "diag_buf_ok buf = (case buf of None \<Rightarrow> False | Some b \<Rightarrow> \<not> buf_oom b)"

text \<open>The doubling loop; its caller never passes capacity 0 (it starts from 256 then).\<close>

function buf_grow :: "nat \<Rightarrow> nat \<Rightarrow> nat" where
  "buf_grow cap need =
     (if need \<le> cap \<or> cap = 0 then cap
      else if SIZE_MAX div 2 < cap then need
      else buf_grow (cap * 2) need)"
  by pat_completeness auto
termination by (relation "measure (\<lambda>(cap, need). need - cap)") auto

declare buf_grow.simps [simp del]

definition buf_reserve :: "(nat \<Rightarrow> bool) \<Rightarrow> nat \<Rightarrow> emitter" where
  "buf_reserve mem extra b =
     (if buf_oom b then (False, b)
      else if SIZE_MAX - length (buf_data b) - 1 < extra then (False, b\<lparr>buf_oom := True\<rparr>)
      else let need = length (buf_data b) + extra + 1 in
        if need \<le> buf_cap b then (True, b)
        else let cap = buf_grow (if buf_cap b \<noteq> 0 then buf_cap b else 256) need in
          if mem cap then (True, b\<lparr>buf_cap := cap\<rparr>)
          else (False, b\<lparr>buf_oom := True\<rparr>))"

definition buf_append_n :: "(nat \<Rightarrow> bool) \<Rightarrow> string \<Rightarrow> emitter" where
  "buf_append_n mem s b =
     (case buf_reserve mem (length s) b of
        (False, b') \<Rightarrow> (False, b')
      | (True, b') \<Rightarrow> (True, b'\<lparr>buf_data := buf_data b' @ s\<rparr>))"

definition buf_append_cstr :: "(nat \<Rightarrow> bool) \<Rightarrow> string \<Rightarrow> emitter" where
  "buf_append_cstr mem s = buf_append_n mem s"

definition buf_append_char :: "(nat \<Rightarrow> bool) \<Rightarrow> char \<Rightarrow> emitter" where
  "buf_append_char mem c = buf_append_n mem [c]"

fun seq_emit :: "emitter list \<Rightarrow> emitter" where
  "seq_emit [] b = (True, b)"
| "seq_emit (e # es) b = (case e b of (False, b') \<Rightarrow> (False, b') | (True, b') \<Rightarrow> seq_emit es b')"

section \<open>JSON primitives\<close>

definition kHex :: string where
  "kHex = ''0123456789abcdef''"

text \<open>\<open>append_hex2\<close> ignores what its two appends return.\<close>

definition append_hex2 :: "(nat \<Rightarrow> bool) \<Rightarrow> nat \<Rightarrow> diag_buf \<Rightarrow> diag_buf" where
  "append_hex2 mem v b =
     snd (buf_append_char mem (kHex ! (v mod 16))
       (snd (buf_append_char mem (kHex ! (v div 16 mod 16)) b)))"

text \<open>One iteration of the loop of \<open>append_json_string\<close>: the \<open>switch\<close> on the byte.\<close>

definition json_char :: "(nat \<Rightarrow> bool) \<Rightarrow> char \<Rightarrow> emitter" where
  "json_char mem c b =
     (if c = CHR 0x22 then buf_append_n mem [CHR 0x5C, CHR 0x22] b
      else if c = CHR 0x5C then buf_append_n mem [CHR 0x5C, CHR 0x5C] b
      else if c = CHR 0x08 then buf_append_n mem [CHR 0x5C, CHR ''b''] b
      else if c = CHR 0x0C then buf_append_n mem [CHR 0x5C, CHR ''f''] b
      else if c = CHR 0x0A then buf_append_n mem [CHR 0x5C, CHR ''n''] b
      else if c = CHR 0x0D then buf_append_n mem [CHR 0x5C, CHR ''r''] b
      else if c = CHR 0x09 then buf_append_n mem [CHR 0x5C, CHR ''t''] b
      else if ub c < 32 then
        (case buf_append_n mem [CHR 0x5C, CHR ''u'', CHR ''0'', CHR ''0''] b of
           (False, b') \<Rightarrow> (False, b')
         | (True, b') \<Rightarrow> (True, append_hex2 mem (ub c) b'))
      else buf_append_char mem c b)"

fun json_chars :: "(nat \<Rightarrow> bool) \<Rightarrow> string \<Rightarrow> emitter" where
  "json_chars mem [] b = buf_append_char mem (CHR 0x22) b"
| "json_chars mem (c # cs) b =
     (case json_char mem c b of (False, b') \<Rightarrow> (False, b') | (True, b') \<Rightarrow> json_chars mem cs b')"

definition append_json_string :: "(nat \<Rightarrow> bool) \<Rightarrow> string \<Rightarrow> emitter" where
  "append_json_string mem s = seq_emit [buf_append_char mem (CHR 0x22), json_chars mem s]"

text \<open>The digit loop of \<open>append_i64\<close>: \<open>tmp[0 .. n)\<close>, least significant digit first.\<close>

fun u64_digits :: "nat \<Rightarrow> string" where
  "u64_digits u = (if u = 0 then [] else char_of (48 + u mod 10) # u64_digits (u div 10))"

declare u64_digits.simps [simp del]

definition append_i64 :: "(nat \<Rightarrow> bool) \<Rightarrow> int \<Rightarrow> emitter" where
  "append_i64 mem v =
     (let u = (if v < 0 then to_u64 (to_u64 (- (v + 1)) + 1) else to_u64 v);
          tmp = (if u = 0 then ''0'' else u64_digits (nat u))
      in seq_emit ((if v < 0 then [buf_append_char mem (CHR ''-'')] else [])
           @ map (buf_append_char mem) (rev tmp)))"

section \<open>Struct emitters\<close>

definition emit_position :: "(nat \<Rightarrow> bool) \<Rightarrow> diag_position \<Rightarrow> emitter" where
  "emit_position mem pos = seq_emit
     [buf_append_cstr mem ''{\"line\":'', append_i64 mem (pos_line pos),
      buf_append_cstr mem '',\"col\":'', append_i64 mem (pos_col pos),
      buf_append_cstr mem '',\"offset\":'', append_i64 mem (pos_offset pos),
      buf_append_char mem (CHR ''}'')]"

definition emit_span :: "(nat \<Rightarrow> bool) \<Rightarrow> diag_span \<Rightarrow> emitter" where
  "emit_span mem span = seq_emit
     [buf_append_cstr mem ''{\"file\":'', append_json_string mem (span_file span),
      buf_append_cstr mem '',\"start\":'', emit_position mem (span_start span),
      buf_append_cstr mem '',\"end\":'', emit_position mem (span_end span),
      buf_append_char mem (CHR ''}'')]"

definition emit_kv :: "(nat \<Rightarrow> bool) \<Rightarrow> diag_kv \<Rightarrow> emitter" where
  "emit_kv mem kv = seq_emit
     [append_json_string mem (kv_key kv), buf_append_char mem (CHR '':''),
      (case kv_value kv of KvString s \<Rightarrow> append_json_string mem s | KvInt i \<Rightarrow> append_i64 mem i)]"

text \<open>The loops \<open>for (i = 0; i < count; ++i) { if (i > 0 && !append(',')) ..; if (!emit(x[i])) .. }\<close>.\<close>

fun emit_items :: "(nat \<Rightarrow> bool) \<Rightarrow> ('a \<Rightarrow> emitter) \<Rightarrow> nat \<Rightarrow> 'a list \<Rightarrow> emitter" where
  "emit_items mem e i [] b = (True, b)"
| "emit_items mem e i (x # xs) b =
     (case seq_emit ((if i > 0 then [buf_append_char mem (CHR '','')] else []) @ [e x]) b of
        (False, b') \<Rightarrow> (False, b')
      | (True, b') \<Rightarrow> emit_items mem e (Suc i) xs b')"

definition emit_kv_object :: "(nat \<Rightarrow> bool) \<Rightarrow> diag_kv list \<Rightarrow> emitter" where
  "emit_kv_object mem kvs = seq_emit
     [buf_append_char mem (CHR ''{''), emit_items mem (emit_kv mem) 0 kvs,
      buf_append_char mem (CHR ''}'')]"

definition emit_cause :: "(nat \<Rightarrow> bool) \<Rightarrow> diag_cause \<Rightarrow> emitter" where
  "emit_cause mem cause = seq_emit
     ([buf_append_cstr mem ''{\"code\":'', append_json_string mem (cause_code cause),
       buf_append_cstr mem '',\"message\":'', append_json_string mem (cause_message cause)]
      @ (case cause_span cause of None \<Rightarrow> []
         | Some s \<Rightarrow> [buf_append_cstr mem '',\"primary_span\":'', emit_span mem s])
      @ [buf_append_char mem (CHR ''}'')])"

definition emit_correction :: "(nat \<Rightarrow> bool) \<Rightarrow> diag_correction \<Rightarrow> emitter" where
  "emit_correction mem corr = seq_emit
     ([buf_append_cstr mem ''{\"replacement\":'', append_json_string mem (corr_replacement corr)]
      @ (case corr_span corr of None \<Rightarrow> []
         | Some s \<Rightarrow> [buf_append_cstr mem '',\"span\":'', emit_span mem s])
      @ [buf_append_char mem (CHR ''}'')])"

section \<open>Record emission\<close>

definition DIAG_SCHEMA_VERSION :: string where
  "DIAG_SCHEMA_VERSION = ''1''"

definition the_str :: "string option \<Rightarrow> string" where
  "the_str s = (case s of None \<Rightarrow> [] | Some t \<Rightarrow> t)"

text \<open>The pieces of \<open>diag_emit_record\<close> after validation, in the order of the source: the six
  members that are always written, then the optional ones.\<close>

definition record_head :: "(nat \<Rightarrow> bool) \<Rightarrow> diag_record \<Rightarrow> emitter list" where
  "record_head mem rec =
     [buf_append_cstr mem ''{\"schema_version\":'', append_json_string mem DIAG_SCHEMA_VERSION,
      buf_append_cstr mem '',\"code\":'', append_json_string mem (the_str (rec_code rec)),
      buf_append_cstr mem '',\"severity\":'', append_json_string mem (the_str (rec_severity rec)),
      buf_append_cstr mem '',\"phase\":'', append_json_string mem (the_str (rec_phase rec)),
      buf_append_cstr mem '',\"message\":'', append_json_string mem (the_str (rec_message rec)),
      buf_append_cstr mem '',\"primary_span\":'',
      (case rec_primary_span rec of
         Some s \<Rightarrow> emit_span mem s | None \<Rightarrow> buf_append_cstr mem ''null'')]"

definition record_tail :: "(nat \<Rightarrow> bool) \<Rightarrow> diag_record \<Rightarrow> emitter list" where
  "record_tail mem rec =
     (if rec_secondary_spans rec \<noteq> [] then
          [buf_append_cstr mem '',\"secondary_spans\":['',
           emit_items mem (emit_span mem) 0 (rec_secondary_spans rec),
           buf_append_char mem (CHR '']'')]
        else [])
     @ (case rec_recovery rec of None \<Rightarrow> []
        | Some r \<Rightarrow> [buf_append_cstr mem '',\"recovery\":'', append_json_string mem r])
     @ (if rec_causes rec \<noteq> [] then
          [buf_append_cstr mem '',\"causes\":['', emit_items mem (emit_cause mem) 0 (rec_causes rec),
           buf_append_char mem (CHR '']'')]
        else [])
     @ (if rec_expected rec \<noteq> [] then
          [buf_append_cstr mem '',\"expected\":'', emit_kv_object mem (rec_expected rec)]
        else [])
     @ (if rec_actual rec \<noteq> [] then
          [buf_append_cstr mem '',\"actual\":'', emit_kv_object mem (rec_actual rec)]
        else [])
     @ (if rec_corrections rec \<noteq> [] then
          [buf_append_cstr mem '',\"corrections\":['',
           emit_items mem (emit_correction mem) 0 (rec_corrections rec),
           buf_append_char mem (CHR '']'')]
        else [])
     @ (if rec_related rec \<noteq> [] then
          [buf_append_cstr mem '',\"related\":'', emit_kv_object mem (rec_related rec)]
        else [])
     @ (case rec_trap_code rec of None \<Rightarrow> []
        | Some t \<Rightarrow> [buf_append_cstr mem '',\"trap_code\":'', append_i64 mem t])
     @ (case rec_exit_code rec of None \<Rightarrow> []
        | Some t \<Rightarrow> [buf_append_cstr mem '',\"exit_code\":'', append_i64 mem t])"

definition record_pieces :: "(nat \<Rightarrow> bool) \<Rightarrow> diag_record \<Rightarrow> emitter list" where
  "record_pieces mem rec =
     record_head mem rec @ record_tail mem rec @ [buf_append_cstr mem [CHR ''}'', CHR 0x0A]]"

definition diag_emit_record :: "(nat \<Rightarrow> bool) \<Rightarrow> diag_record \<Rightarrow> emitter" where
  "diag_emit_record mem rec b =
     (if diag_record_validate rec \<noteq> None then (False, b) else seq_emit (record_pieces mem rec) b)"

text \<open>\<open>diag_emit_records_sorted\<close>: a NULL record is refused by validation.\<close>

definition diag_emit_records_sorted ::
  "(nat \<Rightarrow> bool) \<Rightarrow> ((diag_record option \<Rightarrow> diag_record option \<Rightarrow> int) \<Rightarrow> diag_record option list
     \<Rightarrow> diag_record option list) \<Rightarrow> diag_record option list \<Rightarrow> emitter" where
  "diag_emit_records_sorted mem qsort recs =
     seq_emit (map (\<lambda>r. case r of None \<Rightarrow> (\<lambda>b. (False, b)) | Some rec \<Rightarrow> diag_emit_record mem rec)
       (the (diag_sort_records qsort (Some recs))))"

section \<open>The text the emitters write\<close>

text \<open>JSON values and their canonical compact text: the specification of what is written.\<close>

datatype json =
    JNull
  | JInt int
  | JStr string
  | JArr "json list"
  | JObj "(string \<times> json) list"

definition hex_text :: "nat \<Rightarrow> string" where
  "hex_text v = [kHex ! (v div 16 mod 16), kHex ! (v mod 16)]"

definition esc :: "char \<Rightarrow> string" where
  "esc c =
     (if c = CHR 0x22 then [CHR 0x5C, CHR 0x22]
      else if c = CHR 0x5C then [CHR 0x5C, CHR 0x5C]
      else if c = CHR 0x08 then [CHR 0x5C, CHR ''b'']
      else if c = CHR 0x0C then [CHR 0x5C, CHR ''f'']
      else if c = CHR 0x0A then [CHR 0x5C, CHR ''n'']
      else if c = CHR 0x0D then [CHR 0x5C, CHR ''r'']
      else if c = CHR 0x09 then [CHR 0x5C, CHR ''t'']
      else if ub c < 32 then [CHR 0x5C, CHR ''u'', CHR ''0'', CHR ''0''] @ hex_text (ub c)
      else [c])"

definition str_text :: "string \<Rightarrow> string" where
  "str_text s = CHR 0x22 # concat (map esc s) @ [CHR 0x22]"

definition int_text :: "int \<Rightarrow> string" where
  "int_text v = (if v < 0 then ''-'' else []) @
     (if v = 0 then ''0'' else rev (u64_digits (nat \<bar>v\<bar>)))"

fun commas :: "string list \<Rightarrow> string" where
  "commas [] = []"
| "commas [t] = t"
| "commas (t # ts) = t @ '','' @ commas ts"

fun render :: "json \<Rightarrow> string" where
  "render JNull = ''null''"
| "render (JInt i) = int_text i"
| "render (JStr s) = str_text s"
| "render (JArr xs) = ''['' @ commas (map render xs) @ '']''"
| "render (JObj fs) =
     ''{'' @ commas (map (\<lambda>(k, v). str_text k @ '':'' @ render v) fs) @ ''}''"

section \<open>The emission law\<close>

text \<open>The buffer invariant: text and its terminating NUL fit the capacity.\<close>

definition buf_inv :: "diag_buf \<Rightarrow> bool" where
  "buf_inv b \<longleftrightarrow> (buf_cap b = 0 \<and> buf_data b = []) \<or> length (buf_data b) < buf_cap b"

text \<open>\<open>emits mem e t\<close>: from a good buffer, \<open>e\<close> appends \<open>t\<close> and returns true, or it returns false,
  the buffer holds a prefix of \<open>t\<close> more and is marked out of memory, which cannot happen when
  \<open>realloc\<close> succeeds and the text fits \<open>size_t\<close>; from a buffer marked out of memory it changes
  nothing.\<close>

definition emits :: "(nat \<Rightarrow> bool) \<Rightarrow> emitter \<Rightarrow> string \<Rightarrow> bool" where
  "emits mem e t \<longleftrightarrow>
     (\<forall>b. (buf_oom b \<longrightarrow> snd (e b) = b) \<and>
      (\<not> buf_oom b \<longrightarrow>
        (buf_inv b \<longrightarrow> buf_inv (snd (e b))) \<and>
        (if fst (e b) then \<not> buf_oom (snd (e b)) \<and> buf_data (snd (e b)) = buf_data b @ t
         else buf_oom (snd (e b)) \<and> (\<exists>p q. t = p @ q \<and> buf_data (snd (e b)) = buf_data b @ p) \<and>
              \<not> ((\<forall>n. mem n) \<and> length (buf_data b) + length t < SIZE_MAX))))"

lemma emitsI:
  assumes "\<And>b. buf_oom b \<Longrightarrow> snd (e b) = b"
    and "\<And>b b'. \<not> buf_oom b \<Longrightarrow> e b = (True, b') \<Longrightarrow>
           \<not> buf_oom b' \<and> buf_data b' = buf_data b @ t \<and> (buf_inv b \<longrightarrow> buf_inv b')"
    and "\<And>b b'. \<not> buf_oom b \<Longrightarrow> e b = (False, b') \<Longrightarrow>
           buf_oom b' \<and> (\<exists>p q. t = p @ q \<and> buf_data b' = buf_data b @ p) \<and>
           (buf_inv b \<longrightarrow> buf_inv b') \<and>
           \<not> ((\<forall>n. mem n) \<and> length (buf_data b) + length t < SIZE_MAX)"
  shows "emits mem e t"
  unfolding emits_def
proof (intro allI conjI impI)
  fix b :: diag_buf
  show "snd (e b) = b" if "buf_oom b" using assms(1) [OF that] .
  assume n: "\<not> buf_oom b"
  show "buf_inv (snd (e b))" if "buf_inv b"
  proof (cases "e b")
    case (Pair r b')
    with assms(2,3) [OF n] that show ?thesis by (cases r) auto
  qed
  show "if fst (e b) then \<not> buf_oom (snd (e b)) \<and> buf_data (snd (e b)) = buf_data b @ t
         else buf_oom (snd (e b)) \<and> (\<exists>p q. t = p @ q \<and> buf_data (snd (e b)) = buf_data b @ p) \<and>
              \<not> ((\<forall>n. mem n) \<and> length (buf_data b) + length t < SIZE_MAX)"
  proof (cases "e b")
    case (Pair r b')
    show ?thesis
    proof (cases r)
      case True
      with assms(2) [OF n] Pair show ?thesis by simp
    next
      case False
      with assms(3) [OF n] Pair show ?thesis by simp
    qed
  qed
qed

lemma emits_oomD: "emits mem e t \<Longrightarrow> buf_oom b \<Longrightarrow> snd (e b) = b"
  by (simp add: emits_def)

lemma emits_TrueD:
  "emits mem e t \<Longrightarrow> \<not> buf_oom b \<Longrightarrow> e b = (True, b') \<Longrightarrow>
     \<not> buf_oom b' \<and> buf_data b' = buf_data b @ t \<and> (buf_inv b \<longrightarrow> buf_inv b')"
  unfolding emits_def by (metis fst_conv snd_conv)

lemma emits_FalseD:
  "emits mem e t \<Longrightarrow> \<not> buf_oom b \<Longrightarrow> e b = (False, b') \<Longrightarrow>
     buf_oom b' \<and> (\<exists>p q. t = p @ q \<and> buf_data b' = buf_data b @ p) \<and>
     (buf_inv b \<longrightarrow> buf_inv b') \<and>
     \<not> ((\<forall>n. mem n) \<and> length (buf_data b) + length t < SIZE_MAX)"
  unfolding emits_def by (metis fst_conv snd_conv)

lemma buf_grow_ge: "0 < cap \<Longrightarrow> need \<le> buf_grow cap need"
proof (induction cap need rule: buf_grow.induct)
  case (1 cap need)
  then show ?case by (subst buf_grow.simps) auto
qed

lemma emits_append_n: "emits mem (buf_append_n mem s) s"
proof (rule emitsI)
  fix b :: diag_buf assume "buf_oom b"
  then show "snd (buf_append_n mem s b) = b"
    by (simp add: buf_append_n_def buf_reserve_def)
next
  fix b b' :: diag_buf assume n: "\<not> buf_oom b" and e: "buf_append_n mem s b = (True, b')"
  let ?need = "length (buf_data b) + length s + 1"
  have "0 < (if buf_cap b \<noteq> 0 then buf_cap b else 256)" by simp
  from buf_grow_ge [OF this, of ?need] n e
  show "\<not> buf_oom b' \<and> buf_data b' = buf_data b @ s \<and> (buf_inv b \<longrightarrow> buf_inv b')"
    by (auto simp: buf_append_n_def buf_reserve_def Let_def buf_inv_def split: if_splits)
next
  fix b b' :: diag_buf assume n: "\<not> buf_oom b" and e: "buf_append_n mem s b = (False, b')"
  then have "b' = b\<lparr>buf_oom := True\<rparr>"
    and "\<not> ((\<forall>n. mem n) \<and> length (buf_data b) + length s < SIZE_MAX)"
    by (auto simp: buf_append_n_def buf_reserve_def Let_def split: if_splits)
  then show "buf_oom b' \<and> (\<exists>p q. s = p @ q \<and> buf_data b' = buf_data b @ p) \<and>
     (buf_inv b \<longrightarrow> buf_inv b') \<and>
     \<not> ((\<forall>n. mem n) \<and> length (buf_data b) + length s < SIZE_MAX)"
    by (simp add: buf_inv_def)
qed

lemma emits_append_cstr: "emits mem (buf_append_cstr mem s) s"
  unfolding buf_append_cstr_def by (rule emits_append_n)

lemma emits_append_char: "emits mem (buf_append_char mem c) [c]"
  unfolding buf_append_char_def by (rule emits_append_n)

lemma emits_seq2:
  assumes e: "emits mem e t" and f: "emits mem f u"
  shows "emits mem (\<lambda>b. case e b of (False, b') \<Rightarrow> (False, b') | (True, b') \<Rightarrow> f b') (t @ u)"
proof (rule emitsI)
  fix b :: diag_buf assume o: "buf_oom b"
  obtain r where "e b = (r, b)" using emits_oomD [OF e o] by (cases "e b") simp
  then show "snd (case e b of (False, b') \<Rightarrow> (False, b') | (True, b') \<Rightarrow> f b') = b"
    using emits_oomD [OF f o] by (cases r) simp_all
next
  fix b b' :: diag_buf assume n: "\<not> buf_oom b"
    and t: "(case e b of (False, b') \<Rightarrow> (False, b') | (True, b') \<Rightarrow> f b') = (True, b')"
  then obtain b1 where b1: "e b = (True, b1)" and f1: "f b1 = (True, b')"
    by (auto split: prod.splits bool.splits)
  from emits_TrueD [OF e n b1] emits_TrueD [OF f _ f1]
  show "\<not> buf_oom b' \<and> buf_data b' = buf_data b @ t @ u \<and> (buf_inv b \<longrightarrow> buf_inv b')" by auto
next
  fix b b' :: diag_buf assume n: "\<not> buf_oom b"
    and t: "(case e b of (False, b') \<Rightarrow> (False, b') | (True, b') \<Rightarrow> f b') = (False, b')"
  show "buf_oom b' \<and> (\<exists>p q. t @ u = p @ q \<and> buf_data b' = buf_data b @ p) \<and>
     (buf_inv b \<longrightarrow> buf_inv b') \<and>
     \<not> ((\<forall>n. mem n) \<and> length (buf_data b) + length (t @ u) < SIZE_MAX)"
  proof (cases "fst (e b)")
    case True
    then obtain b1 where b1: "e b = (True, b1)" by (cases "e b") auto
    with t have f1: "f b1 = (False, b')" by simp
    from emits_TrueD [OF e n b1] have b1': "\<not> buf_oom b1" "buf_data b1 = buf_data b @ t"
      "buf_inv b \<longrightarrow> buf_inv b1" by auto
    from emits_FalseD [OF f b1'(1) f1] b1' show ?thesis by auto
  next
    case False
    with t have "e b = (False, b')" by (cases "e b") auto
    from emits_FalseD [OF e n this] show ?thesis by auto
  qed
qed

lemma emits_True: "emits mem (\<lambda>b. (True, b)) []"
  by (rule emitsI) auto

lemma emits_seq:
  "list_all2 (emits mem) es ts \<Longrightarrow> emits mem (seq_emit es) (concat ts)"
proof (induction es ts rule: list_all2_induct)
  case Nil
  have "seq_emit [] = (\<lambda>b. (True, b))" by (rule ext) simp
  then show ?case using emits_True by simp
next
  case (Cons e es t ts)
  have "seq_emit (e # es) = (\<lambda>b. case e b of (False, b') \<Rightarrow> (False, b') | (True, b') \<Rightarrow> seq_emit es b')"
    by (rule ext) simp
  then show ?case using emits_seq2 [OF Cons.hyps(1) Cons.IH] by simp
qed

lemma emits_seqI:
  "list_all2 (emits mem) es ts \<Longrightarrow> concat ts = t \<Longrightarrow> emits mem (seq_emit es) t"
  using emits_seq by blast

text \<open>The body of the string loop may run on with a buffer marked out of memory, since the results
  of the two appends of \<open>append_hex2\<close> are dropped: the next append then fails.\<close>

lemma append_n_oom: "buf_oom b \<Longrightarrow> buf_append_n mem s b = (False, b)"
  by (simp add: buf_append_n_def buf_reserve_def)

lemma json_char_oom: "buf_oom b \<Longrightarrow> json_char mem c b = (False, b)"
  by (simp add: json_char_def buf_append_char_def append_n_oom)

lemma json_chars_oom: "buf_oom b \<Longrightarrow> json_chars mem cs b = (False, b)"
  by (cases cs) (simp_all add: buf_append_char_def append_n_oom json_char_oom)

lemma append_hex2_seq:
  "append_hex2 mem v b = snd (seq_emit [buf_append_char mem (kHex ! (v div 16 mod 16)),
     buf_append_char mem (kHex ! (v mod 16))] b)"
proof (cases "fst (buf_append_char mem (kHex ! (v div 16 mod 16)) b)")
  case False
  then obtain b' where b': "buf_append_char mem (kHex ! (v div 16 mod 16)) b = (False, b')"
    by (cases "buf_append_char mem (kHex ! (v div 16 mod 16)) b") auto
  then have "buf_oom b'"
    using emits_FalseD [OF emits_append_char _ b'] append_n_oom
    by (cases "buf_oom b") (auto simp: buf_append_char_def)
  then show ?thesis
    by (simp add: append_hex2_def b') (simp add: buf_append_char_def append_n_oom)
qed (auto simp: append_hex2_def split: prod.splits bool.splits)

text \<open>What a loop iteration does when it is followed by an emitter that fails on a buffer out of
  memory: the two behave as if the results had been checked.\<close>

definition json_char_checked :: "(nat \<Rightarrow> bool) \<Rightarrow> char \<Rightarrow> emitter" where
  "json_char_checked mem c b =
     (case json_char mem c b of (r, b') \<Rightarrow> (r \<and> \<not> buf_oom b', b'))"

lemma emits_hex:
  "emits mem (seq_emit [buf_append_n mem [CHR 0x5C, CHR ''u'', CHR ''0'', CHR ''0''],
     buf_append_char mem (kHex ! (v div 16 mod 16)), buf_append_char mem (kHex ! (v mod 16))])
     ([CHR 0x5C, CHR ''u'', CHR ''0'', CHR ''0''] @ hex_text v)"
  by (rule emits_seqI [where ts = "[[CHR 0x5C, CHR ''u'', CHR ''0'', CHR ''0''],
        [kHex ! (v div 16 mod 16)], [kHex ! (v mod 16)]]"])
    (simp_all add: emits_append_n emits_append_char hex_text_def)

lemma seq_emit_ok: "\<not> buf_oom b \<Longrightarrow> emits mem e t \<Longrightarrow> fst (e b) = (\<not> buf_oom (snd (e b)))"
  by (cases "e b"; cases "fst (e b)") (auto dest: emits_TrueD emits_FalseD)

lemma emits_checked:
  assumes e: "emits mem e t"
  shows "emits mem (\<lambda>b. case e b of (r, b') \<Rightarrow> (r \<and> \<not> buf_oom b', b')) t"
proof (rule emitsI)
  fix b :: diag_buf assume "buf_oom b"
  with emits_oomD [OF e] show "snd (case e b of (r, b') \<Rightarrow> (r \<and> \<not> buf_oom b', b')) = b"
    by (simp split: prod.split) (metis snd_conv)
next
  fix b b' :: diag_buf assume n: "\<not> buf_oom b"
    and t: "(case e b of (r, b') \<Rightarrow> (r \<and> \<not> buf_oom b', b')) = (True, b')"
  then have "e b = (True, b')" by (simp split: prod.splits)
  from emits_TrueD [OF e n this]
  show "\<not> buf_oom b' \<and> buf_data b' = buf_data b @ t \<and> (buf_inv b \<longrightarrow> buf_inv b')" .
next
  fix b b' :: diag_buf assume n: "\<not> buf_oom b"
    and t: "(case e b of (r, b') \<Rightarrow> (r \<and> \<not> buf_oom b', b')) = (False, b')"
  obtain r b1 where b1: "e b = (r, b1)" by (cases "e b")
  with t have "b1 = b'" "r \<longrightarrow> buf_oom b'" by auto
  with b1 emits_TrueD [OF e n] have "e b = (False, b')" by (cases r) auto
  from emits_FalseD [OF e n this]
  show "buf_oom b' \<and> (\<exists>p q. t = p @ q \<and> buf_data b' = buf_data b @ p) \<and>
     (buf_inv b \<longrightarrow> buf_inv b') \<and>
     \<not> ((\<forall>n. mem n) \<and> length (buf_data b) + length t < SIZE_MAX)" .
qed

lemma emits_cong_ok:
  assumes e: "emits mem e t" and o: "\<And>b. buf_oom b \<Longrightarrow> snd (f b) = b"
    and f: "\<And>b. \<not> buf_oom b \<Longrightarrow> f b = e b"
  shows "emits mem f t"
proof (rule emitsI)
  fix b b' :: diag_buf assume n: "\<not> buf_oom b" and t: "f b = (True, b')"
  from emits_TrueD [OF e n] t f [OF n]
  show "\<not> buf_oom b' \<and> buf_data b' = buf_data b @ t \<and> (buf_inv b \<longrightarrow> buf_inv b')" by simp
next
  fix b b' :: diag_buf assume n: "\<not> buf_oom b" and t: "f b = (False, b')"
  from emits_FalseD [OF e n] t f [OF n]
  show "buf_oom b' \<and> (\<exists>p q. t = p @ q \<and> buf_data b' = buf_data b @ p) \<and>
     (buf_inv b \<longrightarrow> buf_inv b') \<and>
     \<not> ((\<forall>n. mem n) \<and> length (buf_data b) + length t < SIZE_MAX)" by simp
qed (rule o)

lemma emits_json_char_checked: "emits mem (json_char_checked mem c) (esc c)"
proof (cases "c \<in> {CHR 0x22, CHR 0x5C, CHR 0x08, CHR 0x0C, CHR 0x0A, CHR 0x0D, CHR 0x09} \<or> 32 \<le> ub c")
  case True
  then have "json_char mem c = buf_append_n mem (esc c)"
    by (intro ext) (auto simp: json_char_def esc_def buf_append_char_def)
  then have "json_char_checked mem c = (\<lambda>b. case buf_append_n mem (esc c) b of (r, b') \<Rightarrow> (r \<and> \<not> buf_oom b', b'))"
    by (intro ext) (simp add: json_char_checked_def)
  then show ?thesis using emits_checked [OF emits_append_n] by simp
next
  case False
  let ?e = "seq_emit [buf_append_n mem [CHR 0x5C, CHR ''u'', CHR ''0'', CHR ''0''],
     buf_append_char mem (kHex ! (ub c div 16 mod 16)), buf_append_char mem (kHex ! (ub c mod 16))]"
  have esc: "esc c = [CHR 0x5C, CHR ''u'', CHR ''0'', CHR ''0''] @ hex_text (ub c)"
    using False by (simp add: esc_def)
  have "emits mem ?e (esc c)" unfolding esc by (rule emits_hex)
  then show ?thesis
  proof (rule emits_cong_ok)
    fix b :: diag_buf assume "buf_oom b"
    then show "snd (json_char_checked mem c b) = b"
      by (simp add: json_char_checked_def json_char_oom)
  next
    fix b :: diag_buf assume n: "\<not> buf_oom b"
    obtain r b1 where b1: "buf_append_n mem [CHR 0x5C, CHR ''u'', CHR ''0'', CHR ''0''] b = (r, b1)"
      by (cases "buf_append_n mem [CHR 0x5C, CHR ''u'', CHR ''0'', CHR ''0''] b")
    have j: "json_char mem c b = (if r then (True, append_hex2 mem (ub c) b1) else (False, b1))"
      using False b1 by (cases r) (auto simp: json_char_def)
    show "json_char_checked mem c b = ?e b"
    proof (cases r)
      case True
      then have "\<not> buf_oom b1" using emits_TrueD [OF emits_append_n n] b1 by simp
      let ?h = "seq_emit [buf_append_char mem (kHex ! (ub c div 16 mod 16)),
        buf_append_char mem (kHex ! (ub c mod 16))]"
      have "emits mem ?h (hex_text (ub c))"
        by (rule emits_seqI [where ts = "[[kHex ! (ub c div 16 mod 16)], [kHex ! (ub c mod 16)]]"])
          (simp_all add: emits_append_char hex_text_def)
      from seq_emit_ok [OF \<open>\<not> buf_oom b1\<close> this]
      have "?h b1 = (\<not> buf_oom (snd (?h b1)), snd (?h b1))"
        by (simp only: prod_eq_iff fst_conv snd_conv simp_thms)
      then show ?thesis
        unfolding json_char_checked_def j append_hex2_seq using True b1 by simp
    next
      case False
      then show ?thesis unfolding json_char_checked_def j using b1 by simp
    qed
  qed
qed

lemma json_chars_checked:
  "json_chars mem (c # cs) b =
     (case json_char_checked mem c b of (False, b') \<Rightarrow> (False, b') | (True, b') \<Rightarrow> json_chars mem cs b')"
proof -
  obtain r b' where j: "json_char mem c b = (r, b')" by (cases "json_char mem c b")
  show ?thesis
    by (cases r; cases "buf_oom b'") (simp_all add: json_char_checked_def j json_chars_oom)
qed

lemma emits_json_chars: "emits mem (json_chars mem s) (concat (map esc s) @ [CHR 0x22])"
proof (induction s)
  case Nil
  have "json_chars mem [] = buf_append_char mem (CHR 0x22)" by (rule ext) simp
  then show ?case by (simp add: emits_append_char)
next
  case (Cons c cs)
  have "json_chars mem (c # cs) = (\<lambda>b. case json_char_checked mem c b of
      (False, b') \<Rightarrow> (False, b') | (True, b') \<Rightarrow> json_chars mem cs b')"
    by (rule ext) (rule json_chars_checked)
  with emits_seq2 [OF emits_json_char_checked Cons.IH] show ?case by simp
qed

lemma emits_json_string: "emits mem (append_json_string mem s) (str_text s)"
  unfolding append_json_string_def
  by (rule emits_seqI [where ts = "[[CHR 0x22], concat (map esc s) @ [CHR 0x22]]"])
    (simp_all add: emits_append_char emits_json_chars str_text_def)

lemma emits_chars: "list_all2 (emits mem) (map (buf_append_char mem) cs) (map (\<lambda>c. [c]) cs)"
  by (induction cs) (simp_all add: emits_append_char)

lemma to_u64_abs:
  assumes "in_i64 v"
  shows "(if v < 0 then to_u64 (to_u64 (- (v + 1)) + 1) else to_u64 v) = \<bar>v\<bar>"
proof (cases "v < 0")
  case True
  then have "in_u64 (- (v + 1))" and "in_u64 (- (v + 1) + 1)"
    using assms by (auto simp: in_i64_def in_u64_def)
  then show ?thesis using True by simp
next
  case False
  then have "in_u64 v" using assms by (auto simp: in_i64_def in_u64_def)
  then show ?thesis using False by simp
qed

lemma emits_i64: "in_i64 v \<Longrightarrow> emits mem (append_i64 mem v) (int_text v)"
  unfolding append_i64_def to_u64_abs Let_def
  by (rule emits_seqI [where ts = "(if v < 0 then [''-''] else []) @
        map (\<lambda>c. [c]) (rev (if \<bar>v\<bar> = 0 then ''0'' else u64_digits (nat \<bar>v\<bar>)))"])
    (auto simp: emits_append_char int_text_def concat_map_singleton
      intro!: list_all2_appendI emits_chars)

section \<open>Records as JSON\<close>

definition pos_json :: "diag_position \<Rightarrow> json" where
  "pos_json p = JObj [(''line'', JInt (pos_line p)), (''col'', JInt (pos_col p)),
     (''offset'', JInt (pos_offset p))]"

definition span_json :: "diag_span \<Rightarrow> json" where
  "span_json s = JObj [(''file'', JStr (span_file s)), (''start'', pos_json (span_start s)),
     (''end'', pos_json (span_end s))]"

definition kv_json :: "diag_kv \<Rightarrow> string \<times> json" where
  "kv_json kv = (kv_key kv, case kv_value kv of KvString s \<Rightarrow> JStr s | KvInt i \<Rightarrow> JInt i)"

definition opt_span :: "string \<Rightarrow> diag_span option \<Rightarrow> (string \<times> json) list" where
  "opt_span k s = (case s of None \<Rightarrow> [] | Some sp \<Rightarrow> [(k, span_json sp)])"

definition cause_json :: "diag_cause \<Rightarrow> json" where
  "cause_json c = JObj ([(''code'', JStr (cause_code c)), (''message'', JStr (cause_message c))]
     @ opt_span ''primary_span'' (cause_span c))"

definition correction_json :: "diag_correction \<Rightarrow> json" where
  "correction_json c = JObj ([(''replacement'', JStr (corr_replacement c))]
     @ opt_span ''span'' (corr_span c))"

definition opt_list :: "string \<Rightarrow> ('a list \<Rightarrow> json) \<Rightarrow> 'a list \<Rightarrow> (string \<times> json) list" where
  "opt_list k f xs = (if xs = [] then [] else [(k, f xs)])"

definition opt_int :: "string \<Rightarrow> int option \<Rightarrow> (string \<times> json) list" where
  "opt_int k i = (case i of None \<Rightarrow> [] | Some v \<Rightarrow> [(k, JInt v)])"

definition head_fields :: "diag_record \<Rightarrow> (string \<times> json) list" where
  "head_fields r =
     [(''schema_version'', JStr DIAG_SCHEMA_VERSION), (''code'', JStr (the_str (rec_code r))),
      (''severity'', JStr (the_str (rec_severity r))), (''phase'', JStr (the_str (rec_phase r))),
      (''message'', JStr (the_str (rec_message r))),
      (''primary_span'', case rec_primary_span r of None \<Rightarrow> JNull | Some s \<Rightarrow> span_json s)]"

definition tail_fields :: "diag_record \<Rightarrow> (string \<times> json) list" where
  "tail_fields r =
     opt_list ''secondary_spans'' (\<lambda>xs. JArr (map span_json xs)) (rec_secondary_spans r)
     @ (case rec_recovery r of None \<Rightarrow> [] | Some t \<Rightarrow> [(''recovery'', JStr t)])
     @ opt_list ''causes'' (\<lambda>xs. JArr (map cause_json xs)) (rec_causes r)
     @ opt_list ''expected'' (\<lambda>xs. JObj (map kv_json xs)) (rec_expected r)
     @ opt_list ''actual'' (\<lambda>xs. JObj (map kv_json xs)) (rec_actual r)
     @ opt_list ''corrections'' (\<lambda>xs. JArr (map correction_json xs)) (rec_corrections r)
     @ opt_list ''related'' (\<lambda>xs. JObj (map kv_json xs)) (rec_related r)
     @ opt_int ''trap_code'' (rec_trap_code r) @ opt_int ''exit_code'' (rec_exit_code r)"

definition record_fields :: "diag_record \<Rightarrow> (string \<times> json) list" where
  "record_fields r = head_fields r @ tail_fields r"

definition record_line :: "diag_record \<Rightarrow> string" where
  "record_line r = render (JObj (record_fields r)) @ [CHR 0x0A]"

text \<open>The C type \<open>int64_t\<close> of every number in a record.\<close>

definition pos_ok :: "diag_position \<Rightarrow> bool" where
  "pos_ok p \<longleftrightarrow> in_i64 (pos_line p) \<and> in_i64 (pos_col p) \<and> in_i64 (pos_offset p)"

definition span_ok :: "diag_span \<Rightarrow> bool" where
  "span_ok s \<longleftrightarrow> pos_ok (span_start s) \<and> pos_ok (span_end s)"

definition kv_ok :: "diag_kv \<Rightarrow> bool" where
  "kv_ok kv \<longleftrightarrow> (case kv_value kv of KvString s \<Rightarrow> True | KvInt i \<Rightarrow> in_i64 i)"

definition record_ok :: "diag_record \<Rightarrow> bool" where
  "record_ok r \<longleftrightarrow>
     pred_option span_ok (rec_primary_span r) \<and> list_all span_ok (rec_secondary_spans r) \<and>
     list_all (\<lambda>c. pred_option span_ok (cause_span c)) (rec_causes r) \<and>
     list_all (\<lambda>c. pred_option span_ok (corr_span c)) (rec_corrections r) \<and>
     list_all kv_ok (rec_expected r) \<and> list_all kv_ok (rec_actual r) \<and>
     list_all kv_ok (rec_related r) \<and> pred_option in_i64 (rec_trap_code r) \<and>
     pred_option in_i64 (rec_exit_code r)"

lemma emits_position: "pos_ok p \<Longrightarrow> emits mem (emit_position mem p) (render (pos_json p))"
  unfolding emit_position_def
  by (rule emits_seqI [where ts = "[''{\"line\":'', int_text (pos_line p), '',\"col\":'',
        int_text (pos_col p), '',\"offset\":'', int_text (pos_offset p), ''}'']"])
    (simp_all add: emits_append_cstr emits_append_char emits_i64 pos_ok_def pos_json_def
      str_text_def esc_def)

lemma emits_span: "span_ok s \<Longrightarrow> emits mem (emit_span mem s) (render (span_json s))"
  unfolding emit_span_def
  by (rule emits_seqI [where ts = "[''{\"file\":'', str_text (span_file s), '',\"start\":'',
        render (pos_json (span_start s)), '',\"end\":'', render (pos_json (span_end s)), ''}'']"])
    (simp_all add: emits_append_cstr emits_append_char emits_json_string emits_position
      span_ok_def span_json_def, simp add: str_text_def esc_def)

definition kv_text :: "diag_kv \<Rightarrow> string" where
  "kv_text kv = str_text (kv_key kv) @ '':'' @ render (snd (kv_json kv))"

lemma emits_kv: "kv_ok kv \<Longrightarrow> emits mem (emit_kv mem kv) (kv_text kv)"
  unfolding emit_kv_def
  by (rule emits_seqI [where ts = "[str_text (kv_key kv), '':'', render (snd (kv_json kv))]"])
    (auto simp: emits_append_char emits_json_string emits_i64 kv_ok_def kv_json_def kv_text_def
      split: diag_kv_value.splits)

fun items_text :: "nat \<Rightarrow> string list \<Rightarrow> string" where
  "items_text i [] = []"
| "items_text i (t # ts) = (if i > 0 then '','' else []) @ t @ items_text (Suc i) ts"

lemma items_text_Suc: "items_text (Suc i) ts = concat (map (\<lambda>t. '','' @ t) ts)"
  by (induction ts arbitrary: i) auto

lemma commas_Cons: "commas (t # ts) = t @ concat (map (\<lambda>t. '','' @ t) ts)"
  by (induction ts arbitrary: t) auto

lemma items_text_commas: "items_text 0 ts = commas ts"
  by (cases ts) (simp_all add: items_text_Suc commas_Cons del: commas.simps(2,3))

lemma emits_items_aux:
  "list_all (\<lambda>x. emits mem (e x) (txt x)) xs \<Longrightarrow> emits mem (emit_items mem e i xs) (items_text i (map txt xs))"
proof (induction xs arbitrary: i)
  case Nil
  have "emit_items mem e i [] = (\<lambda>b. (True, b))" by (rule ext) simp
  then show ?case by (simp add: emits_True)
next
  case (Cons x xs)
  have x: "emits mem (seq_emit ((if i > 0 then [buf_append_char mem (CHR '','')] else []) @ [e x]))
      ((if i > 0 then '','' else []) @ txt x)"
    using Cons.prems
    by (intro emits_seqI [where ts = "(if i > 0 then ['','', txt x] else [txt x])"])
      (simp_all add: emits_append_char)
  have eq: "emit_items mem e i (x # xs) = (\<lambda>b. case seq_emit ((if i > 0 then [buf_append_char mem (CHR '','')] else []) @ [e x]) b of
        (False, b') \<Rightarrow> (False, b') | (True, b') \<Rightarrow> emit_items mem e (Suc i) xs b')"
    by (rule ext) simp
  have "emits mem (emit_items mem e (Suc i) xs) (items_text (Suc i) (map txt xs))"
    using Cons by simp
  from emits_seq2 [OF x this] show ?case unfolding eq by simp
qed

lemma emits_items:
  "list_all (\<lambda>x. emits mem (e x) (txt x)) xs \<Longrightarrow> emits mem (emit_items mem e 0 xs) (commas (map txt xs))"
  using emits_items_aux [where i = 0] by (simp add: items_text_commas)

lemma render_kvs: "render (JObj (map kv_json kvs)) = ''{'' @ commas (map kv_text kvs) @ ''}''"
  by (simp add: comp_def case_prod_unfold kv_text_def [abs_def] kv_json_def)

lemma emits_kv_object:
  "list_all kv_ok kvs \<Longrightarrow> emits mem (emit_kv_object mem kvs) (render (JObj (map kv_json kvs)))"
  unfolding emit_kv_object_def render_kvs
  by (rule emits_seqI [where ts = "[''{'', commas (map kv_text kvs), ''}'']"])
    (auto simp: emits_append_char list_all_iff intro!: emits_items emits_kv)

lemma emits_cause:
  "pred_option span_ok (cause_span c) \<Longrightarrow> emits mem (emit_cause mem c) (render (cause_json c))"
  unfolding emit_cause_def
  by (rule emits_seqI [where ts = "[''{\"code\":'', str_text (cause_code c), '',\"message\":'',
        str_text (cause_message c)] @ (case cause_span c of None \<Rightarrow> []
           | Some sp \<Rightarrow> ['',\"primary_span\":'', render (span_json sp)]) @ [''}'']"];
      cases "cause_span c")
    (simp_all add: emits_append_cstr emits_append_char emits_json_string emits_span cause_json_def
      opt_span_def, simp_all add: str_text_def esc_def)

lemma emits_correction:
  "pred_option span_ok (corr_span c) \<Longrightarrow> emits mem (emit_correction mem c) (render (correction_json c))"
  unfolding emit_correction_def
  by (rule emits_seqI [where ts = "[''{\"replacement\":'', str_text (corr_replacement c)] @
        (case corr_span c of None \<Rightarrow> []
           | Some sp \<Rightarrow> ['',\"span\":'', render (span_json sp)]) @ [''}'']"];
      cases "corr_span c")
    (simp_all add: emits_append_cstr emits_append_char emits_json_string emits_span correction_json_def
      opt_span_def, simp_all add: str_text_def esc_def)

text \<open>The optional members of a record line, each with its leading comma.\<close>

definition field_text :: "string \<times> json \<Rightarrow> string" where
  "field_text f = str_text (fst f) @ '':'' @ render (snd f)"

lemma render_JObj: "render (JObj fs) = ''{'' @ commas (map field_text fs) @ ''}''"
  by (simp add: field_text_def [abs_def] case_prod_unfold)

definition more_fields :: "(string \<times> json) list \<Rightarrow> string" where
  "more_fields fs = concat (map (\<lambda>f. '','' @ field_text f) fs)"

lemma more_fields_append [simp]: "more_fields (fs @ gs) = more_fields fs @ more_fields gs"
  by (simp add: more_fields_def)

lemma commas_fields: "commas (map field_text (f # fs)) = field_text f @ more_fields fs"
  by (simp only: list.map commas_Cons more_fields_def map_map comp_def)

text \<open>A group of emitters that writes a list of members, each after a comma.\<close>

definition emits_fields ::
  "(nat \<Rightarrow> bool) \<Rightarrow> emitter list \<Rightarrow> (string \<times> json) list \<Rightarrow> bool" where
  "emits_fields mem es fs \<longleftrightarrow> (\<exists>ts. list_all2 (emits mem) es ts \<and> concat ts = more_fields fs)"

lemma emits_fields_append:
  "emits_fields mem es fs \<Longrightarrow> emits_fields mem es' fs' \<Longrightarrow> emits_fields mem (es @ es') (fs @ fs')"
  unfolding emits_fields_def by (metis concat_append list_all2_appendI more_fields_append)

lemma emits_fieldsI:
  "list_all2 (emits mem) es ts \<Longrightarrow> concat ts = more_fields fs \<Longrightarrow> emits_fields mem es fs"
  unfolding emits_fields_def by blast

lemma emits_fields_Nil: "emits_fields mem [] []"
  by (rule emits_fieldsI [where ts = "[]"]) (simp_all add: more_fields_def)

lemma emits_fields_val:
  "emits mem e (render j) \<Longrightarrow> pre = '','' @ str_text k @ '':'' \<Longrightarrow>
     emits_fields mem [buf_append_cstr mem pre, e] [(k, j)]"
  by (rule emits_fieldsI [where ts = "[pre, render j]"])
    (simp_all add: emits_append_cstr more_fields_def field_text_def)

lemma emits_fields_arr:
  assumes "list_all (\<lambda>x. emits mem (e x) (render (j x))) xs" and "pre = '','' @ str_text k @ '':[''"
  shows "emits_fields mem
     (if xs \<noteq> [] then [buf_append_cstr mem pre, emit_items mem e 0 xs, buf_append_char mem (CHR '']'')]
      else []) (opt_list k (\<lambda>xs. JArr (map j xs)) xs)"
proof (cases "xs = []")
  case True
  then show ?thesis by (simp add: opt_list_def emits_fields_Nil)
next
  case False
  from emits_items [OF assms(1)]
  have "emits_fields mem [buf_append_cstr mem pre, emit_items mem e 0 xs, buf_append_char mem (CHR '']'')]
      [(k, JArr (map j xs))]"
    by (intro emits_fieldsI [where ts = "[pre, commas (map (\<lambda>x. render (j x)) xs), '']'']"])
      (simp_all add: emits_append_cstr emits_append_char assms(2) more_fields_def field_text_def comp_def)
  with False show ?thesis by (simp add: opt_list_def)
qed

lemma emits_fields_kvs:
  assumes "list_all kv_ok kvs" and "pre = '','' @ str_text k @ '':''"
  shows "emits_fields mem
     (if kvs \<noteq> [] then [buf_append_cstr mem pre, emit_kv_object mem kvs] else [])
     (opt_list k (\<lambda>xs. JObj (map kv_json xs)) kvs)"
proof (cases "kvs = []")
  case True
  then show ?thesis by (simp add: opt_list_def emits_fields_Nil)
next
  case False
  with emits_fields_val [OF emits_kv_object [OF assms(1)] assms(2)]
  show ?thesis by (simp add: opt_list_def)
qed

lemma emits_fields_int:
  assumes "pred_option in_i64 i" and "pre = '','' @ str_text k @ '':''"
  shows "emits_fields mem
     (case i of None \<Rightarrow> [] | Some v \<Rightarrow> [buf_append_cstr mem pre, append_i64 mem v]) (opt_int k i)"
  using assms by (cases i) (auto simp: opt_int_def emits_fields_Nil emits_i64 intro!: emits_fields_val)

lemma emits_head:
  "pred_option span_ok (rec_primary_span r) \<Longrightarrow>
   \<exists>ts. list_all2 (emits mem) (record_head mem r) ts \<and>
        concat ts = ''{'' @ commas (map field_text (head_fields r))"
  by (rule exI [where x = "[''{\"schema_version\":'', str_text DIAG_SCHEMA_VERSION,
      '',\"code\":'', str_text (the_str (rec_code r)),
      '',\"severity\":'', str_text (the_str (rec_severity r)),
      '',\"phase\":'', str_text (the_str (rec_phase r)),
      '',\"message\":'', str_text (the_str (rec_message r)), '',\"primary_span\":'',
      render (case rec_primary_span r of None \<Rightarrow> JNull | Some s \<Rightarrow> span_json s)]"];
      cases "rec_primary_span r")
    (simp_all add: record_head_def emits_append_cstr emits_json_string emits_span
      head_fields_def field_text_def,
      simp_all add: str_text_def esc_def)

lemma emits_fields_str:
  assumes "pre = '','' @ str_text k @ '':''"
  shows "emits_fields mem
     (case s of None \<Rightarrow> [] | Some t \<Rightarrow> [buf_append_cstr mem pre, append_json_string mem t])
     (case s of None \<Rightarrow> [] | Some t \<Rightarrow> [(k, JStr t)])"
  using assms by (cases s) (auto simp: emits_fields_Nil emits_json_string intro!: emits_fields_val)

lemma emits_tail:
  assumes ok: "record_ok r"
  shows "emits_fields mem (record_tail mem r) (tail_fields r)"
proof -
  note spans = ok [unfolded record_ok_def]
  have "list_all (\<lambda>x. emits mem (emit_span mem x) (render (span_json x))) (rec_secondary_spans r)"
    and "list_all (\<lambda>x. emits mem (emit_cause mem x) (render (cause_json x))) (rec_causes r)"
    and "list_all (\<lambda>x. emits mem (emit_correction mem x) (render (correction_json x))) (rec_corrections r)"
    using spans by (auto simp: list_all_iff emits_span emits_cause emits_correction)
  then show ?thesis
    unfolding record_tail_def tail_fields_def
    using spans
    by (intro emits_fields_append emits_fields_arr emits_fields_kvs emits_fields_int emits_fields_str)
      (simp_all add: str_text_def esc_def)
qed

text \<open>The whole record: with enough memory its canonical line, without a prefix of it.\<close>

lemma emits_record:
  assumes "record_ok r"
  shows "emits mem (seq_emit (record_pieces mem r)) (record_line r)"
proof -
  from assms have "pred_option span_ok (rec_primary_span r)" by (simp add: record_ok_def)
  then obtain hs where hs: "list_all2 (emits mem) (record_head mem r) hs"
    "concat hs = ''{'' @ commas (map field_text (head_fields r))"
    using emits_head by blast
  from emits_tail [OF assms] obtain ts where ts: "list_all2 (emits mem) (record_tail mem r) ts"
    "concat ts = more_fields (tail_fields r)"
    unfolding emits_fields_def by blast
  obtain f fs where f: "head_fields r = f # fs" by (simp add: head_fields_def)
  show ?thesis
    unfolding record_pieces_def
  proof (rule emits_seqI [where ts = "hs @ ts @ [[CHR ''}'', CHR 0x0A]]"])
    show "list_all2 (emits mem) (record_head mem r @ record_tail mem r @
        [buf_append_cstr mem [CHR ''}'', CHR 0x0A]]) (hs @ ts @ [[CHR ''}'', CHR 0x0A]])"
      using hs(1) ts(1) by (intro list_all2_appendI) (simp_all add: emits_append_cstr)
    show "concat (hs @ ts @ [[CHR ''}'', CHR 0x0A]]) = record_line r"
      by (simp only: concat_append hs(2) ts(2) record_line_def record_fields_def render_JObj f
          append_Cons commas_fields more_fields_append) simp
  qed
qed

end
