(* ===== verification/DiagJson.thy ===== *)
theory DiagJson
  imports DiagEmit
begin

text \<open>
  A reader for the JSON the emitter writes (RFC 8259 without insignificant white space, escapes
  of code points below 128 only), and the round trip: reading an emitted record line gives back
  the JSON value of the record and leaves the line feed, and the line determines the record.
\<close>

section \<open>The reader\<close>

fun hex_val :: "char \<Rightarrow> nat option" where
  "hex_val c =
     (if 48 \<le> ub c \<and> ub c \<le> 57 then Some (ub c - 48)
      else if 97 \<le> ub c \<and> ub c \<le> 102 then Some (ub c - 87)
      else if 65 \<le> ub c \<and> ub c \<le> 70 then Some (ub c - 55)
      else None)"

definition simple_escape :: "char \<Rightarrow> char option" where
  "simple_escape c =
     (if c = CHR 0x22 \<or> c = CHR 0x5C \<or> c = CHR ''/'' then Some c
      else if c = CHR ''b'' then Some (CHR 0x08)
      else if c = CHR ''f'' then Some (CHR 0x0C)
      else if c = CHR ''n'' then Some (CHR 0x0A)
      else if c = CHR ''r'' then Some (CHR 0x0D)
      else if c = CHR ''t'' then Some (CHR 0x09)
      else None)"

definition u_escape :: "string \<Rightarrow> char option" where
  "u_escape ds =
     (case ds of
        [a, b, c, d] \<Rightarrow>
          (case (hex_val a, hex_val b, hex_val c, hex_val d) of
             (Some 0, Some 0, Some x, Some y) \<Rightarrow>
               if x * 16 + y < 128 then Some (char_of (x * 16 + y)) else None
           | _ \<Rightarrow> None)
      | _ \<Rightarrow> None)"

definition push :: "'a \<Rightarrow> ('a list \<times> 'b) option \<Rightarrow> ('a list \<times> 'b) option" where
  "push x r = map_option (\<lambda>(xs, t). (x # xs, t)) r"

lemma push_Some [simp]: "push x (Some (xs, t)) = Some (x # xs, t)"
  by (simp add: push_def)

function read_chars :: "string \<Rightarrow> (string \<times> string) option" where
  "read_chars s =
     (case s of
        [] \<Rightarrow> None
      | c # r \<Rightarrow>
          if c = CHR 0x22 then Some ([], r)
          else if c = CHR 0x5C then
            (case r of
               [] \<Rightarrow> None
             | e # r' \<Rightarrow>
                 if e = CHR ''u'' then
                   (case u_escape (take 4 r') of
                      None \<Rightarrow> None
                    | Some x \<Rightarrow> push x (read_chars (drop 4 r')))
                 else
                   (case simple_escape e of
                      None \<Rightarrow> None
                    | Some x \<Rightarrow> push x (read_chars r')))
          else if ub c < 32 then None
          else push c (read_chars r))"
  by pat_completeness auto
termination by (relation "measure length") auto

declare read_chars.simps [simp del]

abbreviation json_digit :: "char \<Rightarrow> bool" where
  "json_digit c \<equiv> 48 \<le> ub c \<and> ub c \<le> (57::nat)"

definition digits_val :: "string \<Rightarrow> nat" where
  "digits_val ds = foldl (\<lambda>a d. a * 10 + (ub d - 48)) 0 ds"

definition read_nat :: "string \<Rightarrow> (nat \<times> string) option" where
  "read_nat s =
     (let ds = takeWhile json_digit s
      in if ds = [] \<or> (1 < length ds \<and> hd ds = CHR ''0'') then None
         else Some (digits_val ds, dropWhile json_digit s))"

definition read_int :: "string \<Rightarrow> (int \<times> string) option" where
  "read_int s =
     (if s \<noteq> [] \<and> hd s = CHR ''-''
      then map_option (\<lambda>(n, r). (- int n, r)) (read_nat (tl s))
      else map_option (\<lambda>(n, r). (int n, r)) (read_nat s))"

fun read_val :: "nat \<Rightarrow> string \<Rightarrow> (json \<times> string) option"
  and read_elems :: "nat \<Rightarrow> string \<Rightarrow> (json list \<times> string) option"
  and read_members :: "nat \<Rightarrow> string \<Rightarrow> ((string \<times> json) list \<times> string) option"
where
  "read_val 0 s = None"
| "read_val (Suc n) s =
     (case s of
        [] \<Rightarrow> None
      | c # r \<Rightarrow>
          if c = CHR ''n'' then
            (if take 3 r = ''ull'' then Some (JNull, drop 3 r) else None)
          else if c = CHR 0x22 then map_option (\<lambda>(t, r'). (JStr t, r')) (read_chars r)
          else if c = CHR ''['' then
            (if r \<noteq> [] \<and> hd r = CHR '']'' then Some (JArr [], tl r)
             else map_option (\<lambda>(xs, r'). (JArr xs, r')) (read_elems n r))
          else if c = CHR ''{'' then
            (if r \<noteq> [] \<and> hd r = CHR ''}'' then Some (JObj [], tl r)
             else map_option (\<lambda>(xs, r'). (JObj xs, r')) (read_members n r))
          else map_option (\<lambda>(i, r'). (JInt i, r')) (read_int s))"
| "read_elems 0 s = None"
| "read_elems (Suc n) s =
     (case read_val n s of
        None \<Rightarrow> None
      | Some (v, r) \<Rightarrow>
          (case r of
             [] \<Rightarrow> None
           | c # r' \<Rightarrow>
               if c = CHR '','' then push v (read_elems n r')
               else if c = CHR '']'' then Some ([v], r')
               else None))"
| "read_members 0 s = None"
| "read_members (Suc n) s =
     (if s = [] \<or> hd s \<noteq> CHR 0x22 then None
      else (case read_chars (tl s) of
        None \<Rightarrow> None
      | Some (k, r) \<Rightarrow>
          if r = [] \<or> hd r \<noteq> CHR '':'' then None
          else (case read_val n (tl r) of
             None \<Rightarrow> None
           | Some (v, r') \<Rightarrow>
               (case r' of
                  [] \<Rightarrow> None
                | c # r'' \<Rightarrow>
                    if c = CHR '','' then push (k, v) (read_members n r'')
                    else if c = CHR ''}'' then Some ([(k, v)], r'')
                    else None))))"

section \<open>Strings and numbers\<close>

lemma hex_val_kHex: "n < 16 \<Longrightarrow> hex_val (kHex ! n) = Some n"
proof -
  have "list_all (\<lambda>n. hex_val (kHex ! n) = Some n) [0..<16]" by code_simp
  then show "n < 16 \<Longrightarrow> hex_val (kHex ! n) = Some n" by (simp only: list_all_iff set_upt) simp
qed

lemma u_escape_hex:
  assumes "v < 32"
  shows "u_escape ([CHR ''0'', CHR ''0''] @ hex_text v) = Some (char_of v)"
proof -
  have z: "hex_val (CHR ''0'') = Some 0" by simp
  have h: "hex_val (kHex ! (v div 16 mod 16)) = Some (v div 16 mod 16)"
    "hex_val (kHex ! (v mod 16)) = Some (v mod 16)"
    by (simp_all only: hex_val_kHex mod_less_divisor zero_less_numeral)
  have v: "v div 16 mod 16 * 16 + v mod 16 = v" using assms by simp
  show ?thesis
    unfolding u_escape_def hex_text_def append_Cons append_Nil list.case z h prod.case option.case
    using assms by (simp only: v nat.case) simp
qed

lemma read_chars_esc: "read_chars (esc c @ t) = push c (read_chars t)"
proof -
  consider "c \<in> {CHR 0x22, CHR 0x5C, CHR 0x08, CHR 0x0C, CHR 0x0A, CHR 0x0D, CHR 0x09}"
    | "ub c < 32" "c \<notin> {CHR 0x22, CHR 0x5C, CHR 0x08, CHR 0x0C, CHR 0x0A, CHR 0x0D, CHR 0x09}"
    | "32 \<le> ub c" "c \<noteq> CHR 0x22" "c \<noteq> CHR 0x5C"
    by fastforce
  then show ?thesis
  proof cases
    case 1
    then show ?thesis
      by (elim insertE) (simp_all add: esc_def simple_escape_def read_chars.simps [of "_ # _"])
  next
    case 2
    then have "esc c = [CHR 0x5C, CHR ''u''] @ [CHR ''0'', CHR ''0''] @ hex_text (ub c)"
      by (simp add: esc_def)
    moreover have "length (hex_text (ub c)) = 2" by (simp add: hex_text_def)
    ultimately show ?thesis
      using u_escape_hex [OF 2(1)] by (simp add: read_chars.simps [of "_ # _"])
  next
    case 3
    then have "esc c = [c]" by (auto simp: esc_def)
    with 3 show ?thesis by (simp add: read_chars.simps [of "_ # _"])
  qed
qed

lemma read_chars_text: "read_chars (concat (map esc s) @ CHR 0x22 # r) = Some (s, r)"
  by (induction s) (simp_all add: read_chars.simps [of "_ # _"] read_chars_esc)

lemma digits_val_snoc: "digits_val (ds @ [d]) = digits_val ds * 10 + (ub d - 48)"
  by (simp add: digits_val_def)

lemma ub_digit: "ub (char_of (48 + u mod 10 :: nat) :: char) = 48 + u mod 10"
proof (rule ub_char_of)
  have "u mod 10 < 10" by simp
  then show "48 + u mod 10 < 256" by linarith
qed

lemma u64_digits_Nil [simp]: "u64_digits u = [] \<longleftrightarrow> u = 0"
  by (subst u64_digits.simps) simp

lemma u64_digits_0 [simp]: "u64_digits 0 = []"
  by simp

lemma digits_val_u64_digits: "digits_val (rev (u64_digits u)) = u"
proof (induction u rule: u64_digits.induct)
  case (1 u)
  then show ?case
    by (cases "u = 0")
      (simp_all add: u64_digits.simps [of u] digits_val_snoc ub_digit digits_val_def [of "[]"])
qed

lemma u64_digits_digit: "c \<in> set (u64_digits u) \<Longrightarrow> json_digit c"
proof (induction u rule: u64_digits.induct)
  case (1 u)
  have m: "u mod 10 < 10" by simp
  from "1.prems" have "u \<noteq> 0" by (cases "u = 0") simp_all
  with "1.prems" consider "c = char_of (48 + u mod 10)" | "c \<in> set (u64_digits (u div 10))"
    by (subst (asm) u64_digits.simps) auto
  then show ?case
  proof cases
    case 1
    then have "ub c = 48 + u mod 10" using ub_digit [of u] by simp
    with m show ?thesis by simp
  next
    case 2
    then show ?thesis using "1.IH" [OF \<open>u \<noteq> 0\<close>] by blast
  qed
qed

lemma u64_digits_last: "u \<noteq> 0 \<Longrightarrow> last (u64_digits u) \<noteq> CHR ''0''"
proof (induction u rule: u64_digits.induct)
  case (1 u)
  show ?case
  proof (cases "u div 10 = 0")
    case True
    then have "u < 10" by simp
    then have "u64_digits u = [char_of (48 + u)]"
      using 1 by (simp add: u64_digits.simps [of u] u64_digits.simps [of 0])
    moreover have "ub (char_of (48 + u) :: char) \<noteq> 48"
      using \<open>u < 10\<close> 1 by simp
    moreover have "ub (CHR ''0'') = 48" by simp
    ultimately show ?thesis by (metis last.simps)
  next
    case False
    with 1 show ?thesis by (simp add: u64_digits.simps [of u])
  qed
qed

text \<open>The scratch array \<open>tmp[24]\<close> of \<open>append_i64\<close> is never overrun.\<close>

lemma u64_digits_length: "u < 10 ^ k \<Longrightarrow> length (u64_digits u) \<le> k"
proof (induction k arbitrary: u)
  case (Suc k)
  then have "u div 10 < 10 ^ k" by (simp add: less_mult_imp_div_less mult.commute)
  from Suc.IH [OF this] show ?case by (subst u64_digits.simps) simp
qed (simp add: u64_digits.simps)

definition no_digit :: "string \<Rightarrow> bool" where
  "no_digit r \<longleftrightarrow> r = [] \<or> \<not> json_digit (hd r)"

lemma takeWhile_append_stop:
  "(\<And>x. x \<in> set xs \<Longrightarrow> P x) \<Longrightarrow> r = [] \<or> \<not> P (hd r) \<Longrightarrow>
     takeWhile P (xs @ r) = xs \<and> dropWhile P (xs @ r) = r"
  by (cases r) (simp_all add: takeWhile_append2 dropWhile_append2)

lemma read_nat_digits:
  assumes "no_digit r"
  shows "read_nat ((if u = 0 then ''0'' else rev (u64_digits u)) @ r) = Some (u, r)"
proof -
  let ?ds = "if u = 0 then ''0'' else rev (u64_digits u)"
  have d: "json_digit x" if "x \<in> set ?ds" for x
    using that u64_digits_digit by (cases "u = 0") auto
  have t: "takeWhile json_digit (?ds @ r) = ?ds" "dropWhile json_digit (?ds @ r) = r"
    using takeWhile_append_stop [of ?ds json_digit r] d assms unfolding no_digit_def by blast+
  have v: "digits_val ?ds = u" by (simp add: digits_val_u64_digits) (simp add: digits_val_def)
  have "?ds \<noteq> []" by simp
  moreover have "\<not> (1 < length ?ds \<and> hd ?ds = CHR ''0'')"
    using u64_digits_last [of u] by (simp add: hd_rev)
  ultimately show ?thesis unfolding read_nat_def t Let_def v by simp
qed

lemma digit_neq_minus: "json_digit c \<Longrightarrow> c \<noteq> CHR ''-''"
  by auto

lemma u64_rev_digits: "x \<in> set (if u = 0 then ''0'' else rev (u64_digits u)) \<Longrightarrow> json_digit x"
  using u64_digits_digit by (cases "u = 0") (simp, metis set_rev)

lemma read_int_text: "no_digit r \<Longrightarrow> read_int (int_text v @ r) = Some (v, r)"
proof (cases "v < 0")
  case True
  assume "no_digit r"
  from read_nat_digits [OF this, of "nat \<bar>v\<bar>"] True show ?thesis
    by (simp add: read_int_def int_text_def)
next
  case False
  assume r: "no_digit r"
  let ?ds = "if nat \<bar>v\<bar> = 0 then ''0'' else rev (u64_digits (nat \<bar>v\<bar>))"
  have eq: "int_text v = ?ds" using False by (simp add: int_text_def)
  have ne: "?ds \<noteq> []" by simp
  have "json_digit (hd ?ds)" by (rule u64_rev_digits) (rule hd_in_set [OF ne])
  then have "hd ?ds \<noteq> CHR ''-''" by (rule digit_neq_minus)
  then have nd: "\<not> (?ds @ r \<noteq> [] \<and> hd (?ds @ r) = CHR ''-'')"
    by (simp only: hd_append2 [OF ne]) simp
  show ?thesis
    unfolding read_int_def eq if_not_P [OF nd] read_nat_digits [OF r, of "nat \<bar>v\<bar>"]
    using False by (simp only: option.map prod.case) simp
qed

section \<open>Values\<close>

lemma esc_not_Nil [simp]: "esc c \<noteq> []"
  by (simp add: esc_def)

lemma int_text_Cons: "\<exists>c r. int_text v = c # r \<and> (c = CHR ''-'' \<or> json_digit c)"
proof (cases "v < 0")
  case True
  then show ?thesis by (simp add: int_text_def)
next
  case False
  let ?ds = "if nat v = 0 then ''0'' else rev (u64_digits (nat v))"
  have eq: "int_text v = ?ds" using False by (simp add: int_text_def)
  obtain c r where c: "?ds = c # r" by (cases ?ds) (auto split: if_splits)
  then have "json_digit c" using u64_rev_digits [of c "nat v"] by simp
  with eq c show ?thesis by auto
qed

lemma render_head: "\<exists>c r. render j = c # r \<and> c \<noteq> CHR '']'' \<and> c \<noteq> CHR ''}''"
proof (cases j)
  case (JInt i)
  obtain c r where c: "int_text i = c # r" "c = CHR ''-'' \<or> json_digit c" using int_text_Cons by blast
  then have "c \<noteq> CHR '']''" "c \<noteq> CHR ''}''" by auto
  with c JInt show ?thesis by simp
qed (simp_all add: str_text_def)

text \<open>What may follow a value: nothing that would extend a number.\<close>

definition val_reads :: "json \<Rightarrow> bool" where
  "val_reads j \<longleftrightarrow> (\<forall>n r. length (render j) \<le> n \<longrightarrow> no_digit r \<longrightarrow>
     read_val n (render j @ r) = Some (j, r))"

lemma val_readsD:
  "val_reads j \<Longrightarrow> length (render j) \<le> n \<Longrightarrow> no_digit r \<Longrightarrow> read_val n (render j @ r) = Some (j, r)"
  by (simp add: val_reads_def)

lemma read_elems_commas:
  "xs \<noteq> [] \<Longrightarrow> (\<And>x. x \<in> set xs \<Longrightarrow> val_reads x) \<Longrightarrow> length (commas (map render xs)) < n \<Longrightarrow>
     read_elems n (commas (map render xs) @ CHR '']'' # r) = Some (xs, r)"
proof (induction xs arbitrary: n)
  case (Cons x xs)
  then obtain m where n: "n = Suc m" by (cases n) auto
  have x: "val_reads x" using Cons.prems by simp
  have len: "length (render x) \<le> m" using Cons.prems n by (simp add: commas_Cons del: commas.simps(2,3))
  show ?case
  proof (cases xs)
    case Nil
    have "read_val m (render x @ CHR '']'' # r) = Some (x, CHR '']'' # r)"
      by (rule val_readsD [OF x len]) (simp add: no_digit_def)
    then show ?thesis by (simp add: Nil n)
  next
    case (Cons y ys)
    have eq: "commas (map render (x # xs)) = render x @ '','' @ commas (map render xs)"
      by (simp add: Cons)
    have "read_val m (render x @ CHR '','' # commas (map render xs) @ CHR '']'' # r)
        = Some (x, CHR '','' # commas (map render xs) @ CHR '']'' # r)"
      by (rule val_readsD [OF x len]) (simp add: no_digit_def)
    moreover have "read_elems m (commas (map render xs) @ CHR '']'' # r) = Some (xs, r)"
    proof (rule Cons.IH)
      show "length (commas (map render xs)) < m" using Cons.prems(3) n eq by simp
    qed (simp_all add: Cons.prems Cons)
    ultimately show ?thesis unfolding eq n by simp
  qed
qed simp

lemma field_text_split:
  "field_text f @ r = CHR 0x22 # concat (map esc (fst f)) @ CHR 0x22 # CHR '':'' # render (snd f) @ r"
  by (simp add: field_text_def str_text_def)

lemma length_field_text: "length (render (snd f)) + 3 \<le> length (field_text f)"
  by (simp add: field_text_def str_text_def)

lemma read_members_step:
  assumes f: "val_reads (snd f)" and len: "length (field_text f) \<le> Suc m" and c: "no_digit (c # r)"
  shows "read_members (Suc m) (field_text f @ c # r) =
     (if c = CHR '','' then push f (read_members m r)
      else if c = CHR ''}'' then Some ([f], r) else None)"
proof -
  have "read_val m (render (snd f) @ c # r) = Some (snd f, c # r)"
    using length_field_text [of f] len by (intro val_readsD [OF f _ c]) simp
  then show ?thesis
    by (simp only: field_text_split read_members.simps list.distinct list.sel read_chars_text
        option.case prod.case simp_thms if_False list.case prod.collapse)
qed

lemma read_members_commas:
  "fs \<noteq> [] \<Longrightarrow> (\<And>f. f \<in> set fs \<Longrightarrow> val_reads (snd f)) \<Longrightarrow>
     length (commas (map field_text fs)) < n \<Longrightarrow>
     read_members n (commas (map field_text fs) @ CHR ''}'' # r) = Some (fs, r)"
proof (induction fs arbitrary: n)
  case (Cons f fs)
  then obtain m where n: "n = Suc m" by (cases n) auto
  have f: "val_reads (snd f)" using Cons.prems by simp
  have len: "length (field_text f) \<le> Suc m"
    using Cons.prems(3) n by (simp add: commas_Cons del: commas.simps(2,3))
  show ?case
  proof (cases fs)
    case Nil
    have "no_digit (CHR ''}'' # r)" by (simp add: no_digit_def)
    from read_members_step [OF f len this] show ?thesis by (simp add: Nil n)
  next
    case (Cons g gs)
    have eq: "commas (map field_text (f # fs)) = field_text f @ '','' @ commas (map field_text fs)"
      by (simp add: Cons)
    have "no_digit (CHR '','' # commas (map field_text fs) @ CHR ''}'' # r)" by (simp add: no_digit_def)
    note step = read_members_step [OF f len this]
    have "read_members m (commas (map field_text fs) @ CHR ''}'' # r) = Some (fs, r)"
    proof (rule Cons.IH)
      show "length (commas (map field_text fs)) < m"
        using Cons.prems(3) n eq length_field_text [of f] by simp
    qed (simp_all add: Cons.prems Cons)
    then show ?thesis unfolding eq n by (simp add: step del: read_members.simps)
  qed
qed simp

lemma val_reads_render: "val_reads j"
proof (induction j)
  case JNull
  show ?case
  proof (unfold val_reads_def, intro allI impI)
    fix n r assume n: "length (render JNull) \<le> n"
    then obtain m where m: "n = Suc m" by (cases n) auto
    show "read_val n (render JNull @ r) = Some (JNull, r)" by (simp add: m)
  qed
next
  case (JInt i)
  show ?case
  proof (unfold val_reads_def, intro allI impI)
    fix n r assume n: "length (render (JInt i)) \<le> n" and r: "no_digit r"
    obtain c t where c: "int_text i = c # t" "c = CHR ''-'' \<or> json_digit c" using int_text_Cons by blast
    then obtain m where m: "n = Suc m" using n by (cases n) auto
    have "c \<noteq> CHR ''n''" "c \<noteq> CHR 0x22" "c \<noteq> CHR ''[''" "c \<noteq> CHR ''{''" using c(2) by auto
    with read_int_text [OF r, of i] show "read_val n (render (JInt i) @ r) = Some (JInt i, r)"
      by (simp add: m c(1))
  qed
next
  case (JStr s)
  show ?case
  proof (unfold val_reads_def, intro allI impI)
    fix n r assume n: "length (render (JStr s)) \<le> n" and r: "no_digit r"
    then obtain m where m: "n = Suc m" by (cases n) (auto simp: str_text_def)
    show "read_val n (render (JStr s) @ r) = Some (JStr s, r)"
      by (simp add: m str_text_def read_chars_text)
  qed
next
  case (JArr xs)
  show ?case
  proof (unfold val_reads_def, intro allI impI)
    fix n r assume n: "length (render (JArr xs)) \<le> n" and r: "no_digit r"
    then obtain m where m: "n = Suc m" by (cases n) auto
    show "read_val n (render (JArr xs) @ r) = Some (JArr xs, r)"
    proof (cases xs)
      case Nil
      then show ?thesis by (simp add: m)
    next
      case (Cons x ys)
      obtain c t where c: "render x = c # t" "c \<noteq> CHR '']''" using render_head by blast
      have "hd (commas (map render xs) @ CHR '']'' # r) = c"
        by (simp add: Cons commas_Cons c(1) del: commas.simps(2,3))
      moreover have "read_elems m (commas (map render xs) @ CHR '']'' # r) = Some (xs, r)"
      proof (rule read_elems_commas)
        show "length (commas (map render xs)) < m" using n m by simp
      qed (simp_all add: JArr Cons)
      ultimately show ?thesis using c(2) by (simp add: m)
    qed
  qed
next
  case (JObj fs)
  show ?case
  proof (unfold val_reads_def, intro allI impI)
    fix n r assume n: "length (render (JObj fs)) \<le> n" and r: "no_digit r"
    then obtain m where m: "n = Suc m" by (cases n) (auto simp: render_JObj)
    show "read_val n (render (JObj fs) @ r) = Some (JObj fs, r)"
    proof (cases fs)
      case Nil
      then show ?thesis by (simp add: m)
    next
      case (Cons f gs)
      have "hd (commas (map field_text fs) @ CHR ''}'' # r) = CHR 0x22"
        by (simp add: Cons commas_Cons field_text_def str_text_def del: commas.simps(2,3))
      moreover have "read_members m (commas (map field_text fs) @ CHR ''}'' # r) = Some (fs, r)"
      proof (rule read_members_commas)
        show "val_reads (snd f)" if "f \<in> set fs" for f
          using JObj that by (cases f) (auto simp: snds.simps)
        show "length (commas (map field_text fs)) < m"
          using n m by (simp add: render_JObj del: render.simps)
      qed (simp add: Cons)
      ultimately show ?thesis by (simp add: m render_JObj del: render.simps)
    qed
  qed
qed

section \<open>A line determines its record\<close>

lemma record_line_read:
  "read_val (length (record_line r)) (record_line r) = Some (JObj (record_fields r), [CHR 0x0A])"
  unfolding record_line_def
  by (rule val_readsD [OF val_reads_render]) (simp_all add: no_digit_def)

lemma pos_json_inj: "pos_json p = pos_json q \<Longrightarrow> p = q"
  by (simp add: pos_json_def)

lemma span_json_inj: "span_json s = span_json t \<Longrightarrow> s = t"
  by (auto simp: span_json_def dest!: pos_json_inj)

lemma span_json_neq: "span_json s \<noteq> JNull"
  by (simp add: span_json_def)

lemma kv_json_inj: "kv_json a = kv_json b \<Longrightarrow> a = b"
  by (cases "kv_value a"; cases "kv_value b") (simp_all add: kv_json_def)

lemma opt_span_inj: "opt_span k s = opt_span k t \<Longrightarrow> s = t"
  by (cases s; cases t) (auto simp: opt_span_def dest: span_json_inj)

lemma cause_json_inj: "cause_json a = cause_json b \<Longrightarrow> a = b"
  by (auto simp: cause_json_def dest!: opt_span_inj)

lemma correction_json_inj: "correction_json a = correction_json b \<Longrightarrow> a = b"
  by (auto simp: correction_json_def dest!: opt_span_inj)

lemma map_inj: "(\<And>x y. f x = f y \<Longrightarrow> x = y) \<Longrightarrow> map f xs = map f ys \<Longrightarrow> xs = ys"
  by (metis inj_map_eq_map injI)

lemma map_of_opt_list:
  "map_of (opt_list k f xs @ gs) k' = (if k' = k \<and> xs \<noteq> [] then Some (f xs) else map_of gs k')"
  by (simp add: opt_list_def)

lemma map_of_opt_int:
  "map_of (opt_int k i @ gs) k' = (if k' = k \<and> i \<noteq> None then Some (JInt (the i)) else map_of gs k')"
  "map_of (opt_int k i) k' = (if k' = k then map_option JInt i else None)"
  by (cases i; simp add: opt_int_def)+

lemma map_of_opt_str:
  "map_of ((case s of None \<Rightarrow> [] | Some t \<Rightarrow> [(k, JStr t)]) @ gs) k' =
     (if k' = k \<and> s \<noteq> None then Some (JStr (the s)) else map_of gs k')"
  by (cases s) simp_all

lemmas map_of_tail = map_of_opt_list map_of_opt_int map_of_opt_str

lemma tail_fields_inj:
  assumes eq: "tail_fields r = tail_fields s"
  shows "rec_secondary_spans r = rec_secondary_spans s \<and> rec_recovery r = rec_recovery s \<and>
    rec_causes r = rec_causes s \<and> rec_expected r = rec_expected s \<and>
    rec_actual r = rec_actual s \<and> rec_corrections r = rec_corrections s \<and>
    rec_related r = rec_related s \<and> rec_trap_code r = rec_trap_code s \<and>
    rec_exit_code r = rec_exit_code s"
proof (intro conjI)
  have m: "map_of (tail_fields r) k = map_of (tail_fields s) k" for k by (simp only: eq)
  note m = m [unfolded tail_fields_def map_of_tail]
  show "rec_secondary_spans r = rec_secondary_spans s"
    using m [of "''secondary_spans''"] by (simp split: if_splits) (erule map_inj [where f = span_json, rotated], erule span_json_inj)
  show "rec_causes r = rec_causes s"
    using m [of "''causes''"] by (simp split: if_splits) (erule map_inj [where f = cause_json, rotated], erule cause_json_inj)
  show "rec_corrections r = rec_corrections s"
    using m [of "''corrections''"] by (simp split: if_splits) (erule map_inj [where f = correction_json, rotated], erule correction_json_inj)
  show "rec_expected r = rec_expected s"
    using m [of "''expected''"] by (simp split: if_splits) (erule map_inj [where f = kv_json, rotated], erule kv_json_inj)
  show "rec_actual r = rec_actual s"
    using m [of "''actual''"] by (simp split: if_splits) (erule map_inj [where f = kv_json, rotated], erule kv_json_inj)
  show "rec_related r = rec_related s"
    using m [of "''related''"] by (simp split: if_splits) (erule map_inj [where f = kv_json, rotated], erule kv_json_inj)
  show "rec_recovery r = rec_recovery s"
    using m [of "''recovery''"] by (cases "rec_recovery r"; cases "rec_recovery s") simp_all
  show "rec_trap_code r = rec_trap_code s"
    using m [of "''trap_code''"] by (cases "rec_trap_code r"; cases "rec_trap_code s") simp_all
  show "rec_exit_code r = rec_exit_code s"
    using m [of "''exit_code''"] by (cases "rec_exit_code r"; cases "rec_exit_code s") simp_all
qed

lemma diag_record_validate_NoneD:
  "diag_record_validate r = None \<Longrightarrow>
     rec_code r \<noteq> None \<and> rec_severity r \<noteq> None \<and> rec_phase r \<noteq> None \<and> rec_message r \<noteq> None"
  by (auto simp: diag_record_validate_def split: option.splits if_splits)

lemma the_str_inj: "a \<noteq> None \<Longrightarrow> b \<noteq> None \<Longrightarrow> the_str a = the_str b \<Longrightarrow> a = b"
  by (auto simp: the_str_def)

lemma head_fields_inj:
  assumes "head_fields r = head_fields s"
    and "diag_record_validate r = None" and "diag_record_validate s = None"
  shows "rec_code r = rec_code s \<and> rec_severity r = rec_severity s \<and> rec_phase r = rec_phase s \<and>
    rec_message r = rec_message s \<and> rec_primary_span r = rec_primary_span s"
proof (intro conjI)
  note v = diag_record_validate_NoneD [OF assms(2)] diag_record_validate_NoneD [OF assms(3)]
  show "rec_code r = rec_code s" "rec_severity r = rec_severity s" "rec_phase r = rec_phase s"
    "rec_message r = rec_message s"
    by (rule the_str_inj; insert v assms(1); simp add: head_fields_def)+
  have "(case rec_primary_span r of None \<Rightarrow> JNull | Some s \<Rightarrow> span_json s) =
        (case rec_primary_span s of None \<Rightarrow> JNull | Some s \<Rightarrow> span_json s)"
    using assms(1) by (simp add: head_fields_def)
  then show "rec_primary_span r = rec_primary_span s"
    by (cases "rec_primary_span r"; cases "rec_primary_span s")
      (auto simp: span_json_neq span_json_neq [symmetric] dest: span_json_inj)
qed

section \<open>A line is one line\<close>

abbreviation printable :: "string \<Rightarrow> bool" where
  "printable s \<equiv> (\<forall>c \<in> set s. 32 \<le> ub c)"

lemma kHex_printable: "n < 16 \<Longrightarrow> 32 \<le> ub (kHex ! n)"
proof -
  have "list_all (\<lambda>n. 32 \<le> ub (kHex ! n)) [0..<16]" by code_simp
  then show "n < 16 \<Longrightarrow> 32 \<le> ub (kHex ! n)" by (simp only: list_all_iff set_upt) simp
qed

lemma esc_printable: "printable (esc c)"
  by (simp add: esc_def hex_text_def kHex_printable)

lemma str_text_printable: "printable (str_text s)"
  using esc_printable by (auto simp: str_text_def)

lemma int_text_printable: "printable (int_text v)"
proof (cases "v < 0")
  case True
  have "32 \<le> ub c" if "c \<in> set (u64_digits u)" for c u using u64_digits_digit [OF that] by simp
  with True show ?thesis by (auto simp: int_text_def)
next
  case False
  have "32 \<le> ub c" if "c \<in> set (u64_digits u)" for c u using u64_digits_digit [OF that] by simp
  with False show ?thesis by (auto simp: int_text_def)
qed

lemma commas_printable: "(\<And>t. t \<in> set ts \<Longrightarrow> printable t) \<Longrightarrow> printable (commas ts)"
  by (induction ts rule: commas.induct) auto

lemma render_printable: "printable (render j)"
proof (induction j)
  case (JInt i)
  show ?case using int_text_printable by simp
next
  case (JStr s)
  show ?case using str_text_printable by simp
next
  case (JArr xs)
  then have "printable (commas (map render xs))" by (intro commas_printable) auto
  then show ?case by auto
next
  case (JObj fs)
  have "printable (field_text f)" if "f \<in> set fs" for f
  proof -
    have "printable (render (snd f))" using JObj that by (cases f) (auto simp: snds.simps)
    with str_text_printable [of "fst f"] show ?thesis by (auto simp: field_text_def)
  qed
  then have "printable (commas (map field_text fs))" by (intro commas_printable) auto
  then show ?case by (auto simp: render_JObj simp del: render.simps)
qed simp

lemma render_no_LF: "CHR 0x0A \<notin> set (render j)"
proof
  assume "CHR 0x0A \<in> set (render j)"
  then have "32 \<le> ub (CHR 0x0A)" using render_printable by blast
  then show False by simp
qed

lemma lookup_R0803: "diag_code_lookup ''AIC-R0803'' =
    Some (code_info ''AIC-R0803'' ''trap'' ''error'' ''division by zero'')"
  by (simp add: diag_code_lookup_def kCodes_def code_info_def)

lemma lookup_R0802: "diag_code_lookup ''AIC-R0802'' =
    Some (code_info ''AIC-R0802'' ''trap'' ''error'' ''arithmetic overflow (checked)'')"
  by (simp add: diag_code_lookup_def kCodes_def code_info_def)

lemma trap_record_ok:
  assumes "diag_code_lookup c = Some info" and "ci_phase info = ''trap''"
  shows "record_ok (the (diag_trap_record (Some c) m None)) \<and>
    diag_record_validate (the (diag_trap_record (Some c) m None)) = None"
proof -
  have "diag_trap_record (Some c) m None \<noteq> None"
    unfolding diag_trap_record_def diag_trap_record_ex_not_None using assms by blast
  then obtain r where r: "diag_trap_record (Some c) m None = Some r" by blast
  then have eq: "r = diag_record_new
      \<lparr>rec_code := Some c, rec_severity := Some ''error'', rec_phase := Some ''trap'',
       rec_message := Some (case m of None \<Rightarrow> [] | Some m \<Rightarrow> m), rec_primary_span := None,
       rec_recovery := Some ''authoritative'', rec_exit_code := Some 70\<rparr>"
    unfolding diag_trap_record_def diag_trap_record_ex_Some by auto
  have "diag_record_validate r = None"
    by (rule validate_trap [OF assms]) (simp_all add: eq diag_record_new_def)
  moreover have "record_ok r"
    by (simp add: eq record_ok_def diag_record_new_def in_i64_def)
  ultimately show ?thesis by (simp add: r)
qed

lemma record_line_inj:
  assumes "diag_record_validate r = None" and "diag_record_validate s = None"
  shows "record_line r = record_line s \<longleftrightarrow> r = s"
proof
  assume eq: "record_line r = record_line s"
  have f: "record_fields r = record_fields s"
    using record_line_read [of r] record_line_read [of s] unfolding eq by simp
  have "length (head_fields r) = length (head_fields s)" by (simp add: head_fields_def)
  with f have "head_fields r = head_fields s" and "tail_fields r = tail_fields s"
    unfolding record_fields_def by auto
  from head_fields_inj [OF this(1) assms] tail_fields_inj [OF this(2)] show "r = s"
    by (intro diag_record.equality) auto
qed simp

lemma emit_init_line:
  assumes "record_ok r" and "diag_emit_record mem r diag_buf_init = (True, b)"
  shows "diag_record_validate r = None \<and> buf_data b = record_line r"
proof -
  have v: "diag_record_validate r = None"
    using assms(2) by (simp add: diag_emit_record_def split: if_splits)
  with assms(2) have "seq_emit (record_pieces mem r) diag_buf_init = (True, b)"
    by (simp add: diag_emit_record_def)
  from emits_TrueD [OF emits_record [OF assms(1)] _ this] v show ?thesis
    by (simp add: diag_buf_init_def)
qed

text \<open>A record emits successfully when memory suffices.\<close>

lemma emit_init_ok:
  assumes "record_ok r" and "diag_record_validate r = None" and "length (record_line r) < 500"
  shows "fst (diag_emit_record (\<lambda>n. True) r diag_buf_init)"
proof (rule ccontr)
  assume "\<not> ?thesis"
  then obtain b where "diag_emit_record (\<lambda>n. True) r diag_buf_init = (False, b)"
    by (cases "diag_emit_record (\<lambda>n. True) r diag_buf_init") simp
  with assms(2) have "seq_emit (record_pieces (\<lambda>n. True) r) diag_buf_init = (False, b)"
    by (simp add: diag_emit_record_def)
  from emits_FalseD [OF emits_record [OF assms(1)] _ this] assms(3) show False
    by (simp add: diag_buf_init_def)
qed

lemma emits_lines:
  "list_all (\<lambda>r. record_ok r \<and> diag_record_validate r = None) rs \<Longrightarrow>
   emits mem (seq_emit (map (diag_emit_record mem) rs)) (concat (map record_line rs))"
proof (rule emits_seqI [where ts = "map record_line rs"])
  assume a: "list_all (\<lambda>r. record_ok r \<and> diag_record_validate r = None) rs"
  have "emits mem (diag_emit_record mem r) (record_line r)"
    if "record_ok r" "diag_record_validate r = None" for r
  proof -
    have "diag_emit_record mem r = seq_emit (record_pieces mem r)"
      by (rule ext) (simp add: diag_emit_record_def that)
    then show ?thesis using emits_record [OF that(1)] by simp
  qed
  with a show "list_all2 (emits mem) (map (diag_emit_record mem) rs) (map record_line rs)"
    by (induction rs) auto
qed simp

section \<open>Properties\<close>

text \<open>C18: \<open>diag_emit_record\<close> on a buffer in good state refuses an invalid record and leaves the
  buffer untouched; on a valid record it keeps the buffer invariant (the text and its terminating
  NUL fit the capacity) and either returns true having appended the record's one canonical line,
  or returns false with the out-of-memory mark set and a prefix of that line appended, which cannot
  happen when \<open>realloc\<close> succeeds and the text fits \<open>size_t\<close>.\<close>

theorem emit_record_appends_line:
  assumes "record_ok rec" and "\<not> buf_oom b" and "buf_inv b"
  shows "(case diag_emit_record mem rec b of (ok, b') \<Rightarrow>
      buf_inv b' \<and>
      (if diag_record_validate rec \<noteq> None then \<not> ok \<and> b' = b
       else if ok then \<not> buf_oom b' \<and> buf_data b' = buf_data b @ record_line rec
       else buf_oom b' \<and> (\<exists>p q. record_line rec = p @ q \<and> buf_data b' = buf_data b @ p) \<and>
         ((\<exists>n. \<not> mem n) \<or> SIZE_MAX \<le> length (buf_data b) + length (record_line rec))))"
proof (cases "diag_record_validate rec = None")
  case False
  then show ?thesis using assms(3) by (simp add: diag_emit_record_def)
next
  case True
  obtain ok b' where e: "seq_emit (record_pieces mem rec) b = (ok, b')"
    by (cases "seq_emit (record_pieces mem rec) b")
  note law = emits_record [OF assms(1), of mem]
  show ?thesis
  proof (cases ok)
    case T: True
    from emits_TrueD [OF law assms(2)] e T assms(3) True show ?thesis
      by (simp add: diag_emit_record_def)
  next
    case F: False
    from emits_FalseD [OF law assms(2)] e F assms(3) True show ?thesis
      by (auto simp: diag_emit_record_def not_less)
  qed
qed

lemma emit_record_appends_line_witness:
  "fst (diag_emit_record (\<lambda>n. True) (the (diag_trap_record (Some ''AIC-R0803'') (Some ''div'') None))
     diag_buf_init)"
proof -
  let ?r = "the (diag_trap_record (Some ''AIC-R0803'') (Some ''div'') None)"
  have ok: "record_ok ?r" and v: "diag_record_validate ?r = None"
    using trap_record_ok [OF lookup_R0803] by (simp_all add: code_info_def)
  have "length (record_line ?r) < 500" by code_simp
  then have "length (record_line ?r) < SIZE_MAX" by simp
  then show ?thesis
    using emit_record_appends_line [OF ok, of diag_buf_init "\<lambda>n. True"] v
    by (auto simp: diag_buf_init_def buf_inv_def split: prod.splits if_splits)
qed

text \<open>C12: what \<open>diag_emit_record\<close> writes for a record is a JSON text of printable bytes followed
  by the only line feed; reading it with a JSON reader gives back the members of the record in the
  canonical order and leaves just the line feed; and two records with the same output are the same
  record, so nothing of a record is lost or confused by the escaping, the optional members or the
  decimal rendering.\<close>

theorem record_line_roundtrip:
  assumes r: "record_ok r" "diag_emit_record mem r diag_buf_init = (True, b)"
    and s: "record_ok s" "diag_emit_record mem s diag_buf_init = (True, c)"
  shows "read_val (length (buf_data b)) (buf_data b) = Some (JObj (record_fields r), [CHR 0x0A])
    \<and> (\<exists>t. buf_data b = t @ [CHR 0x0A] \<and> list_all (\<lambda>c. 32 \<le> ub c) t)
    \<and> (buf_data b = buf_data c \<longleftrightarrow> r = s)"
proof -
  note R = emit_init_line [OF r] and S = emit_init_line [OF s]
  have p: "\<exists>t. record_line r = t @ [CHR 0x0A] \<and> list_all (\<lambda>c. 32 \<le> ub c) t"
    unfolding record_line_def list_all_iff using render_printable by blast
  show ?thesis
    using record_line_read [of r] p record_line_inj [OF conjunct1 [OF R] conjunct1 [OF S]] R S by simp
qed

lemma record_line_roundtrip_witness:
  "\<exists>b. diag_emit_record (\<lambda>n. True) (the (diag_trap_record (Some ''AIC-R0803'') None None)) diag_buf_init
        = (True, b) \<and>
       read_val (length (buf_data b)) (buf_data b)
        = Some (JObj (record_fields (the (diag_trap_record (Some ''AIC-R0803'') None None))), [CHR 0x0A])"
proof -
  let ?r = "the (diag_trap_record (Some ''AIC-R0803'') None None)"
  have ok: "record_ok ?r" and v: "diag_record_validate ?r = None"
    using trap_record_ok [OF lookup_R0803] by (simp_all add: code_info_def)
  have "length (record_line ?r) < 500" by code_simp
  then have "fst (diag_emit_record (\<lambda>n. True) ?r diag_buf_init)" by (rule emit_init_ok [OF ok v])
  then obtain b where b: "diag_emit_record (\<lambda>n. True) ?r diag_buf_init = (True, b)"
    by (cases "diag_emit_record (\<lambda>n. True) ?r diag_buf_init") simp
  from record_line_roundtrip [OF ok b ok b] b show ?thesis by blast
qed

text \<open>C17: \<open>diag_emit_records_sorted\<close> writes, in sequence, the lines of the records in an order the
  comparator accepts: with enough memory and only valid records the buffer gains exactly the
  lines of a sorted permutation of the input.\<close>

theorem emit_sorted_lines:
  assumes qs: "c_qsort qs"
    and recs: "list_all (\<lambda>r. record_ok r \<and> diag_record_validate r = None) recs"
  shows "\<exists>out. mset out = mset recs \<and> cmp_sorted diag_record_compare (map Some out) \<and>
           emits mem (diag_emit_records_sorted mem qs (map Some recs)) (concat (map record_line out))"
proof -
  let ?out = "the (diag_sort_records qs (Some (map Some recs)))"
  have m: "mset ?out = mset (map Some recs)" and s: "cmp_sorted diag_record_compare ?out"
    by (rule sort_result [OF qs refl])+
  then have "set ?out = Some ` set recs" by (metis set_map set_mset_mset)
  define out where "out = map the ?out"
  have out: "?out = map Some out"
    unfolding out_def map_map comp_def
  proof (rule map_idI [symmetric])
    fix x assume "x \<in> set ?out"
    with \<open>set ?out = Some ` set recs\<close> show "Some (the x) = x" by auto
  qed
  have "mset out = mset recs"
    unfolding out_def mset_map m by (simp add: multiset.map_comp comp_def)
  moreover from this have "set out = set recs" by (metis set_mset_mset)
  with recs have "list_all (\<lambda>r. record_ok r \<and> diag_record_validate r = None) out"
    by (simp add: list_all_iff)
  from emits_lines [OF this] have "emits mem (diag_emit_records_sorted mem qs (map Some recs))
      (concat (map record_line out))"
    unfolding diag_emit_records_sorted_def out by (simp add: comp_def)
  ultimately show ?thesis using s unfolding out by blast
qed

lemma emit_sorted_lines_witness:
  "\<exists>t. emits (\<lambda>n. True) (diag_emit_records_sorted (\<lambda>n. True) insertion_sort
      [Some (the (diag_trap_record (Some ''AIC-R0803'') None None)),
       Some (the (diag_trap_record (Some ''AIC-R0802'') None None))]) t"
proof -
  have "list_all (\<lambda>r. record_ok r \<and> diag_record_validate r = None)
      [the (diag_trap_record (Some ''AIC-R0803'') None None),
       the (diag_trap_record (Some ''AIC-R0802'') None None)]"
    using trap_record_ok [OF lookup_R0803] trap_record_ok [OF lookup_R0802]
    by (simp add: code_info_def)
  from emit_sorted_lines [OF insertion_sort.c_qsort_axioms this] show ?thesis by auto
qed

end
