(* ===== verification/RtMem.thy ===== *)
theory RtMem
  imports Prelude
begin

text \<open>
  The runtime allocator: \<open>rt_mem_alloc.c\<close> (registry, controlled region, allocation and release),
  \<open>rt_mem_reuse.c\<close> (exact-fit LIFO reuse and poisoning, connected through the two hooks) and
  \<open>rt_mem_api.c\<close>. The file-static variables are one state record; sizes and addresses are natural
  numbers below \<open>2 ^ 64\<close> (\<open>NULL\<close> is 0) and memory is a function from addresses to bytes. What
  Windows provides (page size, the reserved address, whether a commit succeeds) is an argument of
  each allocation; \<open>os_ok\<close> states its documented behaviour. The hooks, NULL by default, are an
  argument too, with their own state inside the record.
\<close>

section \<open>State\<close>

datatype reg_state = REG_UNUSED | REG_LIVE | REG_FREE

record reg_entry =
  re_addr :: nat
  re_size :: nat
  re_state :: reg_state

type_synonym memory = "nat \<Rightarrow> 8 word"

record 'h mem_state =
  registry :: "reg_entry list"
  live_count :: nat
  free_count :: nat
  region_base :: nat
  region_used :: nat
  region_committed :: nat
  page_size :: nat
  mem :: memory
  hook_state :: 'h

record os_calls =
  os_page_size :: nat
  os_reserve :: nat
  os_commit :: "nat \<Rightarrow> nat \<Rightarrow> nat"

record 'h alloc_hooks =
  reuse_lookup :: "('h \<Rightarrow> nat \<Rightarrow> nat option \<times> 'h) option"
  release_hook :: "('h \<Rightarrow> memory \<Rightarrow> nat \<Rightarrow> nat \<Rightarrow> 'h \<times> memory) option"

definition RT_MEM_ALIGNMENT :: nat where "RT_MEM_ALIGNMENT = 16"
definition RT_MEM_REGION_SIZE :: nat where "RT_MEM_REGION_SIZE = 64 * 1024 * 1024"
definition RT_MEM_REGISTRY_CAPACITY :: nat where "RT_MEM_REGISTRY_CAPACITY = 16384"

definition reg_init :: "memory \<Rightarrow> 'h \<Rightarrow> 'h mem_state" where
  "reg_init m h =
     \<lparr>registry = replicate RT_MEM_REGISTRY_CAPACITY \<lparr>re_addr = 0, re_size = 0, re_state = REG_UNUSED\<rparr>,
      live_count = 0, free_count = 0, region_base = 0, region_used = 0, region_committed = 0,
      page_size = 0, mem = m, hook_state = h\<rparr>"

section \<open>Region and registry\<close>

definition mem_fill :: "nat \<Rightarrow> nat \<Rightarrow> 8 word \<Rightarrow> memory \<Rightarrow> memory" where
  "mem_fill p n v m = (\<lambda>a. if p \<le> a \<and> a < p + n then v else m a)"

definition rt_mem_align_up :: "64 word \<Rightarrow> 64 word \<Rightarrow> 64 word" where
  "rt_mem_align_up v a = (v + (a - 1)) AND NOT (a - 1)"

definition align_up_n :: "nat \<Rightarrow> nat \<Rightarrow> nat" where
  "align_up_n v a = unat (rt_mem_align_up (of_nat v) (of_nat a))"

definition rt_mem_region_ensure :: "os_calls \<Rightarrow> 'h mem_state \<Rightarrow> bool \<times> 'h mem_state" where
  "rt_mem_region_ensure os s =
     (if region_base s \<noteq> 0 then (True, s)
      else let s1 = (if page_size s = 0
                     then s\<lparr>page_size := if os_page_size os \<noteq> 0 then os_page_size os else 4096\<rparr>
                     else s);
               s2 = s1\<lparr>region_base := os_reserve os\<rparr>
           in (region_base s2 \<noteq> 0, s2))"

text \<open>A successful \<open>MEM_COMMIT\<close> makes the new pages readable as zero.\<close>

definition rt_mem_region_commit :: "os_calls \<Rightarrow> nat \<Rightarrow> 'h mem_state \<Rightarrow> bool \<times> 'h mem_state" where
  "rt_mem_region_commit os need s =
     (if need \<le> region_committed s then (True, s)
      else let start = region_committed s; cnt = need - start;
               p = os_commit os (region_base s + start) cnt
           in if p = 0 then (False, s)
           else if p \<noteq> region_base s + start then (False, s)
           else (True, s\<lparr>region_committed := need,
                          mem := mem_fill (region_base s + start) cnt 0 (mem s)\<rparr>))"

definition rt_mem_registry_activate :: "nat \<Rightarrow> nat \<Rightarrow> 'h mem_state \<Rightarrow> bool \<times> 'h mem_state" where
  "rt_mem_registry_activate addr sz s =
     (case first_index (\<lambda>e. re_state e = REG_FREE \<and> re_addr e = addr) (registry s) of
        None \<Rightarrow> (False, s)
      | Some i \<Rightarrow>
          if re_size (registry s ! i) \<noteq> sz then (False, s)
          else (True, s\<lparr>registry := (registry s)[i := (registry s ! i)\<lparr>re_state := REG_LIVE\<rparr>],
                         free_count := free_count s - 1, live_count := live_count s + 1\<rparr>))"

section \<open>Allocation and release\<close>

text \<open>The reuse part of \<open>rt_mem_core_alloc\<close>: the reused block if there is one, and the state the
  lookup leaves.\<close>

definition alloc_reuse :: "'h alloc_hooks \<Rightarrow> nat \<Rightarrow> 'h mem_state \<Rightarrow> nat option \<times> 'h mem_state" where
  "alloc_reuse hooks cnt s =
     (case reuse_lookup hooks of
        None \<Rightarrow> (None, s)
      | Some lookup \<Rightarrow>
          (case lookup (hook_state s) cnt of
             (res, h) \<Rightarrow>
               (let s1 = s\<lparr>hook_state := h\<rparr>
                in case res of
                     None \<Rightarrow> (None, s1)
                   | Some candidate \<Rightarrow>
                       if candidate = 0 then (None, s1)
                       else (case rt_mem_registry_activate candidate cnt s1 of
                               (False, s2) \<Rightarrow> (None, s2)
                             | (True, s2) \<Rightarrow>
                                 (Some candidate, s2\<lparr>mem := mem_fill candidate cnt 0 (mem s2)\<rparr>)))))"

definition alloc_fresh :: "os_calls \<Rightarrow> nat \<Rightarrow> 'h mem_state \<Rightarrow> nat \<times> 'h mem_state" where
  "alloc_fresh os cnt s =
     (case rt_mem_region_ensure os s of
        (False, s1) \<Rightarrow> (0, s1)
      | (True, s1) \<Rightarrow>
          (let aligned = align_up_n (region_used s1) RT_MEM_ALIGNMENT
           in if RT_MEM_REGION_SIZE < aligned + cnt then (0, s1)
           else (case rt_mem_region_commit os (align_up_n (aligned + cnt) (page_size s1)) s1 of
                   (False, s2) \<Rightarrow> (0, s2)
                 | (True, s2) \<Rightarrow>
                     (case first_index (\<lambda>e. re_state e \<noteq> REG_LIVE) (registry s2) of
                        None \<Rightarrow> (0, s2)
                      | Some slot \<Rightarrow>
                          (region_base s2 + aligned,
                           s2\<lparr>free_count := (if re_state (registry s2 ! slot) = REG_FREE
                                             then free_count s2 - 1 else free_count s2),
                              registry := (registry s2)[slot :=
                                \<lparr>re_addr = region_base s2 + aligned, re_size = cnt,
                                 re_state = REG_LIVE\<rparr>],
                              live_count := live_count s2 + 1,
                              region_used := aligned + cnt\<rparr>)))))"

definition rt_mem_core_alloc ::
  "os_calls \<Rightarrow> 'h alloc_hooks \<Rightarrow> nat \<Rightarrow> 'h mem_state \<Rightarrow> nat \<times> 'h mem_state" where
  "rt_mem_core_alloc os hooks cnt s =
     (if cnt = 0 then (0, s)
      else if RT_MEM_REGION_SIZE < cnt then (0, s)
      else (case alloc_reuse hooks cnt s of
              (Some p, s1) \<Rightarrow> (p, s1)
            | (None, s1) \<Rightarrow> alloc_fresh os cnt s1))"

datatype rel_status = REL_OK | REL_DOUBLE | REL_INVALID

definition rt_mem_core_release :: "'h alloc_hooks \<Rightarrow> nat \<Rightarrow> 'h mem_state \<Rightarrow> rel_status \<times> 'h mem_state"
where
  "rt_mem_core_release hooks p s =
     (if p = 0 then (REL_OK, s)
      else (case first_index (\<lambda>e. re_addr e = p \<and> re_state e \<noteq> REG_UNUSED) (registry s) of
              None \<Rightarrow> (REL_INVALID, s)
            | Some i \<Rightarrow>
                if re_state (registry s ! i) = REG_FREE then (REL_DOUBLE, s)
                else let s1 = s\<lparr>registry := (registry s)[i := (registry s ! i)\<lparr>re_state := REG_FREE\<rparr>],
                                live_count := live_count s - 1, free_count := free_count s + 1\<rparr>
                     in case release_hook hooks of
                          None \<Rightarrow> (REL_OK, s1)
                        | Some f \<Rightarrow>
                            (case f (hook_state s1) (mem s1) p (re_size (registry s ! i)) of
                               (h, m) \<Rightarrow> (REL_OK, s1\<lparr>hook_state := h, mem := m\<rparr>))))"

section \<open>The reuse package\<close>

text \<open>The stack of \<open>rt_mem_reuse.c\<close>, most recent release first (the C array has it last).\<close>

type_synonym reuse_stack = "(nat \<times> nat) list"

definition POISON :: "8 word" where "POISON = 0xDD"

definition rt_mem_reuse_on_release ::
  "reuse_stack \<Rightarrow> memory \<Rightarrow> nat \<Rightarrow> nat \<Rightarrow> reuse_stack \<times> memory" where
  "rt_mem_reuse_on_release st m addr sz =
     ((if length st < RT_MEM_REGISTRY_CAPACITY then (addr, sz) # st else st),
      mem_fill addr sz POISON m)"

fun rt_mem_reuse_lookup :: "reuse_stack \<Rightarrow> nat \<Rightarrow> nat option \<times> reuse_stack" where
  "rt_mem_reuse_lookup [] sz = (None, [])"
| "rt_mem_reuse_lookup ((a, n) # st) sz =
     (if n = sz then (Some a, st)
      else (case rt_mem_reuse_lookup st sz of (r, st') \<Rightarrow> (r, (a, n) # st')))"

definition reuse_hooks :: "reuse_stack alloc_hooks" where
  "reuse_hooks = \<lparr>reuse_lookup = Some rt_mem_reuse_lookup, release_hook = Some rt_mem_reuse_on_release\<rparr>"

definition no_hooks :: "unit alloc_hooks" where
  "no_hooks = \<lparr>reuse_lookup = None, release_hook = None\<rparr>"

section \<open>The public interface\<close>

text \<open>\<open>rt_mem_dealloc_bytes\<close> delivers a status other than OK to the registered handler; the result
  says what is delivered.\<close>

definition rt_mem_dealloc_bytes ::
  "'h alloc_hooks \<Rightarrow> bool \<Rightarrow> nat \<Rightarrow> 'h mem_state \<Rightarrow> (rel_status \<times> nat) option \<times> 'h mem_state" where
  "rt_mem_dealloc_bytes hooks handler p s =
     (case rt_mem_core_release hooks p s of
        (status, s') \<Rightarrow> (if status \<noteq> REL_OK \<and> handler then Some (status, p) else None, s'))"

text \<open>\<open>memmove\<close>: as if through a temporary buffer.\<close>

definition rt_mem_copy :: "nat \<Rightarrow> nat \<Rightarrow> nat \<Rightarrow> memory \<Rightarrow> memory" where
  "rt_mem_copy dst src cnt m =
     (if cnt = 0 then m else (\<lambda>a. if dst \<le> a \<and> a < dst + cnt then m (src + (a - dst)) else m a))"

definition rt_mem_fill :: "nat \<Rightarrow> 8 word \<Rightarrow> nat \<Rightarrow> memory \<Rightarrow> memory" where
  "rt_mem_fill dst value cnt m = (if cnt = 0 then m else mem_fill dst cnt value m)"

section \<open>Alignment\<close>

lemma and_not_mask: "x AND NOT (mask k) = x - take_bit k (x :: 64 word)"
proof -
  have "x AND NOT (mask k) = push_bit k (drop_bit k x)"
    by (rule bit_eqI) (auto simp: bit_simps dest: bit_imp_le_length)
  then show ?thesis using bits_ident [of k x] by (simp add: algebra_simps)
qed

lemma align_up_n_eq:
  assumes "k < 64" and "v + 2 ^ k \<le> 2 ^ 64"
  shows "align_up_n v (2 ^ k) = (v + (2 ^ k - 1)) - (v + (2 ^ k - 1)) mod 2 ^ k"
proof -
  let ?x = "of_nat v + (2 ^ k - 1) :: 64 word"
  have m: "(2 ^ k - 1 :: 64 word) = mask k" by (simp add: mask_eq_exp_minus_1)
  have "(of_nat (2 ^ k - 1) :: 64 word) = of_nat (2 ^ k) - of_nat 1" by (rule of_nat_diff) simp
  then have "?x = of_nat (v + (2 ^ k - 1))" by (simp only: of_nat_add) simp
  moreover have "v + (2 ^ k - 1) < 2 ^ 64"
  proof -
    have "0 < (2 ^ k :: nat)" by simp
    with assms(2) show ?thesis by linarith
  qed
  ultimately have u: "unat ?x = v + (2 ^ k - 1)" by (simp only: unat_of_nat) simp
  have "rt_mem_align_up (of_nat v) (of_nat (2 ^ k)) = ?x - take_bit k ?x"
    unfolding rt_mem_align_up_def of_nat_power of_nat_numeral m
    by (rule and_not_mask)
  moreover have "unat (?x - take_bit k ?x) = unat ?x - unat ?x mod 2 ^ k"
  proof -
    have t: "unat (take_bit k ?x) = unat ?x mod 2 ^ k"
      by (subst unsigned_take_bit_eq) (rule take_bit_eq_mod)
    then have "take_bit k ?x \<le> ?x" by (simp add: word_le_nat_alt)
    then show ?thesis using t by (simp add: unat_sub)
  qed
  ultimately show ?thesis unfolding align_up_n_def u by simp
qed

lemma align_up_n:
  assumes "k < 64" and "v + 2 ^ k \<le> 2 ^ 64"
  shows "v \<le> align_up_n v (2 ^ k)" and "align_up_n v (2 ^ k) < v + 2 ^ k"
    and "align_up_n v (2 ^ k) mod 2 ^ k = 0"
proof -
  let ?y = "v + (2 ^ k - 1)"
  have m: "?y mod 2 ^ k < 2 ^ k" "?y mod 2 ^ k \<le> ?y" by simp_all
  have eq: "align_up_n v (2 ^ k) = ?y - ?y mod 2 ^ k" by (rule align_up_n_eq [OF assms])
  show "v \<le> align_up_n v (2 ^ k)" unfolding eq using m by linarith
  have "0 < (2 ^ k :: nat)" by simp
  then show "align_up_n v (2 ^ k) < v + 2 ^ k" unfolding eq by linarith
  show "align_up_n v (2 ^ k) mod 2 ^ k = 0"
    unfolding eq by (metis minus_mod_eq_mult_div mod_mult_self1_is_0)
qed

section \<open>The invariant\<close>

definition entry_ok :: "'h mem_state \<Rightarrow> reg_entry \<Rightarrow> bool" where
  "entry_ok s e \<longleftrightarrow>
     (if re_state e = REG_UNUSED then re_addr e = 0
      else region_base s \<noteq> 0 \<and> region_base s \<le> re_addr e \<and> 0 < re_size e \<and>
           re_addr e + re_size e \<le> region_base s + region_used s \<and> re_addr e mod 16 = 0)"

definition apart :: "reg_entry \<Rightarrow> reg_entry \<Rightarrow> bool" where
  "apart e f \<longleftrightarrow> re_addr e + re_size e \<le> re_addr f \<or> re_addr f + re_size f \<le> re_addr e"

definition registry_inv :: "'h mem_state \<Rightarrow> bool" where
  "registry_inv s \<longleftrightarrow> length (registry s) = RT_MEM_REGISTRY_CAPACITY \<and>
     (\<forall>i < length (registry s). entry_ok s (registry s ! i)) \<and>
     (\<forall>i < length (registry s). \<forall>j < length (registry s). i \<noteq> j \<longrightarrow>
        re_state (registry s ! i) \<noteq> REG_UNUSED \<longrightarrow> re_state (registry s ! j) \<noteq> REG_UNUSED \<longrightarrow>
        apart (registry s ! i) (registry s ! j)) \<and>
     live_count s = length (filter (\<lambda>e. re_state e = REG_LIVE) (registry s)) \<and>
     free_count s = length (filter (\<lambda>e. re_state e = REG_FREE) (registry s))"

definition page_ok :: "nat \<Rightarrow> bool" where
  "page_ok n \<longleftrightarrow> (\<exists>k < 32. n = 2 ^ k)"

definition region_inv :: "'h mem_state \<Rightarrow> bool" where
  "region_inv s \<longleftrightarrow>
     (page_size s \<noteq> 0 \<longrightarrow> page_ok (page_size s)) \<and>
     (region_base s = 0 \<longrightarrow> region_used s = 0 \<and> region_committed s = 0) \<and>
     (region_base s \<noteq> 0 \<longrightarrow> page_size s \<noteq> 0 \<and> region_base s mod 16 = 0 \<and>
        region_base s + RT_MEM_REGION_SIZE \<le> 2 ^ 64) \<and>
     region_used s \<le> region_committed s \<and> region_used s \<le> RT_MEM_REGION_SIZE"

definition fresh_zero :: "'h mem_state \<Rightarrow> bool" where
  "fresh_zero s \<longleftrightarrow>
     (\<forall>a. region_base s + region_used s \<le> a \<longrightarrow> a < region_base s + region_committed s \<longrightarrow> mem s a = 0)"

definition mem_inv :: "'h mem_state \<Rightarrow> bool" where
  "mem_inv s \<longleftrightarrow> registry_inv s \<and> region_inv s \<and> fresh_zero s"

text \<open>The documented behaviour of the Windows calls: page sizes are powers of two (a \<open>DWORD\<close>), a
  reservation is aligned to the allocation granularity and lies within the address space.\<close>

definition os_ok :: "os_calls \<Rightarrow> bool" where
  "os_ok os \<longleftrightarrow> (os_page_size os = 0 \<or> page_ok (os_page_size os)) \<and>
     (os_reserve os = 0 \<or>
      os_reserve os mod 65536 = 0 \<and> os_reserve os + RT_MEM_REGION_SIZE \<le> 2 ^ 64)"

text \<open>The abstract view: the live blocks, as a set of addresses with sizes.\<close>

definition live_blocks :: "'h mem_state \<Rightarrow> (nat \<times> nat) set" where
  "live_blocks s = {(re_addr e, re_size e) | e. e \<in> set (registry s) \<and> re_state e = REG_LIVE}"

definition in_blocks :: "(nat \<times> nat) set \<Rightarrow> nat \<Rightarrow> bool" where
  "in_blocks B a \<longleftrightarrow> (\<exists>(p, n) \<in> B. p \<le> a \<and> a < p + n)"

text \<open>The contract of the hooks: the release hook writes only to the released block. Nothing is
  asked of the lookup, whose answers the core checks.\<close>

locale hooks_contract =
  fixes hooks :: "'h alloc_hooks"
  assumes release_frame:
    "release_hook hooks = Some f \<Longrightarrow> f h m p n = (h', m') \<Longrightarrow> a < p \<or> p + n \<le> a \<Longrightarrow> m' a = m a"

interpretation no_hooks: hooks_contract no_hooks
  by unfold_locales (simp add: no_hooks_def)

interpretation reuse_hooks: hooks_contract reuse_hooks
  by unfold_locales (auto simp: reuse_hooks_def rt_mem_reuse_on_release_def mem_fill_def)

lemma region_size: "RT_MEM_REGION_SIZE = 67108864"
  by (simp add: RT_MEM_REGION_SIZE_def)

lemma page_4096: "page_ok 4096"
  unfolding page_ok_def by (rule exI [of _ 12]) simp

lemma page_pos: "page_ok n \<Longrightarrow> 0 < n"
  by (auto simp: page_ok_def)

lemma align_16:
  assumes "v \<le> RT_MEM_REGION_SIZE"
  shows "v \<le> align_up_n v RT_MEM_ALIGNMENT" "align_up_n v RT_MEM_ALIGNMENT < v + 16"
    "align_up_n v RT_MEM_ALIGNMENT mod 16 = 0"
  using align_up_n [of 4 v] assms by (simp_all add: RT_MEM_ALIGNMENT_def region_size)

lemma align_page: "page_ok p \<Longrightarrow> v \<le> RT_MEM_REGION_SIZE \<Longrightarrow> v \<le> align_up_n v p"
proof -
  assume "page_ok p" and v: "v \<le> RT_MEM_REGION_SIZE"
  then obtain k where k: "k < 32" "p = 2 ^ k" by (auto simp: page_ok_def)
  have "(2::nat) ^ k \<le> 2 ^ 32" using k by (intro power_increasing) auto
  with v have "v + 2 ^ k \<le> 2 ^ 64" by (simp add: region_size)
  with align_up_n(1) [of k v] k show ?thesis by simp
qed

lemma mem_inv_init: "mem_inv (reg_init m h)"
  by (simp add: mem_inv_def registry_inv_def region_inv_def fresh_zero_def reg_init_def entry_ok_def)

section \<open>Registry updates\<close>

lemma registry_invD:
  assumes "registry_inv s"
  shows "length (registry s) = RT_MEM_REGISTRY_CAPACITY"
    and "\<And>i. i < length (registry s) \<Longrightarrow> entry_ok s (registry s ! i)"
    and "\<And>i j. i < length (registry s) \<Longrightarrow> j < length (registry s) \<Longrightarrow> i \<noteq> j \<Longrightarrow>
        re_state (registry s ! i) \<noteq> REG_UNUSED \<Longrightarrow> re_state (registry s ! j) \<noteq> REG_UNUSED \<Longrightarrow>
        apart (registry s ! i) (registry s ! j)"
    and "live_count s = length (filter (\<lambda>e. re_state e = REG_LIVE) (registry s))"
    and "free_count s = length (filter (\<lambda>e. re_state e = REG_FREE) (registry s))"
  using assms unfolding registry_inv_def by blast+

lemma registry_invI:
  assumes "length (registry s) = RT_MEM_REGISTRY_CAPACITY"
    and "\<And>i. i < length (registry s) \<Longrightarrow> entry_ok s (registry s ! i)"
    and "\<And>i j. i < length (registry s) \<Longrightarrow> j < length (registry s) \<Longrightarrow> i \<noteq> j \<Longrightarrow>
        re_state (registry s ! i) \<noteq> REG_UNUSED \<Longrightarrow> re_state (registry s ! j) \<noteq> REG_UNUSED \<Longrightarrow>
        apart (registry s ! i) (registry s ! j)"
    and "live_count s = length (filter (\<lambda>e. re_state e = REG_LIVE) (registry s))"
    and "free_count s = length (filter (\<lambda>e. re_state e = REG_FREE) (registry s))"
  shows "registry_inv s"
  using assms unfolding registry_inv_def by blast

lemma apart_sym: "apart e f = apart f e"
  by (auto simp: apart_def)

lemma registry_inv_update:
  assumes inv: "registry_inv s" and i: "i < length (registry s)"
    and reg: "registry s' = (registry s)[i := e]"
    and old: "\<And>e'. entry_ok s e' \<Longrightarrow> entry_ok s' e'"
    and new: "entry_ok s' e"
    and ap: "\<And>j. j < length (registry s) \<Longrightarrow> j \<noteq> i \<Longrightarrow> re_state (registry s ! j) \<noteq> REG_UNUSED \<Longrightarrow>
               apart e (registry s ! j)"
    and live: "live_count s' + (if re_state (registry s ! i) = REG_LIVE then 1 else 0)
               = live_count s + (if re_state e = REG_LIVE then 1 else 0)"
    and free: "free_count s' + (if re_state (registry s ! i) = REG_FREE then 1 else 0)
               = free_count s + (if re_state e = REG_FREE then 1 else 0)"
  shows "registry_inv s'"
proof (rule registry_invI)
  note r = registry_invD [OF inv]
  show "length (registry s') = RT_MEM_REGISTRY_CAPACITY" by (simp add: reg r(1))
  show "entry_ok s' (registry s' ! j)" if "j < length (registry s')" for j
    using that r(2) old new i by (cases "j = i") (simp_all add: reg)
  show "apart (registry s' ! j) (registry s' ! k)"
    if h: "j < length (registry s')" "k < length (registry s')" "j \<noteq> k"
      "re_state (registry s' ! j) \<noteq> REG_UNUSED" "re_state (registry s' ! k) \<noteq> REG_UNUSED" for j k
  proof -
    consider "j = i" "k \<noteq> i" | "k = i" "j \<noteq> i" | "j \<noteq> i" "k \<noteq> i" using h(3) by blast
    then show ?thesis
    proof cases
      case 1
      with h ap [of k] i show ?thesis by (simp add: reg)
    next
      case 2
      with h ap [of j] i show ?thesis by (simp add: reg apart_sym [of _ e])
    next
      case 3
      with h r(3) i show ?thesis by (simp add: reg)
    qed
  qed
  show "live_count s' = length (filter (\<lambda>e. re_state e = REG_LIVE) (registry s'))"
    using length_filter_update [OF i, of "\<lambda>e. re_state e = REG_LIVE" e] live r(4) unfolding reg
    by (simp split: if_splits)
  show "free_count s' = length (filter (\<lambda>e. re_state e = REG_FREE) (registry s'))"
    using length_filter_update [OF i, of "\<lambda>e. re_state e = REG_FREE" e] free r(5) unfolding reg
    by (simp split: if_splits)
qed

lemma live_blocks_iff:
  "(p, n) \<in> live_blocks s \<longleftrightarrow> (\<exists>i < length (registry s). re_state (registry s ! i) = REG_LIVE \<and>
     re_addr (registry s ! i) = p \<and> re_size (registry s ! i) = n)"
  unfolding live_blocks_def by (auto simp: in_set_conv_nth)

lemma live_blocks_cong: "registry s' = registry s \<Longrightarrow> live_blocks s' = live_blocks s"
  by (simp add: live_blocks_def)

lemma live_blocks_add:
  assumes i: "i < length (registry s)" and "registry s' = (registry s)[i := e]"
    and old: "re_state (registry s ! i) \<noteq> REG_LIVE" and new: "re_state e = REG_LIVE"
  shows "live_blocks s' = insert (re_addr e, re_size e) (live_blocks s)"
proof (intro set_eqI iffI)
  fix x :: "nat \<times> nat"
  obtain p n where x: "x = (p, n)" by (cases x)
  show "x \<in> insert (re_addr e, re_size e) (live_blocks s)" if "x \<in> live_blocks s'"
  proof -
    from that x obtain j where j: "j < length (registry s)" "re_state ((registry s)[i := e] ! j) = REG_LIVE"
      "re_addr ((registry s)[i := e] ! j) = p" "re_size ((registry s)[i := e] ! j) = n"
      by (auto simp: live_blocks_iff assms(2))
    show ?thesis
    proof (cases "j = i")
      case False
      with j show ?thesis unfolding x by (auto simp: live_blocks_iff)
    qed (insert j i, simp add: x)
  qed
  show "x \<in> live_blocks s'" if "x \<in> insert (re_addr e, re_size e) (live_blocks s)"
  proof (cases "x = (re_addr e, re_size e)")
    case True
    with i new show ?thesis unfolding x live_blocks_iff assms(2) by (auto intro!: exI [of _ i])
  next
    case False
    with that x obtain j where "j < length (registry s)" "re_state (registry s ! j) = REG_LIVE"
      "re_addr (registry s ! j) = p" "re_size (registry s ! j) = n"
      by (auto simp: live_blocks_iff)
    moreover from this old have "j \<noteq> i" by auto
    ultimately show ?thesis unfolding x live_blocks_iff assms(2) by (auto intro!: exI [of _ j])
  qed
qed

lemma live_blocks_remove:
  assumes inv: "registry_inv s" and i: "i < length (registry s)" and reg: "registry s' = (registry s)[i := e]"
    and old: "re_state (registry s ! i) = REG_LIVE" and new: "re_state e \<noteq> REG_LIVE"
  shows "live_blocks s' = live_blocks s - {(re_addr (registry s ! i), re_size (registry s ! i))}"
proof (intro set_eqI iffI)
  note r = registry_invD [OF inv]
  fix x :: "nat \<times> nat"
  obtain p n where x: "x = (p, n)" by (cases x)
  show "x \<in> live_blocks s - {(re_addr (registry s ! i), re_size (registry s ! i))}" if "x \<in> live_blocks s'"
  proof -
    from that x obtain j where j: "j < length (registry s)" "re_state ((registry s)[i := e] ! j) = REG_LIVE"
      "re_addr ((registry s)[i := e] ! j) = p" "re_size ((registry s)[i := e] ! j) = n"
      by (auto simp: live_blocks_iff reg)
    with new i have ji: "j \<noteq> i" by auto
    with j have j': "re_state (registry s ! j) = REG_LIVE" "re_addr (registry s ! j) = p"
      "re_size (registry s ! j) = n" by auto
    have "apart (registry s ! j) (registry s ! i)" using r(3) [OF j(1) i ji] j' old by simp
    moreover have "0 < n" using r(2) [OF j(1)] j' by (simp add: entry_ok_def)
    ultimately show ?thesis using j(1) j' unfolding x by (auto simp: live_blocks_iff apart_def)
  qed
  show "x \<in> live_blocks s'"
    if "x \<in> live_blocks s - {(re_addr (registry s ! i), re_size (registry s ! i))}"
  proof -
    from that x obtain j where j: "j < length (registry s)" "re_state (registry s ! j) = REG_LIVE"
      "re_addr (registry s ! j) = p" "re_size (registry s ! j) = n" "j \<noteq> i"
      by (auto simp: live_blocks_iff)
    then show ?thesis unfolding x live_blocks_iff reg by (auto intro!: exI [of _ j])
  qed
qed

section \<open>What the operations do\<close>

lemma registry_inv_cong:
  assumes inv: "registry_inv s" and "registry s' = registry s" "live_count s' = live_count s"
    "free_count s' = free_count s" and old: "\<And>e. e \<in> set (registry s) \<Longrightarrow> entry_ok s e \<Longrightarrow> entry_ok s' e"
  shows "registry_inv s'"
proof (rule registry_invI)
  note r = registry_invD [OF inv]
  show "entry_ok s' (registry s' ! i)" if "i < length (registry s')" for i
    using that r(2) old by (simp add: assms(2))
qed (insert registry_invD [OF inv] assms, simp_all)

lemma unused_when_no_base:
  "registry_inv s \<Longrightarrow> region_base s = 0 \<Longrightarrow> e \<in> set (registry s) \<Longrightarrow> re_state e = REG_UNUSED"
proof -
  assume inv: "registry_inv s" and b: "region_base s = 0" and "e \<in> set (registry s)"
  then obtain i where "i < length (registry s)" "e = registry s ! i" by (auto simp: in_set_conv_nth)
  with registry_invD(2) [OF inv] have "entry_ok s e" by simp
  with b show ?thesis by (simp add: entry_ok_def split: if_splits)
qed

text \<open>What a step of the region code may change: neither the registry nor any byte below the bump.\<close>

definition region_step :: "'h mem_state \<Rightarrow> 'h mem_state \<Rightarrow> bool" where
  "region_step s s' \<longleftrightarrow> mem_inv s' \<and> registry s' = registry s \<and> live_count s' = live_count s \<and>
     free_count s' = free_count s \<and> region_used s' = region_used s \<and> hook_state s' = hook_state s \<and>
     (\<forall>a. a < region_base s + region_used s \<longrightarrow> region_base s \<noteq> 0 \<longrightarrow> mem s' a = mem s a) \<and>
     (region_base s \<noteq> 0 \<longrightarrow> region_base s' = region_base s)"

lemma region_ensure_step:
  assumes inv: "mem_inv s" and os: "os_ok os" and e: "rt_mem_region_ensure os s = (ok, s')"
  shows "region_step s s' \<and> (ok \<longleftrightarrow> region_base s' \<noteq> 0)"
proof (cases "region_base s = 0")
  case False
  with e inv show ?thesis by (auto simp: rt_mem_region_ensure_def region_step_def)
next
  case True
  from inv have ri: "registry_inv s" and rg: "region_inv s" by (auto simp: mem_inv_def)
  let ?page = "if page_size s = 0 then if os_page_size os \<noteq> 0 then os_page_size os else 4096 else page_size s"
  have s': "s' = s\<lparr>page_size := ?page, region_base := os_reserve os\<rparr>" and ok: "ok = (os_reserve os \<noteq> 0)"
    using e True by (auto simp: rt_mem_region_ensure_def Let_def)
  have pg: "page_ok ?page" using os rg page_4096 by (auto simp: os_ok_def region_inv_def)
  have "registry_inv s'"
    by (rule registry_inv_cong [OF ri])
      (simp_all add: s' entry_ok_def unused_when_no_base [OF ri True])
  moreover have "region_inv s'"
    using rg True pg os page_pos [OF pg] unfolding region_inv_def os_ok_def s'
    by (auto simp del: power_numeral)
  moreover have "fresh_zero s'" using rg True by (simp add: fresh_zero_def s' region_inv_def)
  ultimately show ?thesis by (simp add: region_step_def mem_inv_def s' ok True)
qed

lemma region_commit_step:
  assumes inv: "mem_inv s" and b: "region_base s \<noteq> 0" and e: "rt_mem_region_commit os need s = (ok, s')"
  shows "region_step s s' \<and> (ok \<longrightarrow> need \<le> region_committed s')"
proof (cases "need \<le> region_committed s \<or> \<not> ok")
  case True
  with e inv show ?thesis
    by (auto simp: rt_mem_region_commit_def region_step_def Let_def split: if_splits)
next
  case False
  with e have n: "region_committed s < need" and s': "s' = s\<lparr>region_committed := need,
      mem := mem_fill (region_base s + region_committed s) (need - region_committed s) 0 (mem s)\<rparr>"
    by (auto simp: rt_mem_region_commit_def Let_def split: if_splits)
  from inv have ri: "registry_inv s" and rg: "region_inv s" and fz: "fresh_zero s" by (auto simp: mem_inv_def)
  have "registry_inv s'" by (rule registry_inv_cong [OF ri]) (simp_all add: s' entry_ok_def)
  moreover have "region_inv s'" using rg b n by (simp add: region_inv_def s')
  moreover have "fresh_zero s'" using fz n by (auto simp: fresh_zero_def s' mem_fill_def)
  ultimately show ?thesis
    using rg by (auto simp: region_step_def mem_inv_def s' mem_fill_def region_inv_def)
qed

text \<open>The contract of an allocation.\<close>

definition alloc_spec :: "nat \<Rightarrow> 'h mem_state \<Rightarrow> nat \<Rightarrow> 'h mem_state \<Rightarrow> bool" where
  "alloc_spec n s p s' \<longleftrightarrow>
     (if p = 0 then live_blocks s' = live_blocks s
      else live_blocks s' = insert (p, n) (live_blocks s) \<and>
        (\<forall>(q, m) \<in> live_blocks s. p + n \<le> q \<or> q + m \<le> p) \<and>
        p mod RT_MEM_ALIGNMENT = 0 \<and>
        region_base s' \<le> p \<and> p + n \<le> region_base s' + RT_MEM_REGION_SIZE \<and>
        (\<forall>a. p \<le> a \<and> a < p + n \<longrightarrow> mem s' a = 0)) \<and>
     (\<forall>a. in_blocks (live_blocks s) a \<longrightarrow> mem s' a = mem s a)"

lemma live_entry_bounds:
  assumes inv: "mem_inv s" and "(q, m) \<in> live_blocks s"
  shows "region_base s \<noteq> 0 \<and> region_base s \<le> q \<and> 0 < m \<and> q + m \<le> region_base s + region_used s"
  using assms(2) registry_invD(2) [of s] inv
  by (fastforce simp: live_blocks_iff mem_inv_def entry_ok_def)

lemma in_blocks_bound:
  "mem_inv s \<Longrightarrow> in_blocks (live_blocks s) a \<Longrightarrow> a < region_base s + region_used s \<and> region_base s \<noteq> 0"
  by (auto simp: in_blocks_def dest!: live_entry_bounds)

lemma region_step_live: "region_step s s' \<Longrightarrow> live_blocks s' = live_blocks s"
  by (simp add: region_step_def live_blocks_def)

lemma region_step_mem:
  "mem_inv s \<Longrightarrow> region_step s s' \<Longrightarrow> in_blocks (live_blocks s) a \<Longrightarrow> mem s' a = mem s a"
  using in_blocks_bound by (auto simp: region_step_def)

lemma region_step_fail:
  "mem_inv s \<Longrightarrow> region_step s s' \<Longrightarrow> mem_inv s' \<and> alloc_spec n s 0 s'"
  by (simp add: alloc_spec_def region_step_live region_step_mem) (simp add: region_step_def)

lemma region_step_trans:
  "mem_inv s \<Longrightarrow> region_step s s1 \<Longrightarrow> region_step s1 s2 \<Longrightarrow> region_step s s2"
  unfolding region_step_def by auto

text \<open>The last part of a fresh allocation: a slot is filled and the bump moves.\<close>

lemma fresh_block_step:
  assumes inv: "mem_inv s" and b: "region_base s \<noteq> 0"
    and al: "region_used s \<le> aligned" "aligned mod 16 = 0" "aligned + n \<le> region_committed s"
      "aligned + n \<le> RT_MEM_REGION_SIZE" and n: "0 < n"
    and slot: "slot < length (registry s)" "re_state (registry s ! slot) \<noteq> REG_LIVE"
    and s': "s' = s\<lparr>free_count := (if re_state (registry s ! slot) = REG_FREE
                                  then free_count s - 1 else free_count s),
                    registry := (registry s)[slot :=
                      \<lparr>re_addr = region_base s + aligned, re_size = n, re_state = REG_LIVE\<rparr>],
                    live_count := live_count s + 1, region_used := aligned + n\<rparr>"
  shows "mem_inv s' \<and> alloc_spec n s (region_base s + aligned) s'"
proof -
  from inv have ri: "registry_inv s" and rg: "region_inv s" and fz: "fresh_zero s" by (auto simp: mem_inv_def)
  note r = registry_invD [OF ri]
  let ?e = "\<lparr>re_addr = region_base s + aligned, re_size = n, re_state = REG_LIVE\<rparr>"
  have base16: "region_base s mod 16 = 0" using rg b by (simp add: region_inv_def)
  have al16: "(region_base s + aligned) mod 16 = 0" using base16 al(2) by presburger
  have e: "entry_ok s' ?e" using b n al16 by (simp add: entry_ok_def s')
  have fc: "0 < free_count s" if "re_state (registry s ! slot) = REG_FREE"
    using that slot(1) r(5) by (auto simp: filter_empty_conv)
  have "registry_inv s'"
  proof (rule registry_inv_update [OF ri slot(1) _ _ e])
    show "registry s' = (registry s)[slot := ?e]" by (simp add: s')
    show "entry_ok s' e'" if "entry_ok s e'" for e'
      using that al(1) by (auto simp: entry_ok_def s' split: if_splits)
    show "apart ?e (registry s ! j)" if "j < length (registry s)" "re_state (registry s ! j) \<noteq> REG_UNUSED" for j
      using r(2) [OF that(1)] that(2) al(1) by (auto simp: entry_ok_def apart_def)
  qed (insert slot fc, auto simp: s')
  moreover have "region_inv s'" using rg b al by (simp add: region_inv_def s')
  moreover have "fresh_zero s'" using fz al by (auto simp: fresh_zero_def s')
  moreover have "alloc_spec n s (region_base s + aligned) s'"
  proof -
    have live: "live_blocks s' = insert (region_base s + aligned, n) (live_blocks s)"
      using live_blocks_add [OF slot(1) _ slot(2), of s' ?e] by (simp add: s')
    have "region_base s + aligned + n \<le> q \<or> q + m \<le> region_base s + aligned"
      if "(q, m) \<in> live_blocks s" for q m
      using live_entry_bounds [OF inv that] al(1) by linarith
    moreover have "mem s' a = 0" if "region_base s + aligned \<le> a" "a < region_base s + aligned + n" for a
      using fz that al by (simp add: fresh_zero_def s')
    ultimately show ?thesis using b al al16 live
      by (auto simp: alloc_spec_def RT_MEM_ALIGNMENT_def s')
  qed
  ultimately show ?thesis by (simp add: mem_inv_def)
qed

lemma alloc_spec_step:
  assumes "mem_inv s" and "region_step s s1" and "alloc_spec n s1 p s'"
  shows "alloc_spec n s p s'"
  using assms(3) region_step_live [OF assms(2)] region_step_mem [OF assms(1,2)]
  unfolding alloc_spec_def by simp

lemma alloc_fresh_spec:
  assumes inv: "mem_inv s" and os: "os_ok os" and n: "0 < n" and e: "alloc_fresh os n s = (p, s')"
  shows "mem_inv s' \<and> alloc_spec n s p s'"
proof -
  obtain ok1 s1 where e1: "rt_mem_region_ensure os s = (ok1, s1)"
    by (cases "rt_mem_region_ensure os s")
  from region_ensure_step [OF inv os e1] have st1: "region_step s s1"
    and ok1: "ok1 \<longleftrightarrow> region_base s1 \<noteq> 0" by auto
  from st1 have inv1: "mem_inv s1" by (simp add: region_step_def)
  let ?al = "align_up_n (region_used s1) RT_MEM_ALIGNMENT"
  show ?thesis
  proof (cases "ok1 \<and> ?al + n \<le> RT_MEM_REGION_SIZE")
    case False
    then have "p = 0 \<and> s' = s1"
      using e e1 by (cases ok1) (auto simp: alloc_fresh_def Let_def)
    then show ?thesis using region_step_fail [OF inv st1] by simp
  next
    case True
    from True ok1 have b1: "region_base s1 \<noteq> 0" by simp
    from inv1 have rg1: "region_inv s1" by (simp add: mem_inv_def)
    then have u: "region_used s1 \<le> RT_MEM_REGION_SIZE" by (simp add: region_inv_def)
    obtain ok2 s2 where e2: "rt_mem_region_commit os (align_up_n (?al + n) (page_size s1)) s1 = (ok2, s2)"
      by (cases "rt_mem_region_commit os (align_up_n (?al + n) (page_size s1)) s1")
    from region_commit_step [OF inv1 b1 e2] have st2: "region_step s1 s2"
      and ok2: "ok2 \<longrightarrow> align_up_n (?al + n) (page_size s1) \<le> region_committed s2" by auto
    have st: "region_step s s2" by (rule region_step_trans [OF inv st1 st2])
    from st2 b1 have s2: "region_used s2 = region_used s1" "region_base s2 = region_base s1" "mem_inv s2"
      by (auto simp: region_step_def)
    show ?thesis
    proof (cases "ok2 \<and> first_index (\<lambda>e. re_state e \<noteq> REG_LIVE) (registry s2) \<noteq> None")
      case False
      then have "p = 0 \<and> s' = s2"
        using e e1 e2 True by (cases ok2) (auto simp: alloc_fresh_def Let_def)
      then show ?thesis using region_step_fail [OF inv st] by simp
    next
      case ok: True
      then obtain slot where slot: "first_index (\<lambda>e. re_state e \<noteq> REG_LIVE) (registry s2) = Some slot" by auto
      have "page_ok (page_size s1)" using rg1 b1 by (simp add: region_inv_def)
      from align_page [OF this, of "?al + n"] True ok2 ok have c: "?al + n \<le> region_committed s2" by simp
      have p: "p = region_base s2 + ?al"
        and s': "s' = s2\<lparr>free_count := (if re_state (registry s2 ! slot) = REG_FREE
                                  then free_count s2 - 1 else free_count s2),
                    registry := (registry s2)[slot :=
                      \<lparr>re_addr = region_base s2 + ?al, re_size = n, re_state = REG_LIVE\<rparr>],
                    live_count := live_count s2 + 1, region_used := ?al + n\<rparr>"
        using e e1 e2 True ok slot by (auto simp: alloc_fresh_def Let_def)
      have "mem_inv s' \<and> alloc_spec n s2 p s'"
        unfolding p
      proof (rule fresh_block_step [OF s2(3) _ _ _ c _ n _ _ s'])
        show "slot < length (registry s2)" "re_state (registry s2 ! slot) \<noteq> REG_LIVE"
          using first_index_SomeD [OF slot] by auto
      qed (insert b1 s2 True align_16 [OF u], simp_all)
      with alloc_spec_step [OF inv st] show ?thesis by blast
    qed
  qed
qed

text \<open>Activation turns the FREE entry of the address and exact size live, or changes nothing.\<close>

lemma activate_spec:
  assumes inv: "mem_inv s" and e: "rt_mem_registry_activate p n s = (ok, s')"
  shows "if ok then \<exists>i. i < length (registry s) \<and> re_state (registry s ! i) = REG_FREE \<and>
             re_addr (registry s ! i) = p \<and> re_size (registry s ! i) = n \<and>
             s' = s\<lparr>registry := (registry s)[i := (registry s ! i)\<lparr>re_state := REG_LIVE\<rparr>],
                    free_count := free_count s - 1, live_count := live_count s + 1\<rparr>
         else s' = s"
  using e by (auto simp: rt_mem_registry_activate_def split: option.splits if_splits
      dest!: first_index_SomeD)

lemma reused_block_step:
  assumes inv: "mem_inv s" and i: "i < length (registry s)" "re_state (registry s ! i) = REG_FREE"
      "re_addr (registry s ! i) = p" "re_size (registry s ! i) = n"
    and s': "s' = s\<lparr>registry := (registry s)[i := (registry s ! i)\<lparr>re_state := REG_LIVE\<rparr>],
                    free_count := free_count s - 1, live_count := live_count s + 1,
                    mem := mem_fill p n 0 (mem s)\<rparr>"
  shows "mem_inv s' \<and> alloc_spec n s p s' \<and> p \<noteq> 0"
proof -
  from inv have ri: "registry_inv s" and rg: "region_inv s" and fz: "fresh_zero s" by (auto simp: mem_inv_def)
  note r = registry_invD [OF ri]
  let ?e = "(registry s ! i)\<lparr>re_state := REG_LIVE\<rparr>"
  from r(2) [OF i(1)] i have eo: "region_base s \<noteq> 0" "region_base s \<le> p" "0 < n"
    "p + n \<le> region_base s + region_used s" "p mod 16 = 0"
    by (auto simp: entry_ok_def)
  have fc: "0 < free_count s"
    using i(1,2) r(5) by (auto simp: filter_empty_conv)
  have ap: "apart ?e (registry s ! j)"
    if "j < length (registry s)" "j \<noteq> i" "re_state (registry s ! j) \<noteq> REG_UNUSED" for j
    using r(3) [OF i(1) that(1)] that i by (auto simp: apart_def)
  have "registry_inv s'"
    by (rule registry_inv_update [OF ri i(1), where e = ?e])
      (insert r(2) [OF i(1)] i fc ap, auto simp: s' entry_ok_def)
  moreover have "region_inv s'" using rg by (simp add: region_inv_def s')
  moreover have "fresh_zero s'" using fz eo by (auto simp: fresh_zero_def s' mem_fill_def)
  moreover have "alloc_spec n s p s'"
  proof -
    have live: "live_blocks s' = insert (p, n) (live_blocks s)"
      using live_blocks_add [OF i(1), of s' ?e] i by (simp add: s')
    have dis: "p + n \<le> q \<or> q + m \<le> p" if "(q, m) \<in> live_blocks s" for q m
    proof -
      from that obtain j where j: "j < length (registry s)" "re_state (registry s ! j) = REG_LIVE"
        "re_addr (registry s ! j) = q" "re_size (registry s ! j) = m" by (auto simp: live_blocks_iff)
      with i have "j \<noteq> i" by auto
      with ap [OF j(1)] j i show ?thesis by (auto simp: apart_def)
    qed
    have "mem s' a = mem s a" if "in_blocks (live_blocks s) a" for a
      using that dis by (fastforce simp: in_blocks_def s' mem_fill_def)
    moreover have "p + n \<le> region_base s + RT_MEM_REGION_SIZE"
      using eo rg by (simp add: region_inv_def)
    ultimately show ?thesis using eo live dis
      by (auto simp: alloc_spec_def RT_MEM_ALIGNMENT_def s' mem_fill_def)
  qed
  ultimately show ?thesis using eo by (simp add: mem_inv_def)
qed

lemma mem_inv_hook [simp]: "mem_inv (s\<lparr>hook_state := h\<rparr>) = mem_inv s"
  by (simp add: mem_inv_def registry_inv_def region_inv_def fresh_zero_def entry_ok_def)

lemma live_blocks_hook [simp]: "live_blocks (s\<lparr>hook_state := h\<rparr>) = live_blocks s"
  by (simp add: live_blocks_def)

lemma alloc_spec_hook [simp]: "alloc_spec n (s\<lparr>hook_state := h\<rparr>) p s' = alloc_spec n s p s'"
  by (simp add: alloc_spec_def)

lemma alloc_reuse_spec:
  assumes inv: "mem_inv s" and e: "alloc_reuse hooks n s = (r, s')"
  shows "case r of None \<Rightarrow> \<exists>h. s' = s\<lparr>hook_state := h\<rparr>
         | Some p \<Rightarrow> mem_inv s' \<and> alloc_spec n s p s' \<and> p \<noteq> 0"
proof (cases "reuse_lookup hooks")
  case None
  with e have "r = None \<and> s' = s" by (auto simp: alloc_reuse_def)
  moreover have "\<exists>h. s = s\<lparr>hook_state := h\<rparr>" by (rule exI [of _ "hook_state s"]) simp
  ultimately show ?thesis by simp
next
  case (Some lookup)
  obtain res h where l: "lookup (hook_state s) n = (res, h)" by (cases "lookup (hook_state s) n")
  let ?s1 = "s\<lparr>hook_state := h\<rparr>"
  have i1: "mem_inv ?s1" using inv by simp
  show ?thesis
  proof (cases "res = None \<or> res = Some 0")
    case True
    with e Some l have "r = None \<and> s' = ?s1" by (auto simp: alloc_reuse_def Let_def)
    then show ?thesis by auto
  next
    case False
    then obtain c where c: "res = Some c" "c \<noteq> 0" by auto
    obtain ok s2 where a: "rt_mem_registry_activate c n ?s1 = (ok, s2)"
      by (cases "rt_mem_registry_activate c n ?s1")
    note act = activate_spec [OF i1 a]
    show ?thesis
    proof (cases ok)
      case False
      with act have "s2 = ?s1" by simp
      moreover have "r = None" "s' = s2" using e Some l c a False by (auto simp: alloc_reuse_def Let_def)
      ultimately show ?thesis by auto
    next
      case True
      with act obtain i where i: "i < length (registry ?s1)" "re_state (registry ?s1 ! i) = REG_FREE"
        "re_addr (registry ?s1 ! i) = c" "re_size (registry ?s1 ! i) = n"
        and s2: "s2 = ?s1\<lparr>registry := (registry ?s1)[i := (registry ?s1 ! i)\<lparr>re_state := REG_LIVE\<rparr>],
                    free_count := free_count ?s1 - 1, live_count := live_count ?s1 + 1\<rparr>"
        by auto
      have r: "r = Some c" "s' = s2\<lparr>mem := mem_fill c n 0 (mem s2)\<rparr>"
        using e Some l c a True by (auto simp: alloc_reuse_def Let_def)
      have s': "s' = ?s1\<lparr>registry := (registry ?s1)[i := (registry ?s1 ! i)\<lparr>re_state := REG_LIVE\<rparr>],
                    free_count := free_count ?s1 - 1, live_count := live_count ?s1 + 1,
                    mem := mem_fill c n 0 (mem ?s1)\<rparr>"
        by (simp add: r s2)
      from reused_block_step [OF i1 i s'] show ?thesis by (simp add: r(1))
    qed
  qed
qed

lemma core_alloc_spec:
  assumes inv: "mem_inv s" and os: "os_ok os" and e: "rt_mem_core_alloc os hooks n s = (p, s')"
  shows "mem_inv s' \<and> alloc_spec n s p s'"
proof (cases "n = 0 \<or> RT_MEM_REGION_SIZE < n")
  case True
  with e have "p = 0 \<and> s' = s" by (auto simp: rt_mem_core_alloc_def)
  then show ?thesis using inv by (simp add: alloc_spec_def)
next
  case False
  obtain r s1 where r: "alloc_reuse hooks n s = (r, s1)" by (cases "alloc_reuse hooks n s")
  note spec = alloc_reuse_spec [OF inv r]
  show ?thesis
  proof (cases r)
    case None
    with spec obtain h where s1: "s1 = s\<lparr>hook_state := h\<rparr>" by auto
    with inv have i1: "mem_inv s1" by simp
    have "alloc_fresh os n s1 = (p, s')" using e r None False by (simp add: rt_mem_core_alloc_def)
    from alloc_fresh_spec [OF i1 os _ this] False show ?thesis by (simp add: s1)
  next
    case (Some c)
    with e r False have "p = c \<and> s' = s1" by (simp add: rt_mem_core_alloc_def)
    with spec Some show ?thesis by simp
  qed
qed

text \<open>The contract of a release.\<close>

definition release_spec :: "nat \<Rightarrow> 'h mem_state \<Rightarrow> rel_status \<Rightarrow> 'h mem_state \<Rightarrow> bool" where
  "release_spec p s status s' \<longleftrightarrow>
     (status = REL_OK \<and> p \<noteq> 0 \<longrightarrow>
        (\<exists>n. (p, n) \<in> live_blocks s \<and> live_blocks s' = live_blocks s - {(p, n)})) \<and>
     (status = REL_OK \<and> p = 0 \<longrightarrow> s' = s) \<and>
     (status \<noteq> REL_OK \<longrightarrow> s' = s \<and> p \<noteq> 0 \<and> (\<forall>n. (p, n) \<notin> live_blocks s)) \<and>
     (status = REL_DOUBLE \<longleftrightarrow>
        p \<noteq> 0 \<and> (\<exists>e \<in> set (registry s). re_addr e = p \<and> re_state e = REG_FREE)) \<and>
     (\<forall>a. in_blocks (live_blocks s') a \<longrightarrow> mem s' a = mem s a)"

lemma same_addr_same_entry:
  assumes "registry_inv s" and "i < length (registry s)" "j < length (registry s)"
    and "re_state (registry s ! i) \<noteq> REG_UNUSED" "re_state (registry s ! j) \<noteq> REG_UNUSED"
    and "re_addr (registry s ! i) = re_addr (registry s ! j)"
  shows "i = j"
proof (rule ccontr)
  note r = registry_invD [OF assms(1)]
  assume "i \<noteq> j"
  from r(3) [OF assms(2,3) this assms(4,5)] r(2) [OF assms(2)] r(2) [OF assms(3)] assms(4-6)
  show False by (auto simp: apart_def entry_ok_def)
qed

context hooks_contract
begin

lemma core_release_spec:
  assumes inv: "mem_inv s" and e: "rt_mem_core_release hooks p s = (status, s')"
  shows "mem_inv s' \<and> release_spec p s status s'"
proof (cases "p = 0 \<or> first_index (\<lambda>e. re_addr e = p \<and> re_state e \<noteq> REG_UNUSED) (registry s) = None")
  case True
  then consider "p = 0" | "p \<noteq> 0" "first_index (\<lambda>e. re_addr e = p \<and> re_state e \<noteq> REG_UNUSED) (registry s) = None"
    by (cases "p = 0") auto
  then show ?thesis
  proof cases
    case 1
    with e inv show ?thesis by (auto simp: rt_mem_core_release_def release_spec_def)
  next
    case 2
    with e have se: "status = REL_INVALID" "s' = s" by (auto simp: rt_mem_core_release_def)
    from 2 have "\<forall>e \<in> set (registry s). re_addr e = p \<longrightarrow> re_state e = REG_UNUSED"
      by (simp add: first_index_None)
    with se 2(1) inv show ?thesis by (auto simp: release_spec_def live_blocks_def)
  qed
next
  case False
  then obtain i where fi: "first_index (\<lambda>e. re_addr e = p \<and> re_state e \<noteq> REG_UNUSED) (registry s) = Some i"
    and p: "p \<noteq> 0" by auto
  from first_index_SomeD [OF fi] have i: "i < length (registry s)" "re_addr (registry s ! i) = p"
    "re_state (registry s ! i) \<noteq> REG_UNUSED" by auto
  from inv have ri: "registry_inv s" and rg: "region_inv s" and fz: "fresh_zero s" by (auto simp: mem_inv_def)
  note r = registry_invD [OF ri]
  have uniq: "j = i" if "j < length (registry s)" "re_addr (registry s ! j) = p"
      "re_state (registry s ! j) \<noteq> REG_UNUSED" for j
    using same_addr_same_entry [OF ri that(1) i(1)] that i by simp
  show ?thesis
  proof (cases "re_state (registry s ! i) = REG_FREE")
    case True
    with e p fi have se: "status = REL_DOUBLE" "s' = s" by (auto simp: rt_mem_core_release_def)
    have "(p, n) \<notin> live_blocks s" for n
      using uniq True by (auto simp: live_blocks_iff)
    with se p inv i True show ?thesis
      by (auto simp: release_spec_def intro!: bexI [of _ "registry s ! i"])
  next
    case F: False
    with i have live: "re_state (registry s ! i) = REG_LIVE" by (cases "re_state (registry s ! i)") auto
    let ?n = "re_size (registry s ! i)" and ?e = "(registry s ! i)\<lparr>re_state := REG_FREE\<rparr>"
    define s1 where "s1 = s\<lparr>registry := (registry s)[i := ?e],
                           live_count := live_count s - 1, free_count := free_count s + 1\<rparr>"
    obtain h m where hm: "s' = s1\<lparr>hook_state := h, mem := m\<rparr>" and st: "status = REL_OK"
      and frame: "\<And>a. a < p \<or> p + ?n \<le> a \<Longrightarrow> m a = mem s a"
    proof (cases "release_hook hooks")
      case None
      have "s' = s1\<lparr>hook_state := hook_state s1, mem := mem s1\<rparr>" "status = REL_OK"
        using e p fi F None by (simp_all add: rt_mem_core_release_def s1_def)
      then show ?thesis by (rule that) (simp add: s1_def)
    next
      case (Some f)
      obtain h m where f: "f (hook_state s1) (mem s1) p ?n = (h, m)"
        by (cases "f (hook_state s1) (mem s1) p ?n")
      have "s' = s1\<lparr>hook_state := h, mem := m\<rparr>" "status = REL_OK"
        using e p fi F Some f by (simp_all add: rt_mem_core_release_def s1_def)
      then show ?thesis
      proof (rule that)
        show "m a = mem s a" if "a < p \<or> p + ?n \<le> a" for a
          using release_frame [OF Some f that] by (simp add: s1_def)
      qed
    qed
    from r(2) [OF i(1)] i live have eo: "region_base s \<noteq> 0" "region_base s \<le> p" "0 < ?n"
      "p + ?n \<le> region_base s + region_used s" "p mod 16 = 0"
      by (auto simp: entry_ok_def)
    have lc: "0 < live_count s" using i(1) live r(4) by (auto simp: filter_empty_conv)
    have ap: "apart ?e (registry s ! j)"
      if "j < length (registry s)" "j \<noteq> i" "re_state (registry s ! j) \<noteq> REG_UNUSED" for j
      using r(3) [OF i(1) that(1)] that i by (auto simp: apart_def)
    have "registry_inv s'"
      by (rule registry_inv_update [OF ri i(1), where e = ?e])
        (insert r(2) [OF i(1)] i live lc ap, auto simp: hm s1_def entry_ok_def)
    moreover have "region_inv s'" using rg by (simp add: region_inv_def hm s1_def)
    moreover have "fresh_zero s'" using fz eo frame by (auto simp: fresh_zero_def hm s1_def)
    moreover have "release_spec p s status s'"
    proof -
      have lb: "live_blocks s' = live_blocks s - {(p, ?n)}"
        using live_blocks_remove [OF ri i(1), of s' ?e] live i by (simp add: hm s1_def)
      have "(p, ?n) \<in> live_blocks s" using i live by (auto simp: live_blocks_iff)
      moreover have "mem s' a = mem s a" if "in_blocks (live_blocks s') a" for a
      proof -
        from that obtain q k where q: "(q, k) \<in> live_blocks s" "(q, k) \<noteq> (p, ?n)" "q \<le> a" "a < q + k"
          unfolding lb in_blocks_def by auto
        then obtain j where j: "j < length (registry s)" "re_state (registry s ! j) = REG_LIVE"
          "re_addr (registry s ! j) = q" "re_size (registry s ! j) = k" by (auto simp: live_blocks_iff)
        with q(2) i have "j \<noteq> i" by auto
        with ap [OF j(1)] j i have "p + ?n \<le> q \<or> q + k \<le> p" by (auto simp: apart_def)
        with q(3,4) frame [of a] show ?thesis by (auto simp: hm)
      qed
      moreover have "\<not> (\<exists>e \<in> set (registry s). re_addr e = p \<and> re_state e = REG_FREE)"
        using uniq live by (force simp: in_set_conv_nth)
      ultimately show ?thesis using st p lb by (auto simp: release_spec_def)
    qed
    ultimately show ?thesis by (simp add: mem_inv_def)
  qed
qed

end

section \<open>Histories\<close>

text \<open>The states a program reaches: allocations, releases of any address, and writes to bytes of
  live blocks, by the program itself or through \<open>rt_mem_fill\<close> and \<open>rt_mem_copy\<close>.\<close>

inductive mem_reach :: "'h alloc_hooks \<Rightarrow> 'h \<Rightarrow> 'h mem_state \<Rightarrow> bool" for hooks h0 where
  init: "mem_reach hooks h0 (reg_init m h0)"
| alloc: "mem_reach hooks h0 s \<Longrightarrow> os_ok os \<Longrightarrow> rt_mem_core_alloc os hooks n s = (p, s') \<Longrightarrow>
    mem_reach hooks h0 s'"
| dealloc: "mem_reach hooks h0 s \<Longrightarrow> rt_mem_dealloc_bytes hooks handler p s = (r, s') \<Longrightarrow>
    mem_reach hooks h0 s'"
| poke: "mem_reach hooks h0 s \<Longrightarrow> in_blocks (live_blocks s) a \<Longrightarrow>
    mem_reach hooks h0 (s\<lparr>mem := (mem s)(a := v)\<rparr>)"
| fill: "mem_reach hooks h0 s \<Longrightarrow> \<forall>a. p \<le> a \<and> a < p + n \<longrightarrow> in_blocks (live_blocks s) a \<Longrightarrow>
    mem_reach hooks h0 (s\<lparr>mem := rt_mem_fill p v n (mem s)\<rparr>)"
| copy: "mem_reach hooks h0 s \<Longrightarrow> \<forall>a. p \<le> a \<and> a < p + n \<longrightarrow> in_blocks (live_blocks s) a \<Longrightarrow>
    mem_reach hooks h0 (s\<lparr>mem := rt_mem_copy p q n (mem s)\<rparr>)"

lemma mem_inv_write:
  assumes inv: "mem_inv s" and w: "\<And>a. m a \<noteq> mem s a \<Longrightarrow> in_blocks (live_blocks s) a"
  shows "mem_inv (s\<lparr>mem := m\<rparr>)"
proof -
  have "fresh_zero (s\<lparr>mem := m\<rparr>)"
    unfolding fresh_zero_def
  proof (intro allI impI)
    fix a assume a: "region_base (s\<lparr>mem := m\<rparr>) + region_used (s\<lparr>mem := m\<rparr>) \<le> a"
      "a < region_base (s\<lparr>mem := m\<rparr>) + region_committed (s\<lparr>mem := m\<rparr>)"
    then have "\<not> in_blocks (live_blocks s) a" using in_blocks_bound [OF inv, of a] by auto
    then have "m a = mem s a" using w by blast
    with a inv show "mem (s\<lparr>mem := m\<rparr>) a = 0" by (simp add: mem_inv_def fresh_zero_def)
  qed
  moreover have "registry_inv (s\<lparr>mem := m\<rparr>)" "region_inv (s\<lparr>mem := m\<rparr>)"
    using inv by (simp_all add: mem_inv_def registry_inv_def region_inv_def entry_ok_def)
  ultimately show ?thesis by (simp add: mem_inv_def)
qed

context hooks_contract
begin

lemma dealloc_spec:
  assumes "mem_inv s" and "rt_mem_dealloc_bytes hooks handler p s = (r, s')"
  shows "mem_inv s' \<and> (\<exists>status. release_spec p s status s' \<and>
           r = (if status \<noteq> REL_OK \<and> handler then Some (status, p) else None))"
proof -
  obtain status s1 where c: "rt_mem_core_release hooks p s = (status, s1)"
    by (cases "rt_mem_core_release hooks p s")
  with assms(2) have "s' = s1" "r = (if status \<noteq> REL_OK \<and> handler then Some (status, p) else None)"
    by (simp_all add: rt_mem_dealloc_bytes_def)
  with core_release_spec [OF assms(1) c] show ?thesis by blast
qed

lemma mem_reach_inv: "mem_reach hooks h0 s \<Longrightarrow> mem_inv s"
proof (induction rule: mem_reach.induct)
  case (init m)
  show ?case by (rule mem_inv_init)
next
  case (alloc s os n p s')
  from core_alloc_spec [OF alloc.IH alloc.hyps(2,3)] show ?case by blast
next
  case (dealloc s handler p r s')
  from dealloc_spec [OF dealloc.IH dealloc.hyps(2)] show ?case by blast
next
  case (poke s a v)
  then show ?case by (intro mem_inv_write) (auto split: if_splits)
next
  case (fill s p n v)
  then show ?case
    by (intro mem_inv_write) (auto simp: rt_mem_fill_def mem_fill_def split: if_splits)
next
  case (copy s p n q)
  then show ?case
    by (intro mem_inv_write) (auto simp: rt_mem_copy_def split: if_splits)
qed

end

lemma live_count_card:
  assumes "registry_inv s"
  shows "live_count s = card (live_blocks s)"
proof -
  let ?I = "{i. i < length (registry s) \<and> re_state (registry s ! i) = REG_LIVE}"
  let ?f = "\<lambda>i. (re_addr (registry s ! i), re_size (registry s ! i))"
  have "live_blocks s = ?f ` ?I" by (force simp: live_blocks_iff)
  moreover have "inj_on ?f ?I"
    using same_addr_same_entry [OF assms] by (intro inj_onI) auto
  ultimately have "card (live_blocks s) = card ?I" by (simp add: card_image)
  then show ?thesis
    using registry_invD(4) [OF assms] by (simp add: length_filter_conv_card)
qed

lemma live_blocks_apart:
  assumes inv: "mem_inv s" and "(p, n) \<in> live_blocks s" "(q, m) \<in> live_blocks s" "(p, n) \<noteq> (q, m)"
  shows "p + n \<le> q \<or> q + m \<le> p"
proof -
  from assms obtain i j where i: "i < length (registry s)" "re_state (registry s ! i) = REG_LIVE"
      "re_addr (registry s ! i) = p" "re_size (registry s ! i) = n"
    and j: "j < length (registry s)" "re_state (registry s ! j) = REG_LIVE"
      "re_addr (registry s ! j) = q" "re_size (registry s ! j) = m"
    by (auto simp: live_blocks_iff)
  with assms(4) have "i \<noteq> j" by auto
  with inv i j registry_invD(3) [of s i j] show ?thesis by (auto simp: mem_inv_def apart_def)
qed

lemma live_block_aligned: "mem_inv s \<Longrightarrow> (p, n) \<in> live_blocks s \<Longrightarrow> p mod 16 = 0"
  using registry_invD(2) [of s] by (fastforce simp: live_blocks_iff mem_inv_def entry_ok_def)

section \<open>Exact-fit reuse\<close>

lemma first_index_live:
  assumes "registry_inv s" and i: "i < length (registry s)" "re_state (registry s ! i) = REG_LIVE"
    "re_addr (registry s ! i) = p"
  shows "first_index (\<lambda>e. re_addr e = p \<and> re_state e \<noteq> REG_UNUSED) (registry s) = Some i"
  unfolding first_index_Some_iff
proof (intro conjI allI impI)
  fix j assume j: "j < i"
  then have "j < length (registry s)" using i(1) by simp
  then show "\<not> (re_addr (registry s ! j) = p \<and> re_state (registry s ! j) \<noteq> REG_UNUSED)"
    using same_addr_same_entry [OF assms(1) _ i(1), of j] i j by auto
qed (insert i, simp_all)

lemma release_live:
  assumes inv: "mem_inv s" and live: "(p, n) \<in> live_blocks s"
    and st: "length (hook_state s) < RT_MEM_REGISTRY_CAPACITY"
  shows "\<exists>i. i < length (registry s) \<and> re_state (registry s ! i) = REG_LIVE \<and>
    re_addr (registry s ! i) = p \<and> re_size (registry s ! i) = n \<and>
    rt_mem_core_release reuse_hooks p s = (REL_OK,
      s\<lparr>registry := (registry s)[i := (registry s ! i)\<lparr>re_state := REG_FREE\<rparr>],
        live_count := live_count s - 1, free_count := free_count s + 1,
        hook_state := (p, n) # hook_state s, mem := mem_fill p n POISON (mem s)\<rparr>)"
proof -
  from inv have ri: "registry_inv s" by (simp add: mem_inv_def)
  from live obtain i where i: "i < length (registry s)" "re_state (registry s ! i) = REG_LIVE"
    "re_addr (registry s ! i) = p" "re_size (registry s ! i) = n" by (auto simp: live_blocks_iff)
  have p: "p \<noteq> 0" using live_entry_bounds [OF inv live] by auto
  have "first_index (\<lambda>e. re_addr e = p \<and> re_state e \<noteq> REG_UNUSED) (registry s) = Some i"
    by (rule first_index_live [OF ri i(1-3)])
  then have "rt_mem_core_release reuse_hooks p s = (REL_OK,
      s\<lparr>registry := (registry s)[i := (registry s ! i)\<lparr>re_state := REG_FREE\<rparr>],
        live_count := live_count s - 1, free_count := free_count s + 1,
        hook_state := (p, n) # hook_state s, mem := mem_fill p n POISON (mem s)\<rparr>)"
    using p i st by (simp add: rt_mem_core_release_def reuse_hooks_def rt_mem_reuse_on_release_def)
  with i show ?thesis by blast
qed

text \<open>Releasing a live block and asking for its size gives the block back, whatever was written to
  memory in between; but for memory, the state is the one before.\<close>

lemma release_then_alloc:
  assumes inv: "mem_inv s" and live: "(p, n) \<in> live_blocks s"
    and st: "length (hook_state s) < RT_MEM_REGISTRY_CAPACITY"
    and rel: "rt_mem_core_release reuse_hooks p s = (r, s1)"
  shows "rt_mem_core_alloc os reuse_hooks n (s1\<lparr>mem := m\<rparr>) = (p, s\<lparr>mem := mem_fill p n 0 m\<rparr>)"
proof -
  from inv have ri: "registry_inv s" and rg: "region_inv s" by (auto simp: mem_inv_def)
  from release_live [OF inv live st] rel obtain i where
    i: "i < length (registry s)" "re_state (registry s ! i) = REG_LIVE"
      "re_addr (registry s ! i) = p" "re_size (registry s ! i) = n"
    and s1: "s1 = s\<lparr>registry := (registry s)[i := (registry s ! i)\<lparr>re_state := REG_FREE\<rparr>],
        live_count := live_count s - 1, free_count := free_count s + 1,
        hook_state := (p, n) # hook_state s, mem := mem_fill p n POISON (mem s)\<rparr>"
    by auto
  let ?reg = "(registry s)[i := (registry s ! i)\<lparr>re_state := REG_FREE\<rparr>]"
  have bounds: "p \<noteq> 0" "0 < n" "n \<le> RT_MEM_REGION_SIZE"
    using live_entry_bounds [OF inv live] rg by (auto simp: region_inv_def)
  have lc: "0 < live_count s" using i registry_invD(4) [OF ri] by (auto simp: filter_empty_conv)
  have "first_index (\<lambda>e. re_state e = REG_FREE \<and> re_addr e = p) ?reg = Some i"
    unfolding first_index_Some_iff
  proof (intro conjI allI impI)
    fix j assume j: "j < i"
    then have "j < length (registry s)" using i(1) by simp
    then show "\<not> (re_state (?reg ! j) = REG_FREE \<and> re_addr (?reg ! j) = p)"
      using same_addr_same_entry [OF ri _ i(1), of j] i j by auto
  qed (insert i, simp_all)
  moreover have "(registry s)[i := (registry s ! i)\<lparr>re_state := REG_LIVE\<rparr>] = registry s"
  proof -
    have "(registry s ! i)\<lparr>re_state := REG_LIVE\<rparr> = registry s ! i"
      using i(2) by (cases "registry s ! i") simp
    then show ?thesis by simp
  qed
  ultimately show ?thesis
    using bounds i lc unfolding s1
    by (simp add: rt_mem_core_alloc_def alloc_reuse_def reuse_hooks_def
        rt_mem_registry_activate_def Let_def)
qed

fun release_all :: "nat list \<Rightarrow> reuse_stack mem_state \<Rightarrow> reuse_stack mem_state" where
  "release_all [] s = s"
| "release_all (p # ps) s = release_all ps (snd (rt_mem_core_release reuse_hooks p s))"

fun alloc_many :: "os_calls \<Rightarrow> nat \<Rightarrow> nat \<Rightarrow> reuse_stack mem_state \<Rightarrow> nat list \<times> reuse_stack mem_state"
where
  "alloc_many os n 0 s = ([], s)"
| "alloc_many os n (Suc k) s =
     (case alloc_many os n k s of (ps, s1) \<Rightarrow>
        (case rt_mem_core_alloc os reuse_hooks n s1 of (p, s2) \<Rightarrow> (ps @ [p], s2)))"

lemma alloc_many_lifo:
  "mem_inv s \<Longrightarrow> distinct ps \<Longrightarrow> (\<And>p. p \<in> set ps \<Longrightarrow> (p, n) \<in> live_blocks s) \<Longrightarrow>
   length (hook_state s) + length ps \<le> RT_MEM_REGISTRY_CAPACITY \<Longrightarrow>
   \<exists>m. alloc_many os n (length ps) (release_all ps s) = (rev ps, s\<lparr>mem := m\<rparr>)"
proof (induction ps arbitrary: s)
  case Nil
  have "s = s\<lparr>mem := mem s\<rparr>" by simp
  then show ?case by (auto intro: exI [of _ "mem s"])
next
  case (Cons p ps)
  obtain r s1 where rel: "rt_mem_core_release reuse_hooks p s = (r, s1)"
    by (cases "rt_mem_core_release reuse_hooks p s")
  have live: "(p, n) \<in> live_blocks s" and st: "length (hook_state s) < RT_MEM_REGISTRY_CAPACITY"
    using Cons.prems by auto
  from reuse_hooks.core_release_spec [OF Cons.prems(1) rel] have inv1: "mem_inv s1"
    and spec: "release_spec p s r s1" by auto
  from release_live [OF Cons.prems(1) live st] rel have "r = REL_OK"
    and hs: "hook_state s1 = (p, n) # hook_state s" by auto
  with spec obtain k where "live_blocks s1 = live_blocks s - {(p, k)}"
    using live_entry_bounds [OF Cons.prems(1) live] by (auto simp: release_spec_def)
  then have "(q, n) \<in> live_blocks s1" if "q \<in> set ps" for q
    using that Cons.prems(2,3) by auto
  with Cons.IH [OF inv1, of] Cons.prems hs
  obtain m where "alloc_many os n (length ps) (release_all ps s1) = (rev ps, s1\<lparr>mem := m\<rparr>)"
    by auto
  with release_then_alloc [OF Cons.prems(1) live st rel, of os m]
  show ?case by (auto simp: rel)
qed

end
