(* ===== verification/RtTrap.thy ===== *)
theory RtTrap
  imports DiagJson RtMemProps
begin

text \<open>
  The runtime's trap records: \<open>rt_mem_trap.c\<close> (release traps, over the allocator's status handler)
  and \<open>rt_trap.c\<close> (user traps), both built with the record model of \<open>Diag\<close> and written with the
  emitter of \<open>DiagEmit\<close>. Writing the buffer to \<open>stderr\<close> and \<open>exit(70)\<close> are outside the model.
\<close>

section \<open>Release traps\<close>

definition rel_status_code :: "rel_status \<Rightarrow> int" where
  "rel_status_code st = (case st of REL_OK \<Rightarrow> 0 | REL_DOUBLE \<Rightarrow> 1 | REL_INVALID \<Rightarrow> 2)"

text \<open>\<open>snprintf(message, 96, "%s at 0x%016llx", kind, addr)\<close>.\<close>

definition hex16 :: "nat \<Rightarrow> string" where
  "hex16 n = map (\<lambda>i. kHex ! (n div 16 ^ (15 - i) mod 16)) [0..<16]"

definition trap_message :: "string \<Rightarrow> nat \<Rightarrow> string" where
  "trap_message kind addr = take 95 (kind @ '' at 0x'' @ hex16 addr)"

definition rt_mem_trap_format :: "(nat \<Rightarrow> bool) \<Rightarrow> rel_status \<Rightarrow> nat \<Rightarrow> emitter" where
  "rt_mem_trap_format memok status addr out =
     (let ck = (case status of
                  REL_DOUBLE \<Rightarrow> Some (''AIC-R0812'', ''double release of allocation'')
                | REL_INVALID \<Rightarrow> Some (''AIC-R0813'', ''invalid release: pointer not from allocator'')
                | REL_OK \<Rightarrow> None)
      in case ck of
           None \<Rightarrow> (False, out)
         | Some (code, kind) \<Rightarrow>
             (case diag_trap_record (Some code) (Some (trap_message kind addr)) None of
                None \<Rightarrow> (False, out)
              | Some rec \<Rightarrow>
                  (case setters
                     [\<lambda>r. diag_record_add_related_str r (Some ''operation'') (Some ''dealloc_bytes''),
                      \<lambda>r. diag_record_add_related_int r (Some ''address'') (to_i64 (int addr)),
                      \<lambda>r. diag_record_add_related_int r (Some ''status'') (rel_status_code status)] rec of
                     None \<Rightarrow> (False, out)
                   | Some rec' \<Rightarrow> diag_emit_record memok rec' out)))"

section \<open>User traps\<close>

definition RT_TRAP_MAX_MESSAGE_BYTES :: nat where "RT_TRAP_MAX_MESSAGE_BYTES = 4096"

text \<open>\<open>data\<close> is \<open>None\<close> for a NULL pointer; otherwise it holds at least \<open>len\<close> bytes.\<close>

definition rt_trap_copy_message :: "string option \<Rightarrow> nat \<Rightarrow> string" where
  "rt_trap_copy_message data len =
     (let n = (if RT_TRAP_MAX_MESSAGE_BYTES \<le> len then RT_TRAP_MAX_MESSAGE_BYTES - 1 else len)
      in case data of None \<Rightarrow> [] | Some d \<Rightarrow> takeWhile (\<lambda>c. c \<noteq> CHR 0x00) (take n d))"

definition rt_trap_format :: "(nat \<Rightarrow> bool) \<Rightarrow> int \<Rightarrow> string option \<Rightarrow> nat \<Rightarrow> emitter" where
  "rt_trap_format memok code data len out =
     (case diag_user_trap_record code (Some (rt_trap_copy_message data len)) None of
        None \<Rightarrow> (False, out)
      | Some rec \<Rightarrow>
          (case setters
             [\<lambda>r. diag_record_add_related_str r (Some ''operation'') (Some ''trap.report''),
              \<lambda>r. diag_record_add_related_int r (Some ''code'') code] rec of
             None \<Rightarrow> (False, out)
           | Some rec' \<Rightarrow> diag_emit_record memok rec' out))"

section \<open>Lemmas\<close>

lemma lookup_R0812: "diag_code_lookup ''AIC-R0812'' =
    Some (code_info ''AIC-R0812'' ''trap'' ''error'' ''double release'')"
  by (simp add: diag_code_lookup_def kCodes_def code_info_def)

lemma lookup_R0813: "diag_code_lookup ''AIC-R0813'' =
    Some (code_info ''AIC-R0813'' ''trap'' ''error'' ''invalid release (pointer not from allocator)'')"
  by (simp add: diag_code_lookup_def kCodes_def code_info_def)

definition trap_rec :: "string \<Rightarrow> string \<Rightarrow> int option \<Rightarrow> diag_kv list \<Rightarrow> diag_record" where
  "trap_rec c m t kvs = diag_record_new
     \<lparr>rec_code := Some c, rec_severity := Some ''error'', rec_phase := Some ''trap'',
      rec_message := Some m, rec_recovery := Some ''authoritative'', rec_exit_code := Some 70,
      rec_trap_code := t, rec_related := kvs\<rparr>"

lemma trap_rec_valid:
  assumes "diag_code_lookup c = Some info" and "ci_phase info = ''trap''"
    and "pred_option (\<lambda>u. 0 \<le> u \<and> u \<le> UINT32_MAX) t"
  shows "diag_record_validate (trap_rec c m t kvs) = None"
  by (rule validate_trap [OF assms(1,2)])
    (insert assms(3), auto simp: trap_rec_def diag_record_new_def)

lemma trap_rec_ok:
  "pred_option (\<lambda>u. 0 \<le> u \<and> u \<le> UINT32_MAX) t \<Longrightarrow> list_all kv_ok kvs \<Longrightarrow> record_ok (trap_rec c m t kvs)"
  by (cases t) (simp_all add: record_ok_def trap_rec_def diag_record_new_def in_i64_def)

lemma emits_trap_rec:
  assumes "diag_code_lookup c = Some info" and "ci_phase info = ''trap''"
    and "pred_option (\<lambda>u. 0 \<le> u \<and> u \<le> UINT32_MAX) t" and "list_all kv_ok kvs"
  shows "emits memok (diag_emit_record memok (trap_rec c m t kvs)) (record_line (trap_rec c m t kvs))"
proof -
  have "diag_emit_record memok (trap_rec c m t kvs) = seq_emit (record_pieces memok (trap_rec c m t kvs))"
    by (rule ext) (simp add: diag_emit_record_def trap_rec_valid [OF assms(1-3)])
  then show ?thesis using emits_record [OF trap_rec_ok [OF assms(3,4)]] by simp
qed

lemma diag_trap_record_trap_rec:
  assumes "diag_code_lookup c = Some info" and "ci_phase info = ''trap''"
  shows "diag_trap_record (Some c) (Some m) None = Some (trap_rec c m None [])"
  unfolding diag_trap_record_def diag_trap_record_ex_Some
  using assms by (simp add: trap_rec_def diag_record_new_def)

lemmas related_defs = diag_record_add_related_str_def diag_record_add_related_int_def rec_add_kv_def

definition release_kvs :: "rel_status \<Rightarrow> nat \<Rightarrow> diag_kv list" where
  "release_kvs status addr =
     [\<lparr>kv_key = ''operation'', kv_value = KvString ''dealloc_bytes''\<rparr>,
      \<lparr>kv_key = ''address'', kv_value = KvInt (to_i64 (int addr))\<rparr>,
      \<lparr>kv_key = ''status'', kv_value = KvInt (rel_status_code status)\<rparr>]"

lemma release_kvs_ok: "list_all kv_ok (release_kvs status addr)"
proof -
  have "in_i64 (rel_status_code status)" by (cases status) (simp_all add: rel_status_code_def in_i64_def)
  then show ?thesis by (simp add: release_kvs_def kv_ok_def)
qed

definition release_rec :: "rel_status \<Rightarrow> nat \<Rightarrow> diag_record" where
  "release_rec status addr =
     (if status = REL_DOUBLE
      then trap_rec ''AIC-R0812'' (trap_message ''double release of allocation'' addr) None
             (release_kvs status addr)
      else trap_rec ''AIC-R0813'' (trap_message ''invalid release: pointer not from allocator'' addr) None
             (release_kvs status addr))"

lemma rt_mem_trap_format_emits:
  "status \<noteq> REL_OK \<Longrightarrow>
     rt_mem_trap_format memok status addr = diag_emit_record memok (release_rec status addr)"
  by (cases status; rule ext)
    (simp_all add: rt_mem_trap_format_def release_rec_def Let_def
      diag_trap_record_trap_rec [OF lookup_R0812] diag_trap_record_trap_rec [OF lookup_R0813]
      code_info_def related_defs trap_rec_def diag_record_new_def release_kvs_def)

lemma emits_release_rec: "emits memok (diag_emit_record memok (release_rec status addr)) (record_line (release_rec status addr))"
  unfolding release_rec_def
  using emits_trap_rec [OF lookup_R0812 _ _ release_kvs_ok] emits_trap_rec [OF lookup_R0813 _ _ release_kvs_ok]
  by (simp add: code_info_def)

section \<open>Properties\<close>

lemma release_again:
  assumes "rt_mem_core_release hooks p s = (REL_OK, s')" and "p \<noteq> 0"
  shows "rt_mem_core_release hooks p s' = (REL_DOUBLE, s')"
proof -
  let ?P = "\<lambda>e. re_addr e = p \<and> re_state e \<noteq> REG_UNUSED"
  obtain i where i: "first_index ?P (registry s) = Some i"
    and r: "registry s' = (registry s)[i := (registry s ! i)\<lparr>re_state := REG_FREE\<rparr>]"
    using assms
    by (auto simp: rt_mem_core_release_def Let_def split: option.splits if_split_asm prod.splits)
  from first_index_SomeD [OF i] have "first_index ?P (registry s') = Some i"
    unfolding r first_index_Some_iff by simp
  with assms(2) r first_index_SomeD [OF i] show ?thesis by (simp add: rt_mem_core_release_def)
qed

text \<open>C28: a program that releases an address that is neither NULL nor the start of a live block, with
  the trap handler installed, leaves the allocator as it is and gets one valid trap line: code
  AIC-R0812 when the registry knows the address as released and AIC-R0813 otherwise, exit
  code 70, with the address as a signed 64-bit fact; releasing NULL or a live block traps never, and
  releasing a live block again, right after, traps with AIC-R0812. This is what the code does. It is
  less than the specification asks (sections 12.8 and 15.1: a double release is AIC-R0812): the
  registry forgets a released address when an allocation recycles its slot, and then a second release
  is AIC-R0813, as in the witness.\<close>

theorem bad_release_traps:
  assumes "hooks_contract hooks" and "mem_reach hooks h0 s"
    and "rt_mem_dealloc_bytes hooks True p s = (r, s')"
  shows "(r = None \<longleftrightarrow> p = 0 \<or> (\<exists>n. (p, n) \<in> live_blocks s)) \<and>
     (\<forall>status q. r = Some (status, q) \<longrightarrow> q = p \<and> s' = s \<and>
        (\<exists>rec. emits memok (rt_mem_trap_format memok status q) (record_line rec) \<and>
           diag_record_validate rec = None \<and> rec_exit_code rec = Some 70 \<and>
           rec_code rec = Some (if \<exists>e \<in> set (registry s). re_addr e = p \<and> re_state e = REG_FREE
                                then ''AIC-R0812'' else ''AIC-R0813'') \<and>
           \<lparr>kv_key = ''address'', kv_value = KvInt (to_i64 (int p))\<rparr> \<in> set (rec_related rec))) \<and>
     (r = None \<and> p \<noteq> 0 \<longrightarrow> rt_mem_dealloc_bytes hooks True p s' = (Some (REL_DOUBLE, p), s') \<and>
        (\<exists>e \<in> set (registry s'). re_addr e = p \<and> re_state e = REG_FREE))"
proof -
  from hooks_contract.dealloc_spec [OF assms(1) hooks_contract.mem_reach_inv [OF assms(1,2)] assms(3)]
  obtain st where st: "release_spec p s st s'"
    and r: "r = (if st \<noteq> REL_OK then Some (st, p) else None)" by auto
  have ok: "st = REL_OK \<longleftrightarrow> p = 0 \<or> (\<exists>n. (p, n) \<in> live_blocks s)"
    using st unfolding release_spec_def by blast
  have bad: "st \<noteq> REL_OK \<Longrightarrow> s' = s \<and> p \<noteq> 0" using st unfolding release_spec_def by blast
  have db: "st \<noteq> REL_OK \<Longrightarrow>
      st = REL_DOUBLE \<longleftrightarrow> (\<exists>e \<in> set (registry s). re_addr e = p \<and> re_state e = REG_FREE)"
    using st bad unfolding release_spec_def by blast
  have rec: "diag_record_validate (release_rec st p) = None" "rec_exit_code (release_rec st p) = Some 70"
    "rec_code (release_rec st p) = Some (if st = REL_DOUBLE then ''AIC-R0812'' else ''AIC-R0813'')"
    "\<lparr>kv_key = ''address'', kv_value = KvInt (to_i64 (int p))\<rparr> \<in> set (rec_related (release_rec st p))"
    using trap_rec_valid [OF lookup_R0812] trap_rec_valid [OF lookup_R0813]
    by (simp_all add: release_rec_def code_info_def) (simp_all add: trap_rec_def release_kvs_def)
  have "\<exists>rec. emits memok (rt_mem_trap_format memok st p) (record_line rec) \<and>
           diag_record_validate rec = None \<and> rec_exit_code rec = Some 70 \<and>
           rec_code rec = Some (if \<exists>e \<in> set (registry s). re_addr e = p \<and> re_state e = REG_FREE
                                then ''AIC-R0812'' else ''AIC-R0813'') \<and>
           \<lparr>kv_key = ''address'', kv_value = KvInt (to_i64 (int p))\<rparr> \<in> set (rec_related rec)"
    if "st \<noteq> REL_OK"
    using rec emits_release_rec [of memok st p] unfolding rt_mem_trap_format_emits [OF that] db [OF that, symmetric]
    by blast
  moreover have "rt_mem_dealloc_bytes hooks True p s' = (Some (REL_DOUBLE, p), s') \<and>
      (\<exists>e \<in> set (registry s'). re_addr e = p \<and> re_state e = REG_FREE)" if n: "r = None" "p \<noteq> 0"
  proof -
    have "rt_mem_core_release hooks p s = (REL_OK, s')"
      using assms(3) n(1) by (auto simp: rt_mem_dealloc_bytes_def split: prod.splits if_split_asm)
    note again = release_again [OF this n(2)]
    then obtain i where "first_index (\<lambda>e. re_addr e = p \<and> re_state e \<noteq> REG_UNUSED) (registry s') = Some i"
      "re_state (registry s' ! i) = REG_FREE"
      using n(2) by (auto simp: rt_mem_core_release_def Let_def split: option.splits if_split_asm prod.splits)
    with first_index_SomeD [OF this(1)] again show ?thesis
      by (auto simp: rt_mem_dealloc_bytes_def)
  qed
  ultimately show ?thesis using r ok bad by auto
qed

text \<open>Allocate 24 bytes, release them, allocate 8: the slot of the first block is recycled.\<close>

definition recycled_state :: "reuse_stack mem_state" where
  "recycled_state =
     snd (rt_mem_core_alloc demo_os reuse_hooks 8 (snd (rt_mem_dealloc_bytes reuse_hooks True 65536 demo_state)))"

lemma recycled_reach: "mem_reach reuse_hooks [] recycled_state"
  unfolding recycled_state_def
  by (rule mem_reach.alloc [OF mem_reach.dealloc [OF demo_reach prod.collapse [symmetric]] demo_os_ok prod.collapse [symmetric]])

lemma recycled_registry:
  "\<exists>n. registry recycled_state =
     \<lparr>re_addr = 65568, re_size = 8, re_state = REG_LIVE\<rparr> # replicate n \<lparr>re_addr = 0, re_size = 0, re_state = REG_UNUSED\<rparr>"
proof -
  obtain n where n: "RT_MEM_REGISTRY_CAPACITY = Suc (Suc n)"
    using that [of 16382] by (simp add: RT_MEM_REGISTRY_CAPACITY_def)
  have "align_up_n 24 RT_MEM_ALIGNMENT = 32" "align_up_n 40 4096 = 4096"
    using align_up_n_eq [of 4 24] align_up_n_eq [of 12 40] by (simp_all add: RT_MEM_ALIGNMENT_def)
  then show ?thesis
    by (simp add: recycled_state_def demo_state_def rt_mem_dealloc_bytes_def rt_mem_core_release_def
        rt_mem_core_alloc_def alloc_reuse_def alloc_fresh_def reuse_hooks_def demo_init_def reg_init_def
        rt_mem_region_ensure_def demo_os_def Let_def demo_align region_size rt_mem_reuse_on_release_def
        rt_mem_region_commit_def n exI [of _ "Suc n"])
qed

lemma bad_release_traps_witness:
  "(\<exists>s'. rt_mem_dealloc_bytes reuse_hooks True 65536 demo_state = (None, s') \<and>
      rt_mem_dealloc_bytes reuse_hooks True 65536 s' = (Some (REL_DOUBLE, 65536), s')) \<and>
   (\<exists>status rec. rt_mem_dealloc_bytes reuse_hooks True 65536 recycled_state = (Some (status, 65536), recycled_state) \<and>
      emits (\<lambda>n. True) (rt_mem_trap_format (\<lambda>n. True) status 65536) (record_line rec) \<and>
      rec_code rec = Some ''AIC-R0813'')"
proof
  obtain r s' where e: "rt_mem_dealloc_bytes reuse_hooks True 65536 demo_state = (r, s')"
    by (cases "rt_mem_dealloc_bytes reuse_hooks True 65536 demo_state")
  from bad_release_traps [OF reuse_hooks.hooks_contract_axioms demo_reach e, of "\<lambda>n. True"] demo_live e
  show "\<exists>s'. rt_mem_dealloc_bytes reuse_hooks True 65536 demo_state = (None, s') \<and>
      rt_mem_dealloc_bytes reuse_hooks True 65536 s' = (Some (REL_DOUBLE, 65536), s')" by auto
next
  obtain r s' where e: "rt_mem_dealloc_bytes reuse_hooks True 65536 recycled_state = (r, s')"
    by (cases "rt_mem_dealloc_bytes reuse_hooks True 65536 recycled_state")
  obtain n where n: "registry recycled_state =
     \<lparr>re_addr = 65568, re_size = 8, re_state = REG_LIVE\<rparr> # replicate n \<lparr>re_addr = 0, re_size = 0, re_state = REG_UNUSED\<rparr>"
    using recycled_registry by blast
  have "\<not> (\<exists>n. (65536, n) \<in> live_blocks recycled_state)"
    and f: "\<not> (\<exists>e \<in> set (registry recycled_state). re_addr e = 65536 \<and> re_state e = REG_FREE)"
    by (auto simp: live_blocks_def n)
  with bad_release_traps [OF reuse_hooks.hooks_contract_axioms recycled_reach e, of "\<lambda>n. True"]
  obtain status q where r: "r = Some (status, q)" by (cases r) auto
  with bad_release_traps [OF reuse_hooks.hooks_contract_axioms recycled_reach e, of "\<lambda>n. True"] e f
  show "\<exists>status rec. rt_mem_dealloc_bytes reuse_hooks True 65536 recycled_state = (Some (status, 65536), recycled_state) \<and>
      emits (\<lambda>n. True) (rt_mem_trap_format (\<lambda>n. True) status 65536) (record_line rec) \<and>
      rec_code rec = Some ''AIC-R0813''" by auto
qed

text \<open>C29: for every caller code in the u32 range, \<open>rt_trap_format\<close> writes the line of one valid
  AIC-U0000 record with that trap code and exit code 70; its message is the longest NUL-free prefix
  of the caller's bytes within the declared bound, so the static buffer is never overrun.\<close>

theorem user_trap_line:
  assumes "0 \<le> code" and "code \<le> UINT32_MAX"
  shows "\<exists>rec m. emits memok (rt_trap_format memok code data len) (record_line rec) \<and>
     diag_record_validate rec = None \<and> rec_code rec = Some ''AIC-U0000'' \<and>
     rec_trap_code rec = Some code \<and> rec_exit_code rec = Some 70 \<and> rec_message rec = Some m \<and>
     length m < RT_TRAP_MAX_MESSAGE_BYTES \<and> CHR 0x00 \<notin> set m \<and>
     (\<forall>d. data = Some d \<longrightarrow> length d = len \<longrightarrow>
        m = take (RT_TRAP_MAX_MESSAGE_BYTES - 1) (takeWhile (\<lambda>c. c \<noteq> CHR 0x00) d))"
proof -
  let ?m = "rt_trap_copy_message data len"
  let ?kvs = "[\<lparr>kv_key = ''operation'', kv_value = KvString ''trap.report''\<rparr>,
               \<lparr>kv_key = ''code'', kv_value = KvInt code\<rparr>]"
  let ?r = "trap_rec ''AIC-U0000'' ?m (Some code) ?kvs"
  have t: "pred_option (\<lambda>u. 0 \<le> u \<and> u \<le> UINT32_MAX) (Some code)" using assms by simp
  have ph: "ci_phase (code_info ''AIC-U0000'' ''trap'' ''error''
      ''user trap via rt.trap.report (numeric code in trap_code)'') = ''trap''"
    by (simp add: code_info_def)
  have kv: "list_all kv_ok ?kvs" using assms by (simp add: kv_ok_def in_i64_def)
  have f: "rt_trap_format memok code data len = diag_emit_record memok ?r"
    using assms by (intro ext) (simp add: rt_trap_format_def diag_user_trap_record_def
        diag_trap_record_trap_rec [OF lookup_U0000 ph] related_defs trap_rec_def diag_record_new_def)
  have len: "length ?m < RT_TRAP_MAX_MESSAGE_BYTES"
    by (auto simp: rt_trap_copy_message_def Let_def RT_TRAP_MAX_MESSAGE_BYTES_def not_le
        split: option.split intro: le_less_trans [OF length_takeWhile_le])
  have nul: "CHR 0x00 \<notin> set ?m"
    by (auto simp: rt_trap_copy_message_def Let_def split: option.split dest: set_takeWhileD)
  have pre: "?m = take (RT_TRAP_MAX_MESSAGE_BYTES - 1) (takeWhile (\<lambda>c. c \<noteq> CHR 0x00) d)"
    if "data = Some d" "length d = len" for d
    using that by (auto simp: rt_trap_copy_message_def Let_def takeWhile_take [symmetric] take_all not_le)
  show ?thesis
    unfolding f
    using emits_trap_rec [OF lookup_U0000 ph t kv, of memok ?m] trap_rec_valid [OF lookup_U0000 ph t] len nul pre
    by (intro exI [of _ ?r] exI [of _ ?m]) (simp add: trap_rec_def)
qed

lemma user_trap_line_witness:
  "\<exists>t. emits (\<lambda>n. True) (rt_trap_format (\<lambda>n. True) 7 (Some ''boom'') 4) t"
proof -
  from user_trap_line [of 7 "\<lambda>n. True" "Some ''boom''" 4] show ?thesis by auto
qed

end
