(* ===== verification/RtIo.thy ===== *)
theory RtIo
  imports RtTrap
begin

text \<open>
  The runtime's file handles: \<open>rt_io_core.c\<close> (handle table, open, read, write, close, registration)
  and \<open>rt_io_stdio.c\<close> (standard streams and the AIC-R0814 record). The table is the C array
  \<open>s_handles[0 .. 256]\<close>, an OS handle being a number with NULL = 0; the Windows calls are
  functions in a record. \<open>os_open\<close> is a ghost field: the OS handles that have been opened or
  adopted and not closed, by which leaks can be stated.
\<close>

section \<open>State and Windows calls\<close>

definition RT_IO_TABLE_CAPACITY :: nat where "RT_IO_TABLE_CAPACITY = 256"
definition RT_IO_PATH_MAX_BYTES :: nat where "RT_IO_PATH_MAX_BYTES = 32768"
definition INVALID_HANDLE_VALUE :: nat where "INVALID_HANDLE_VALUE = 18446744073709551615"
definition DWORD_MAX :: nat where "DWORD_MAX = 4294967295"

datatype disposition = OPEN_EXISTING | CREATE_ALWAYS | OPEN_ALWAYS
datatype io_op = IO_OP_READ | IO_OP_WRITE | IO_OP_CLOSE

record io_state =
  handles :: "nat list"
  open_count :: nat
  has_handler :: bool
  os_open :: "nat set"

text \<open>\<open>multi_byte\<close> is the strict UTF-8 conversion, \<open>None\<close> for a zero result (failure or an empty
  path); \<open>create_file\<close> takes the path, read and write access and the disposition.\<close>

record io_os =
  multi_byte :: "string \<Rightarrow> nat list option"
  create_file :: "nat list \<Rightarrow> bool \<Rightarrow> bool \<Rightarrow> disposition \<Rightarrow> nat"
  seek_end :: "nat \<Rightarrow> bool"
  read_file :: "nat \<Rightarrow> nat \<Rightarrow> nat option"
  write_file :: "nat \<Rightarrow> nat \<Rightarrow> nat option"
  std_handle :: nat

definition io_init :: io_state where
  "io_init = \<lparr>handles = replicate (RT_IO_TABLE_CAPACITY + 1) 0, open_count = 0, has_handler = False,
              os_open = {}\<rparr>"

definition close_os :: "nat \<Rightarrow> io_state \<Rightarrow> io_state" where
  "close_os h s = s\<lparr>os_open := os_open s - {h}\<rparr>"

section \<open>The table\<close>

text \<open>Slots \<open>1 ..\<close> in increasing order; 0 when the table is full.\<close>

definition rt_io_table_first_free :: "io_state \<Rightarrow> nat" where
  "rt_io_table_first_free s =
     (case first_index (\<lambda>h. h = 0) (drop 1 (handles s)) of None \<Rightarrow> 0 | Some i \<Rightarrow> i + 1)"

definition rt_io_core_handle_is_valid :: "nat \<Rightarrow> io_state \<Rightarrow> bool" where
  "rt_io_core_handle_is_valid handle s \<longleftrightarrow>
     1 \<le> handle \<and> handle \<le> RT_IO_TABLE_CAPACITY \<and> handles s ! handle \<noteq> 0"

section \<open>File operations\<close>

fun open_mode :: "nat \<Rightarrow> (bool \<times> bool \<times> disposition) option" where
  "open_mode mode =
     (if mode = 0 then Some (True, False, OPEN_EXISTING)
      else if mode = 1 then Some (False, True, CREATE_ALWAYS)
      else if mode = 2 then Some (False, True, OPEN_ALWAYS)
      else if mode = 3 then Some (True, True, CREATE_ALWAYS)
      else None)"

definition rt_io_open :: "io_os \<Rightarrow> string \<Rightarrow> nat \<Rightarrow> io_state \<Rightarrow> nat \<times> io_state" where
  "rt_io_open os path mode s =
     (case open_mode mode of
        None \<Rightarrow> (0, s)
      | Some (rd, wr, disp) \<Rightarrow>
          if RT_IO_PATH_MAX_BYTES < length path then (0, s)
          else (case multi_byte os path of
             None \<Rightarrow> (0, s)
           | Some wide \<Rightarrow>
               let h = create_file os wide rd wr disp
               in if h = INVALID_HANDLE_VALUE then (0, s)
               else let s1 = s\<lparr>os_open := insert h (os_open s)\<rparr>
               in if mode = 2 \<and> \<not> seek_end os h then (0, close_os h s1)
               else let slot = rt_io_table_first_free s1
               in if slot = 0 then (0, close_os h s1)
               else (slot, s1\<lparr>handles := (handles s1)[slot := h], open_count := open_count s1 + 1\<rparr>)))"

text \<open>What an operation does besides returning: deliver an invalid handle to the handler, or raise
  the AIC-R0807 trap, which does not return.\<close>

datatype io_outcome =
    Ret nat
  | RetHandled nat io_op nat
  | TrapReadBuf nat nat nat

definition invalid_handle :: "io_op \<Rightarrow> nat \<Rightarrow> io_state \<Rightarrow> io_outcome" where
  "invalid_handle op handle s = (if has_handler s then RetHandled 0 op handle else Ret 0)"

definition clamp_dword :: "nat \<Rightarrow> nat" where
  "clamp_dword n = (if DWORD_MAX < n then DWORD_MAX else n)"

definition rt_io_read :: "io_os \<Rightarrow> nat \<Rightarrow> nat \<Rightarrow> nat \<Rightarrow> io_state \<Rightarrow> io_outcome" where
  "rt_io_read os handle buf_len cnt s =
     (if \<not> rt_io_core_handle_is_valid handle s then invalid_handle IO_OP_READ handle s
      else if buf_len < cnt then TrapReadBuf handle buf_len cnt
      else if cnt = 0 then Ret 0
      else (case read_file os (handles s ! handle) (clamp_dword cnt) of
              None \<Rightarrow> Ret 0 | Some got \<Rightarrow> Ret got))"

definition rt_io_write :: "io_os \<Rightarrow> nat \<Rightarrow> nat \<Rightarrow> nat \<Rightarrow> io_state \<Rightarrow> io_outcome" where
  "rt_io_write os handle buf_len cnt s =
     (if \<not> rt_io_core_handle_is_valid handle s then invalid_handle IO_OP_WRITE handle s
      else let effective = (if cnt < buf_len then cnt else buf_len)
        in if effective = 0 then Ret 0
        else (case write_file os (handles s ! handle) (clamp_dword effective) of
                None \<Rightarrow> Ret 0 | Some n \<Rightarrow> Ret n))"

definition rt_io_close :: "nat \<Rightarrow> io_state \<Rightarrow> io_outcome \<times> io_state" where
  "rt_io_close handle s =
     (if \<not> rt_io_core_handle_is_valid handle s then (invalid_handle IO_OP_CLOSE handle s, s)
      else (Ret 0, (close_os (handles s ! handle) s)
              \<lparr>handles := (handles s)[handle := 0], open_count := open_count s - 1\<rparr>))"

definition rt_io_core_register_handle :: "nat \<Rightarrow> io_state \<Rightarrow> nat \<times> io_state" where
  "rt_io_core_register_handle os_handle s =
     (if os_handle = 0 \<or> os_handle = INVALID_HANDLE_VALUE then (0, s)
      else let slot = rt_io_table_first_free s
        in if slot = 0 then (0, s)
        else (slot, s\<lparr>handles := (handles s)[slot := os_handle], open_count := open_count s + 1,
                      os_open := insert os_handle (os_open s)\<rparr>))"

definition rt_io_core_set_invalid_handle_handler :: "bool \<Rightarrow> io_state \<Rightarrow> io_state" where
  "rt_io_core_set_invalid_handle_handler present s = s\<lparr>has_handler := present\<rparr>"

definition rt_io_core_reset :: "io_state \<Rightarrow> io_state" where
  "rt_io_core_reset s =
     \<lparr>handles = (handles s ! 0) # replicate RT_IO_TABLE_CAPACITY 0, open_count = 0,
      has_handler = False, os_open = os_open s - {h \<in> set (drop 1 (handles s)). h \<noteq> 0}\<rparr>"

section \<open>Standard streams\<close>

definition rt_io_stdio_register_stream :: "io_os \<Rightarrow> nat \<Rightarrow> io_state \<Rightarrow> nat \<times> nat \<times> io_state" where
  "rt_io_stdio_register_stream os cache s =
     (if cache \<noteq> 0 then (cache, cache, s)
      else (case rt_io_core_register_handle (std_handle os) s of
              (slot, s') \<Rightarrow> (slot, if slot \<noteq> 0 then slot else cache, s')))"

section \<open>Trap records\<close>

definition u64_text :: "nat \<Rightarrow> string" where
  "u64_text n = (if n = 0 then ''0'' else rev (u64_digits n))"

definition read_buf_message :: "nat \<Rightarrow> nat \<Rightarrow> string" where
  "read_buf_message buf_len cnt = take 95 (''read buffer too small: count '' @ u64_text cnt @
     '' > buf length '' @ u64_text buf_len)"

definition rt_io_format_read_buf_trap :: "(nat \<Rightarrow> bool) \<Rightarrow> nat \<Rightarrow> nat \<Rightarrow> nat \<Rightarrow> emitter" where
  "rt_io_format_read_buf_trap memok handle buf_len cnt out =
     (case diag_trap_record (Some ''AIC-R0807'') (Some (read_buf_message buf_len cnt)) None of
        None \<Rightarrow> (False, out)
      | Some rec \<Rightarrow>
          (case setters
             [\<lambda>r. diag_record_add_related_str r (Some ''operation'') (Some ''read''),
              \<lambda>r. diag_record_add_related_int r (Some ''handle'') (to_i64 (int handle)),
              \<lambda>r. diag_record_add_related_int r (Some ''buf_len'') (to_i64 (int buf_len)),
              \<lambda>r. diag_record_add_related_int r (Some ''count'') (to_i64 (int cnt))] rec of
             None \<Rightarrow> (False, out)
           | Some rec' \<Rightarrow> diag_emit_record memok rec' out))"

definition io_op_name :: "io_op \<Rightarrow> string" where
  "io_op_name op = (case op of IO_OP_READ \<Rightarrow> ''read'' | IO_OP_WRITE \<Rightarrow> ''write'' | IO_OP_CLOSE \<Rightarrow> ''close'')"

definition rt_io_format_invalid_handle_trap :: "(nat \<Rightarrow> bool) \<Rightarrow> io_op \<Rightarrow> nat \<Rightarrow> emitter" where
  "rt_io_format_invalid_handle_trap memok op handle out =
     (case diag_trap_record (Some ''AIC-R0814'')
        (Some (take 95 (''invalid/closed file handle for '' @ io_op_name op @ '': handle '' @ u64_text handle)))
        None of
        None \<Rightarrow> (False, out)
      | Some rec \<Rightarrow>
          (case setters
             [\<lambda>r. diag_record_add_related_str r (Some ''operation'') (Some (io_op_name op)),
              \<lambda>r. diag_record_add_related_int r (Some ''handle'') (to_i64 (int handle))] rec of
             None \<Rightarrow> (False, out)
           | Some rec' \<Rightarrow> diag_emit_record memok rec' out))"

section \<open>The table invariant\<close>

definition table_handles :: "io_state \<Rightarrow> nat set" where
  "table_handles s = {h \<in> set (handles s). h \<noteq> 0}"

definition io_inv :: "io_state \<Rightarrow> bool" where
  "io_inv s \<longleftrightarrow> length (handles s) = RT_IO_TABLE_CAPACITY + 1 \<and> handles s ! 0 = 0 \<and>
     open_count s = length (filter (\<lambda>h. h \<noteq> 0) (handles s)) \<and> os_open s \<subseteq> table_handles s"

text \<open>No OS handle is in two slots, and those of the table are open.\<close>

definition io_owned :: "io_state \<Rightarrow> bool" where
  "io_owned s \<longleftrightarrow>
     (\<forall>i < length (handles s). \<forall>j < length (handles s).
        handles s ! i = handles s ! j \<longrightarrow> handles s ! i \<noteq> 0 \<longrightarrow> i = j) \<and>
     table_handles s \<subseteq> os_open s"

text \<open>What the OS documents of a handle that \<open>CreateFileW\<close> returns: it is not NULL and not one that is
  open. Nothing of the kind is known of \<open>GetStdHandle\<close>, which may give one handle for two streams;
  \<open>io_reach True\<close> are the states reached by registering only handles that are not open.\<close>

definition fresh_handle :: "nat \<Rightarrow> io_state \<Rightarrow> bool" where
  "fresh_handle h s \<longleftrightarrow> h \<noteq> 0 \<and> h \<notin> os_open s"

inductive io_reach :: "bool \<Rightarrow> io_state \<Rightarrow> bool" for distinct_streams where
  init: "io_reach distinct_streams io_init"
| opened: "io_reach distinct_streams s \<Longrightarrow>
    (\<And>w rd wr d. create_file os w rd wr d = INVALID_HANDLE_VALUE \<or> fresh_handle (create_file os w rd wr d) s) \<Longrightarrow>
    rt_io_open os path mode s = (r, s') \<Longrightarrow> io_reach distinct_streams s'"
| closed: "io_reach distinct_streams s \<Longrightarrow> rt_io_close handle s = (r, s') \<Longrightarrow> io_reach distinct_streams s'"
| registered: "io_reach distinct_streams s \<Longrightarrow> (distinct_streams \<longrightarrow> h \<notin> os_open s) \<Longrightarrow>
    rt_io_core_register_handle h s = (r, s') \<Longrightarrow> io_reach distinct_streams s'"
| handler: "io_reach distinct_streams s \<Longrightarrow>
    io_reach distinct_streams (rt_io_core_set_invalid_handle_handler b s)"
| reset: "io_reach distinct_streams s \<Longrightarrow> io_reach distinct_streams (rt_io_core_reset s)"

lemma table_first_free:
  assumes "io_inv s"
  shows "rt_io_table_first_free s = 0 \<longleftrightarrow> open_count s = RT_IO_TABLE_CAPACITY"
    and "rt_io_table_first_free s \<noteq> 0 \<Longrightarrow> rt_io_table_first_free s \<le> RT_IO_TABLE_CAPACITY \<and>
      handles s ! rt_io_table_first_free s = 0 \<and>
      (\<forall>j. 0 < j \<and> j < rt_io_table_first_free s \<longrightarrow> handles s ! j \<noteq> 0)"
proof -
  from assms obtain t where t: "handles s = 0 # t" "length t = RT_IO_TABLE_CAPACITY"
    and oc: "open_count s = length (filter (\<lambda>h. h \<noteq> 0) t)"
    by (cases "handles s") (auto simp: io_inv_def)
  have "length (filter (\<lambda>h. h \<noteq> 0) t) = length t \<longleftrightarrow> (\<forall>x \<in> set t. x \<noteq> 0)"
  proof
    show "length (filter (\<lambda>h. h \<noteq> 0) t) = length t \<Longrightarrow> \<forall>x \<in> set t. x \<noteq> 0"
      using length_filter_less [of _ t "\<lambda>h. h \<noteq> 0"] by (metis less_irrefl)
  qed simp
  then show "rt_io_table_first_free s = 0 \<longleftrightarrow> open_count s = RT_IO_TABLE_CAPACITY"
    using t oc first_index_None [of "\<lambda>h. h = 0" t]
    by (cases "first_index (\<lambda>h. h = 0) t") (simp_all add: rt_io_table_first_free_def)
  assume "rt_io_table_first_free s \<noteq> 0"
  then obtain i where i: "first_index (\<lambda>h. h = 0) t = Some i" "rt_io_table_first_free s = i + 1"
    using t by (auto simp: rt_io_table_first_free_def split: option.splits)
  from first_index_SomeD [OF i(1)] show "rt_io_table_first_free s \<le> RT_IO_TABLE_CAPACITY \<and>
      handles s ! rt_io_table_first_free s = 0 \<and>
      (\<forall>j. 0 < j \<and> j < rt_io_table_first_free s \<longrightarrow> handles s ! j \<noteq> 0)"
    unfolding i(2) t(1) using t(2) by (auto simp: gr0_conv_Suc)
qed

text \<open>Putting an OS handle into the free slot, and clearing a slot, keep the invariants.\<close>

lemma io_invD:
  assumes "io_inv s"
  shows "length (handles s) = RT_IO_TABLE_CAPACITY + 1" and "handles s ! 0 = 0"
    and "open_count s = length (filter (\<lambda>h. h \<noteq> 0) (handles s))" and "os_open s \<subseteq> table_handles s"
  using assms unfolding io_inv_def by blast+

lemma io_inv_empty:
  assumes h: "handles s = replicate (RT_IO_TABLE_CAPACITY + 1) 0" and "open_count s = 0" "os_open s = {}"
  shows "io_inv s" and "io_owned s"
proof -
  have z: "handles s ! i = 0" if "i < RT_IO_TABLE_CAPACITY + 1" for i
    unfolding h by (rule nth_replicate [OF that])
  have e: "table_handles s = {}" by (auto simp: h table_handles_def simp del: replicate_Suc)
  show "io_inv s" using z assms by (simp add: io_inv_def e del: replicate_Suc)
  show "io_owned s" using z by (auto simp: io_owned_def e h simp del: replicate_Suc)
qed

lemma nonzero_update:
  assumes "i < length xs" and "xs ! i = 0" and "h \<noteq> (0::nat)"
  shows "{x \<in> set (xs[i := h]). x \<noteq> 0} = insert h {x \<in> set xs. x \<noteq> 0}"
  using assms
proof (induction xs arbitrary: i)
  case (Cons x xs)
  then show ?case by (cases i) auto
qed simp

lemma nonzero_clear:
  assumes "i < length xs"
  shows "{x \<in> set xs. x \<noteq> (0::nat)} - {xs ! i} \<subseteq> {x \<in> set (xs[i := 0]). x \<noteq> 0}"
    and "(\<And>j. j < length xs \<Longrightarrow> xs ! j = xs ! i \<Longrightarrow> j = i) \<Longrightarrow>
      {x \<in> set (xs[i := 0]). x \<noteq> 0} \<subseteq> {x \<in> set xs. x \<noteq> (0::nat)} - {xs ! i}"
proof -
  show "{x \<in> set xs. x \<noteq> (0::nat)} - {xs ! i} \<subseteq> {x \<in> set (xs[i := 0]). x \<noteq> 0}"
  proof
    fix x assume "x \<in> {x \<in> set xs. x \<noteq> 0} - {xs ! i}"
    then obtain j where j: "j < length xs" "xs ! j = x" "x \<noteq> 0" "x \<noteq> xs ! i" by (auto simp: in_set_conv_nth)
    then have "xs[i := 0] ! j = x" by (cases "j = i") auto
    with j show "x \<in> {x \<in> set (xs[i := 0]). x \<noteq> 0}" by (auto simp: in_set_conv_nth)
  qed
next
  assume u: "\<And>j. j < length xs \<Longrightarrow> xs ! j = xs ! i \<Longrightarrow> j = i"
  show "{x \<in> set (xs[i := 0]). x \<noteq> 0} \<subseteq> {x \<in> set xs. x \<noteq> (0::nat)} - {xs ! i}"
  proof
    fix x assume "x \<in> {x \<in> set (xs[i := 0]). x \<noteq> 0}"
    then obtain j where "j < length xs" "xs[i := 0] ! j = x" "x \<noteq> 0" by (auto simp: in_set_conv_nth)
    moreover from this have "j \<noteq> i" by auto
    ultimately show "x \<in> {x \<in> set xs. x \<noteq> 0} - {xs ! i}" using u [of j] by auto
  qed
qed

lemma io_inv_insert:
  assumes inv: "io_inv s" and slot: "slot \<noteq> 0" "slot \<le> RT_IO_TABLE_CAPACITY" "handles s ! slot = 0"
    and h: "h \<noteq> 0"
    and s': "handles s' = (handles s)[slot := h]" "open_count s' = open_count s + 1"
      "os_open s' = insert h (os_open s)"
  shows "io_inv s'" and "io_owned s \<Longrightarrow> h \<notin> os_open s \<Longrightarrow> io_owned s'"
proof -
  note i = io_invD [OF inv]
  have sl: "slot < length (handles s)" using i(1) slot by simp
  have t: "table_handles s' = insert h (table_handles s)"
    using nonzero_update [OF sl slot(3) h] by (simp add: s' table_handles_def)
  have "open_count s' = length (filter (\<lambda>h. h \<noteq> 0) (handles s'))"
    using length_filter_update [OF sl, of "\<lambda>h. h \<noteq> 0" h] i slot h by (simp add: s')
  then show "io_inv s'" using i slot t by (auto simp: io_inv_def s')
  assume o: "io_owned s" and f: "h \<notin> os_open s"
  have hn: "h \<noteq> handles s ! j" if "j < length (handles s)" for j
    using h o f nth_mem [OF that] by (auto simp: table_handles_def io_owned_def)
  have "j = k" if b: "j < length (handles s')" "k < length (handles s')"
      "handles s' ! j = handles s' ! k" "handles s' ! j \<noteq> 0" for j k
  proof -
    have b': "j < length (handles s)" "k < length (handles s)" using b by (simp_all add: s')
    show ?thesis
      using b(3,4) o b' hn [OF b'(1)] hn [OF b'(2)] sl
      by (cases "j = slot"; cases "k = slot") (simp_all add: s' io_owned_def)
  qed
  with o t show "io_owned s'" unfolding io_owned_def s'(3) by blast
qed

lemma io_inv_clear:
  assumes inv: "io_inv s" and v: "rt_io_core_handle_is_valid handle s"
    and s': "handles s' = (handles s)[handle := 0]" "open_count s' = open_count s - 1"
      "os_open s' = os_open s - {handles s ! handle}"
  shows "io_inv s'" and "io_owned s \<Longrightarrow> io_owned s'"
proof -
  note i = io_invD [OF inv]
  have sl: "handle < length (handles s)" "handle \<noteq> 0" "handles s ! handle \<noteq> 0"
    using v i(1) by (simp_all add: rt_io_core_handle_is_valid_def)
  have "open_count s' = length (filter (\<lambda>h. h \<noteq> 0) (handles s'))"
    using length_filter_update [OF sl(1), of "\<lambda>h. h \<noteq> 0" 0] i(3) sl(3) by (simp add: s')
  moreover have "os_open s' \<subseteq> table_handles s'"
    using i(4) nonzero_clear(1) [OF sl(1)] by (auto simp: s' table_handles_def)
  ultimately show "io_inv s'" using i(1,2) sl by (simp add: io_inv_def s')
  assume o: "io_owned s"
  have uniq: "j = handle" if "j < length (handles s)" "handles s ! j = handles s ! handle" for j
    using o that sl(1,3) by (simp add: io_owned_def)
  have "j = k" if b: "j < length (handles s')" "k < length (handles s')"
      "handles s' ! j = handles s' ! k" "handles s' ! j \<noteq> 0" for j k
  proof -
    have b': "j < length (handles s)" "k < length (handles s)" using b(1,2) by (simp_all add: s')
    have "j \<noteq> handle" "k \<noteq> handle" using b(3,4) sl(1) by (auto simp: s')
    then have "handles s ! j = handles s ! k" "handles s ! j \<noteq> 0" using b(3,4) by (simp_all add: s')
    with o b' show ?thesis by (simp add: io_owned_def)
  qed
  moreover have "table_handles s' \<subseteq> os_open s'"
    using o nonzero_clear(2) [OF sl(1) uniq] by (auto simp: s' table_handles_def io_owned_def)
  ultimately show "io_owned s'" by (simp add: io_owned_def)
qed

text \<open>The contract of open: either a new valid handle in the lowest free slot for the OS handle
  created with the access and disposition of the mode, or 0 with nothing changed, the OS handle
  closed again.\<close>

lemma open_cases:
  assumes inv: "io_inv s"
    and os: "\<And>w rd wr d. create_file os w rd wr d = INVALID_HANDLE_VALUE \<or> fresh_handle (create_file os w rd wr d) s"
    and e: "rt_io_open os path mode s = (r, s')"
  shows "r = 0 \<and> s' = s \<or>
    (r = rt_io_table_first_free s \<and> r \<noteq> 0 \<and> (\<exists>w rd wr d. open_mode mode = Some (rd, wr, d) \<and>
       multi_byte os path = Some w \<and>
       fresh_handle (create_file os w rd wr d) s \<and>
       s' = s\<lparr>handles := (handles s)[r := create_file os w rd wr d], open_count := open_count s + 1,
              os_open := insert (create_file os w rd wr d) (os_open s)\<rparr>))"
proof (cases "open_mode mode = None \<or> RT_IO_PATH_MAX_BYTES < length path \<or> multi_byte os path = None")
  case True
  with e show ?thesis by (auto simp: rt_io_open_def simp del: open_mode.simps split: option.splits)
next
  case False
  then obtain rd wr d w where m: "open_mode mode = Some (rd, wr, d)" "multi_byte os path = Some w"
    by (cases "open_mode mode") auto
  let ?h = "create_file os w rd wr d"
  have ff: "rt_io_table_first_free (s\<lparr>os_open := X\<rparr>) = rt_io_table_first_free s" for X
    by (simp add: rt_io_table_first_free_def)
  show ?thesis
  proof (cases "?h = INVALID_HANDLE_VALUE")
    case True
    with e m False show ?thesis by (simp add: rt_io_open_def del: open_mode.simps)
  next
    case h: False
    with os have fr: "fresh_handle ?h s" by blast
    from fr have d: "os_open s - {?h} = os_open s" by (auto simp: fresh_handle_def)
    define s1 where "s1 = s\<lparr>os_open := insert ?h (os_open s)\<rparr>"
    have c1: "close_os ?h s1 = s" using d by (simp add: close_os_def s1_def)
    have f1: "rt_io_table_first_free s1 = rt_io_table_first_free s" by (simp add: s1_def ff)
    consider "mode = 2 \<and> \<not> seek_end os ?h" | "\<not> (mode = 2 \<and> \<not> seek_end os ?h)" "rt_io_table_first_free s = 0"
      | "\<not> (mode = 2 \<and> \<not> seek_end os ?h)" "rt_io_table_first_free s \<noteq> 0" by blast
    then show ?thesis
    proof cases
      case 1
      with e m False h show ?thesis
        by (simp add: rt_io_open_def Let_def s1_def [symmetric] c1 del: open_mode.simps)
    next
      case 2
      with e m False h show ?thesis
        unfolding rt_io_open_def m option.case prod.case Let_def s1_def [symmetric] f1
        by (auto simp: c1 simp del: open_mode.simps)
    next
      case 3
      with e m False h have "r = rt_io_table_first_free s"
        "s' = s1\<lparr>handles := (handles s1)[rt_io_table_first_free s := ?h], open_count := open_count s1 + 1\<rparr>"
        unfolding rt_io_open_def m option.case prod.case Let_def s1_def [symmetric] f1
        by (auto simp del: open_mode.simps)
      with 3 m fr show ?thesis by (simp add: s1_def)
    qed
  qed
qed

lemma io_reach_inv: "io_reach fr s \<Longrightarrow> io_inv s \<and> (fr \<longrightarrow> io_owned s)"
proof (induction rule: io_reach.induct)
  case init
  show ?case using io_inv_empty [of io_init] by (simp add: io_init_def)
next
  case (opened s os path mode r s')
  note inv = conjunct1 [OF opened.IH]
  from open_cases [OF inv opened.hyps(2,3)] show ?case
  proof (elim disjE conjE exE)
    fix w rd wr d
    assume r: "r = rt_io_table_first_free s" "r \<noteq> 0" and fr: "fresh_handle (create_file os w rd wr d) s"
      and s': "s' = s\<lparr>handles := (handles s)[r := create_file os w rd wr d], open_count := open_count s + 1,
              os_open := insert (create_file os w rd wr d) (os_open s)\<rparr>"
    from table_first_free(2) [OF inv] r have "r \<le> RT_IO_TABLE_CAPACITY" "handles s ! r = 0" by auto
    from io_inv_insert [OF inv r(2) this, of "create_file os w rd wr d" s'] fr opened.IH
    show ?thesis by (simp add: s' fresh_handle_def)
  qed (use opened.IH in simp)
next
  case (closed s handle r s')
  show ?case
  proof (cases "rt_io_core_handle_is_valid handle s")
    case True
    with closed.hyps(2) io_inv_clear [OF conjunct1 [OF closed.IH] True, of s'] closed.IH show ?thesis
      by (auto simp: rt_io_close_def close_os_def)
  qed (insert closed, simp add: rt_io_close_def)
next
  case (registered s h r s')
  note inv = conjunct1 [OF registered.IH]
  show ?case
  proof (cases "h = 0 \<or> h = INVALID_HANDLE_VALUE \<or> rt_io_table_first_free s = 0")
    case True
    with registered.hyps(3) have "s' = s"
      by (auto simp: rt_io_core_register_handle_def Let_def split: if_splits)
    with registered.IH show ?thesis by simp
  next
    case False
    from table_first_free(2) [OF inv] False
    have sl: "rt_io_table_first_free s \<le> RT_IO_TABLE_CAPACITY" "handles s ! rt_io_table_first_free s = 0"
      by auto
    have s': "handles s' = (handles s)[rt_io_table_first_free s := h]" "open_count s' = open_count s + 1"
      "os_open s' = insert h (os_open s)"
      using registered.hyps(3) False by (auto simp: rt_io_core_register_handle_def Let_def)
    have "rt_io_table_first_free s \<noteq> 0" "h \<noteq> 0" using False by simp_all
    from io_inv_insert [OF inv this(1) sl this(2) s'] registered.IH registered.hyps(2) show ?thesis by blast
  qed
next
  case (handler s b)
  then show ?case
    by (simp add: io_inv_def io_owned_def rt_io_core_set_invalid_handle_handler_def table_handles_def)
next
  case (reset s)
  from reset.IH obtain t where t: "handles s = 0 # t" by (cases "handles s") (auto simp: io_inv_def)
  with reset.IH have "os_open s \<subseteq> {h \<in> set t. h \<noteq> 0}" by (auto simp: io_inv_def table_handles_def)
  then show ?case using io_inv_empty [of "rt_io_core_reset s"] by (simp add: rt_io_core_reset_def t)
qed

section \<open>Properties\<close>

definition io_demo_os :: io_os where
  "io_demo_os = \<lparr>multi_byte = (\<lambda>p. Some (map of_char p)), create_file = (\<lambda>w rd wr d. 4660),
     seek_end = (\<lambda>h. True), read_file = (\<lambda>h n. Some n), write_file = (\<lambda>h n. Some n), std_handle = 0\<rparr>"

lemma io_demo_fresh: "create_file io_demo_os w rd wr d = INVALID_HANDLE_VALUE \<or>
    fresh_handle (create_file io_demo_os w rd wr d) io_init"
  by (simp add: io_demo_os_def fresh_handle_def io_init_def)

lemma io_demo_open: "rt_io_open io_demo_os ''a'' 2 io_init = (1, snd (rt_io_open io_demo_os ''a'' 2 io_init))"
proof -
  have "first_index (\<lambda>h. h = (0::nat)) (replicate RT_IO_TABLE_CAPACITY 0) = Some 0"
    by (simp add: first_index_replicate RT_IO_TABLE_CAPACITY_def)
  then show ?thesis
    by (simp add: rt_io_open_def io_demo_os_def Let_def rt_io_table_first_free_def io_init_def
        RT_IO_PATH_MAX_BYTES_def INVALID_HANDLE_VALUE_def)
qed

text \<open>C23: whatever sequence of opens, closes, registrations and resets runs: the open count is the
  number of occupied slots and at most the capacity, slot 0 stays reserved, and every OS handle that
  is still open is in the table, so that no failure path leaks one. If, besides, no registered
  handle was open already (\<open>io_reach True\<close>; the code does not check it, and \<open>GetStdHandle\<close> may give one handle for
  two streams), no OS handle is in two slots and every slot's handle is open, so none is closed twice.
  The OS is assumed to answer \<open>CreateFileW\<close> with a failure or a handle that is not NULL and not open.\<close>

theorem handle_table_invariant:
  assumes "io_reach fr s"
  shows "open_count s = length (filter (\<lambda>h. h \<noteq> 0) (handles s)) \<and>
    open_count s \<le> RT_IO_TABLE_CAPACITY \<and> \<not> rt_io_core_handle_is_valid 0 s \<and>
    os_open s \<subseteq> {handles s ! i | i. rt_io_core_handle_is_valid i s} \<and>
    (fr \<longrightarrow>
      (\<forall>i j. rt_io_core_handle_is_valid i s \<and> rt_io_core_handle_is_valid j s \<and> handles s ! i = handles s ! j
         \<longrightarrow> i = j) \<and>
      {handles s ! i | i. rt_io_core_handle_is_valid i s} \<subseteq> os_open s)"
proof -
  have inv: "io_inv s" and o: "fr \<Longrightarrow> io_owned s" using io_reach_inv [OF assms] by simp_all
  note i = io_invD [OF inv]
  obtain t where t: "handles s = 0 # t" "length t = RT_IO_TABLE_CAPACITY"
    using i(1,2) by (cases "handles s") auto
  have "open_count s \<le> RT_IO_TABLE_CAPACITY"
    unfolding i(3) using t length_filter_le [of "\<lambda>h. h \<noteq> 0" t] by simp
  moreover have "i = j" if "fr" "rt_io_core_handle_is_valid i s" "rt_io_core_handle_is_valid j s"
    "handles s ! i = handles s ! j" for i j
    using that i(1) o by (simp add: rt_io_core_handle_is_valid_def io_owned_def)
  moreover have "table_handles s = {handles s ! i | i. rt_io_core_handle_is_valid i s}"
  proof (intro set_eqI iffI)
    fix x assume "x \<in> table_handles s"
    then obtain k where k: "k < length (handles s)" "handles s ! k = x" "x \<noteq> 0"
      by (auto simp: table_handles_def in_set_conv_nth)
    with i(2) have "k \<noteq> 0" by metis
    with k i(1) show "x \<in> {handles s ! i | i. rt_io_core_handle_is_valid i s}"
      by (auto simp: rt_io_core_handle_is_valid_def)
  next
    fix x assume "x \<in> {handles s ! i | i. rt_io_core_handle_is_valid i s}"
    with i(1) show "x \<in> table_handles s"
      by (auto simp: rt_io_core_handle_is_valid_def table_handles_def)
  qed
  moreover have "\<not> rt_io_core_handle_is_valid 0 s" by (simp add: rt_io_core_handle_is_valid_def)
  ultimately show ?thesis using i(3,4) o unfolding io_owned_def by blast
qed

lemma handle_table_invariant_witness:
  "let s = snd (rt_io_open io_demo_os ''a'' 2 io_init) in
   open_count s = length (filter (\<lambda>h. h \<noteq> 0) (handles s)) \<and>
   {handles s ! i | i. rt_io_core_handle_is_valid i s} \<subseteq> os_open s"
  using handle_table_invariant [OF io_reach.opened [OF io_reach.init [of True] io_demo_fresh io_demo_open]]
  unfolding Let_def by blast

text \<open>What the language specification (section 15.2) gives for the modes: read, write and truncate,
  append, read and write and truncate.\<close>

definition requested_file :: "io_os \<Rightarrow> nat list \<Rightarrow> nat \<Rightarrow> nat" where
  "requested_file os wide mode =
     (case [(True, False, OPEN_EXISTING), (False, True, CREATE_ALWAYS), (False, True, OPEN_ALWAYS),
            (True, True, CREATE_ALWAYS)] ! mode of
        (rd, wr, disp) \<Rightarrow> create_file os wide rd wr disp)"

lemma requested_file: "open_mode mode = Some (rd, wr, d) \<Longrightarrow> requested_file os w mode = create_file os w rd wr d"
  by (auto simp: requested_file_def numeral_3_eq_3 numeral_2_eq_2 split: if_split_asm)

lemma open_mode_None: "open_mode mode = None \<longleftrightarrow> 3 < mode"
  by auto

text \<open>C24: open fails, with 0 and the runtime state as it was, exactly if the mode is not one of the
  four, the path is too long or does not convert, the OS refuses the file with the access and disposition
  of the mode, the end of a file to append to cannot be found, or the table is full. Otherwise it
  returns the lowest free handle, binds it to the OS handle created for this mode, and changes
  nothing else.\<close>

theorem open_correct:
  assumes "io_reach fr s"
    and "\<And>w rd wr d. create_file os w rd wr d = INVALID_HANDLE_VALUE \<or> fresh_handle (create_file os w rd wr d) s"
    and "rt_io_open os path mode s = (r, s')"
  shows "(r = 0 \<longleftrightarrow> 3 < mode \<or> RT_IO_PATH_MAX_BYTES < length path \<or>
      (case multi_byte os path of
         None \<Rightarrow> True
       | Some w \<Rightarrow> requested_file os w mode = INVALID_HANDLE_VALUE \<or>
           mode = 2 \<and> \<not> seek_end os (requested_file os w mode)) \<or>
      open_count s = RT_IO_TABLE_CAPACITY) \<and>
    (r = 0 \<longrightarrow> s' = s) \<and>
    (r \<noteq> 0 \<longrightarrow> r \<le> RT_IO_TABLE_CAPACITY \<and> \<not> rt_io_core_handle_is_valid r s \<and>
       (\<forall>j < r. 0 < j \<longrightarrow> rt_io_core_handle_is_valid j s) \<and>
       (\<exists>w. multi_byte os path = Some w \<and> handles s' ! r = requested_file os w mode \<and>
          rt_io_core_handle_is_valid r s' \<and>
          s' = s\<lparr>handles := (handles s)[r := requested_file os w mode], open_count := open_count s + 1,
                 os_open := insert (requested_file os w mode) (os_open s)\<rparr>))"
proof -
  have inv: "io_inv s" using io_reach_inv [OF assms(1)] by simp
  note i = io_invD [OF inv]
  have ff: "rt_io_table_first_free (s\<lparr>os_open := X\<rparr>) = rt_io_table_first_free s" for X
    by (simp add: rt_io_table_first_free_def)
  have zero: "r = 0 \<longleftrightarrow> open_mode mode = None \<or> RT_IO_PATH_MAX_BYTES < length path \<or>
      (case multi_byte os path of
         None \<Rightarrow> True
       | Some w \<Rightarrow> requested_file os w mode = INVALID_HANDLE_VALUE \<or>
           mode = 2 \<and> \<not> seek_end os (requested_file os w mode)) \<or>
      rt_io_table_first_free s = 0"
    using assms(3)
    by (auto simp: rt_io_open_def requested_file Let_def ff simp del: open_mode.simps split: option.splits if_splits)
  from open_cases [OF inv assms(2,3)]
  have "(r = 0 \<longrightarrow> s' = s) \<and>
    (r \<noteq> 0 \<longrightarrow> r \<le> RT_IO_TABLE_CAPACITY \<and> \<not> rt_io_core_handle_is_valid r s \<and>
       (\<forall>j < r. 0 < j \<longrightarrow> rt_io_core_handle_is_valid j s) \<and>
       (\<exists>w. multi_byte os path = Some w \<and> handles s' ! r = requested_file os w mode \<and>
          rt_io_core_handle_is_valid r s' \<and>
          s' = s\<lparr>handles := (handles s)[r := requested_file os w mode], open_count := open_count s + 1,
                 os_open := insert (requested_file os w mode) (os_open s)\<rparr>))"
  proof (elim disjE conjE exE)
    fix w rd wr d
    assume r: "r = rt_io_table_first_free s" "r \<noteq> 0" and fr: "fresh_handle (create_file os w rd wr d) s"
      and m: "open_mode mode = Some (rd, wr, d)" "multi_byte os path = Some w"
      and s': "s' = s\<lparr>handles := (handles s)[r := create_file os w rd wr d], open_count := open_count s + 1,
              os_open := insert (create_file os w rd wr d) (os_open s)\<rparr>"
    from table_first_free(2) [OF inv] r have f: "r \<le> RT_IO_TABLE_CAPACITY" "handles s ! r = 0"
      "\<And>j. 0 < j \<Longrightarrow> j < r \<Longrightarrow> handles s ! j \<noteq> 0" by auto
    then show ?thesis
      using i(1) fr r m
      by (simp add: s' requested_file [OF m(1)] rt_io_core_handle_is_valid_def fresh_handle_def)
  qed simp
  with zero [unfolded open_mode_None table_first_free(1) [OF inv]] show ?thesis by blast
qed

lemma open_correct_witness:
  "rt_io_core_handle_is_valid 1 (snd (rt_io_open io_demo_os ''a'' 2 io_init)) \<and>
   handles (snd (rt_io_open io_demo_os ''a'' 2 io_init)) ! 1 = 4660"
  using open_correct [OF io_reach.init [of True] io_demo_fresh io_demo_open]
  by (auto simp: requested_file_def io_demo_os_def)

text \<open>C39: a read or write on an invalid handle touches no file and returns 0, delivering the operation
  and handle to the handler when one is installed; on a valid handle a read asking for more than the
  buffer holds raises the AIC-R0807 trap, and every request passed to the OS fits both the buffer
  and a DWORD.\<close>

theorem io_requests_bounded:
  "(\<not> rt_io_core_handle_is_valid handle s \<longrightarrow>
      rt_io_read os handle buf_len cnt s
        = (if has_handler s then RetHandled 0 IO_OP_READ handle else Ret 0) \<and>
      rt_io_write os handle buf_len cnt s
        = (if has_handler s then RetHandled 0 IO_OP_WRITE handle else Ret 0)) \<and>
   (rt_io_core_handle_is_valid handle s \<longrightarrow>
      (rt_io_read os handle buf_len cnt s = TrapReadBuf handle buf_len cnt \<longleftrightarrow> buf_len < cnt) \<and>
      (cnt \<le> buf_len \<longrightarrow> rt_io_read os handle buf_len cnt s = Ret 0 \<or>
         (\<exists>n got. 0 < n \<and> n \<le> buf_len \<and> n \<le> cnt \<and> n < 2 ^ 32 \<and> read_file os (handles s ! handle) n = Some got \<and>
            rt_io_read os handle buf_len cnt s = Ret got)) \<and>
      (rt_io_write os handle buf_len cnt s = Ret 0 \<or>
         (\<exists>n wrote. 0 < n \<and> n \<le> buf_len \<and> n \<le> cnt \<and> n < 2 ^ 32 \<and>
            write_file os (handles s ! handle) n = Some wrote \<and>
            rt_io_write os handle buf_len cnt s = Ret wrote)))"
proof (cases "rt_io_core_handle_is_valid handle s")
  case False
  then show ?thesis by (simp add: rt_io_read_def rt_io_write_def invalid_handle_def)
next
  case True
  have c: "0 < n \<Longrightarrow> 0 < clamp_dword n \<and> clamp_dword n \<le> n \<and> clamp_dword n < 2 ^ 32" for n
    by (simp add: clamp_dword_def DWORD_MAX_def)
  define e where "e = (if cnt < buf_len then cnt else buf_len)"
  have eb: "e \<le> buf_len" "e \<le> cnt" by (simp_all add: e_def)
  have "rt_io_read os handle buf_len cnt s = TrapReadBuf handle buf_len cnt \<longleftrightarrow> buf_len < cnt"
    using True by (auto simp: rt_io_read_def split: option.splits)
  moreover have "rt_io_read os handle buf_len cnt s = Ret 0 \<or>
         (\<exists>n got. 0 < n \<and> n \<le> buf_len \<and> n \<le> cnt \<and> n < 2 ^ 32 \<and> read_file os (handles s ! handle) n = Some got \<and>
            rt_io_read os handle buf_len cnt s = Ret got)" if "cnt \<le> buf_len"
  proof (cases "cnt = 0 \<or> read_file os (handles s ! handle) (clamp_dword cnt) = None")
    case False
    then obtain got where "read_file os (handles s ! handle) (clamp_dword cnt) = Some got" "0 < cnt" by auto
    with c [of cnt] that True show ?thesis
      by (intro disjI2 exI [of _ "clamp_dword cnt"] exI [of _ got]) (simp add: rt_io_read_def)
  qed (insert True that, auto simp: rt_io_read_def)
  moreover have "rt_io_write os handle buf_len cnt s = Ret 0 \<or>
         (\<exists>n wrote. 0 < n \<and> n \<le> buf_len \<and> n \<le> cnt \<and> n < 2 ^ 32 \<and>
            write_file os (handles s ! handle) n = Some wrote \<and>
            rt_io_write os handle buf_len cnt s = Ret wrote)"
  proof (cases "e = 0 \<or> write_file os (handles s ! handle) (clamp_dword e) = None")
    case False
    then obtain n where "write_file os (handles s ! handle) (clamp_dword e) = Some n" "0 < e" by auto
    with c [of e] eb True show ?thesis
      by (intro disjI2 exI [of _ "clamp_dword e"] exI [of _ n])
        (simp add: rt_io_write_def e_def [symmetric])
  qed (insert True, auto simp: rt_io_write_def e_def [symmetric])
  ultimately show ?thesis using True by blast
qed

lemma io_requests_bounded_witness:
  "rt_io_read io_demo_os 0 0 8 io_init = Ret 0"
  using io_requests_bounded [of 0 io_init io_demo_os 0 8]
  by (simp add: rt_io_core_handle_is_valid_def io_init_def)

end
