(* ===== verification/Utf8.thy ===== *)
theory Utf8
  imports Prelude
begin

text \<open>
  UTF-8 as the specification the loader, the lexer and the runtime are held to: the encoding of a
  scalar value, texts that are sequences of encodings, and the decision procedure that looks at
  the first bytes only. The locale states what makes a validator correct; the validators of the
  source are interpretations of it in the theories that model them.
\<close>

section \<open>Encodings\<close>

definition is_scalar :: "nat \<Rightarrow> bool" where
  "is_scalar cp \<longleftrightarrow> cp < 0xD800 \<or> (0xE000 \<le> cp \<and> cp \<le> 0x10FFFF)"

definition utf8_bytes :: "nat \<Rightarrow> nat list" where
  "utf8_bytes cp =
     (if cp < 0x80 then [cp]
      else if cp < 0x800 then [0xC0 + cp div 64, 0x80 + cp mod 64]
      else if cp < 0x10000 then [0xE0 + cp div 4096, 0x80 + cp div 64 mod 64, 0x80 + cp mod 64]
      else [0xF0 + cp div 262144, 0x80 + cp div 4096 mod 64, 0x80 + cp div 64 mod 64, 0x80 + cp mod 64])"

definition utf8_enc :: "nat \<Rightarrow> string" where
  "utf8_enc cp = map char_of (utf8_bytes cp)"

definition utf8_text :: "string \<Rightarrow> bool" where
  "utf8_text s \<longleftrightarrow> (\<exists>cps. (\<forall>cp \<in> set cps. is_scalar cp) \<and> s = concat (map utf8_enc cps))"

section \<open>The first sequence of a byte string\<close>

abbreviation cont :: "nat \<Rightarrow> bool" where
  "cont b \<equiv> 0x80 \<le> b \<and> b \<le> 0xBF"

text \<open>The length of the well-formed sequence at the start (Unicode, table 3-7).\<close>

fun seq_len :: "nat list \<Rightarrow> nat option" where
  "seq_len [] = None"
| "seq_len (b # r) =
     (if b < 0x80 then Some 1
      else if 0xC2 \<le> b \<and> b \<le> 0xDF then
        (case r of c1 # _ \<Rightarrow> if cont c1 then Some 2 else None | _ \<Rightarrow> None)
      else if 0xE0 \<le> b \<and> b \<le> 0xEF then
        (case r of c1 # c2 # _ \<Rightarrow>
           if cont c1 \<and> cont c2 \<and> \<not> (b = 0xE0 \<and> c1 < 0xA0) \<and> \<not> (b = 0xED \<and> 0xA0 \<le> c1)
           then Some 3 else None
         | _ \<Rightarrow> None)
      else if 0xF0 \<le> b \<and> b \<le> 0xF4 then
        (case r of c1 # c2 # c3 # _ \<Rightarrow>
           if cont c1 \<and> cont c2 \<and> cont c3 \<and> \<not> (b = 0xF0 \<and> c1 < 0x90) \<and> \<not> (b = 0xF4 \<and> 0x90 \<le> c1)
           then Some 4 else None
         | _ \<Rightarrow> None)
      else None)"

definition utf8_seq :: "string \<Rightarrow> nat option" where
  "utf8_seq s = seq_len (map of_char s)"

lemma utf8_bytes_less: "is_scalar cp \<Longrightarrow> b \<in> set (utf8_bytes cp) \<Longrightarrow> b < 256"
proof -
  assume s: "is_scalar cp" and b: "b \<in> set (utf8_bytes cp)"
  have m: "n mod 64 < 64" for n :: nat by simp
  consider "cp < 0x80" | "0x80 \<le> cp" "cp < 0x800" | "0x800 \<le> cp" "cp < 0x10000"
    | "0x10000 \<le> cp" "cp \<le> 0x10FFFF"
    using s unfolding is_scalar_def by linarith
  then show "b < 256"
  proof cases
    case 1
    then show ?thesis using b by (simp add: utf8_bytes_def)
  next
    case 2
    then have "cp div 64 < 32" by (simp add: less_mult_imp_div_less)
    then show ?thesis using b 2 m [of cp] by (auto simp: utf8_bytes_def)
  next
    case 3
    then have "cp div 4096 < 16" by (simp add: less_mult_imp_div_less)
    then show ?thesis using b 3 m [of cp] m [of "cp div 64"] by (auto simp: utf8_bytes_def)
  next
    case 4
    then have "cp div 262144 < 5" by (simp add: less_mult_imp_div_less)
    then show ?thesis using b 4 m [of cp] m [of "cp div 64"] m [of "cp div 4096"]
      by (auto simp: utf8_bytes_def)
  qed
qed

lemma map_ub_utf8_enc: "is_scalar cp \<Longrightarrow> map of_char (utf8_enc cp) = utf8_bytes cp"
  unfolding utf8_enc_def map_map comp_def
  by (rule map_idI) (auto dest: utf8_bytes_less)

text \<open>An encoding is recognised as a first sequence of its length.\<close>

lemma seq_len_bytes:
  assumes "is_scalar cp"
  shows "seq_len (utf8_bytes cp @ r) = Some (length (utf8_bytes cp))"
proof -
  have m: "n mod 64 \<le> 63" for n :: nat by (simp add: less_Suc_eq_le [symmetric])
  consider "cp < 0x80" | "0x80 \<le> cp" "cp < 0x800" | "0x800 \<le> cp" "cp < 0x10000"
    | "0x10000 \<le> cp" "cp \<le> 0x10FFFF"
    using assms unfolding is_scalar_def by linarith
  then show ?thesis
  proof cases
    case 1
    then show ?thesis by (simp add: utf8_bytes_def)
  next
    case 2
    then have "2 \<le> cp div 64" "cp div 64 < 32" by (simp_all add: less_mult_imp_div_less div_le_mono [of 128 cp 64, simplified])
    with 2 m [of cp] show ?thesis by (simp add: utf8_bytes_def)
  next
    case 3
    have d: "cp div 4096 < 16" using 3 by (simp add: less_mult_imp_div_less)
    have split: "cp div 64 = 64 * (cp div 4096) + cp div 64 mod 64"
      by (simp add: div_mult2_eq [of cp 64 64, simplified])
    have lo: "32 \<le> cp div 64" using 3 div_le_mono [of 2048 cp 64] by simp
    have e0: "cp div 4096 = 0 \<Longrightarrow> 32 \<le> cp div 64 mod 64" using split lo by simp
    have ed: "cp div 4096 = 13 \<Longrightarrow> cp div 64 mod 64 < 32"
    proof -
      assume 13: "cp div 4096 = 13"
      then have "cp < 57344" using mult_div_mod_eq [of 4096 cp] mod_less_divisor [of 4096 cp] by linarith
      with assms have "cp < 55296" unfolding is_scalar_def by linarith
      then have "cp div 64 < 864" by (simp add: less_mult_imp_div_less)
      with split 13 show ?thesis by linarith
    qed
    show ?thesis using 3 d e0 ed m [of cp] m [of "cp div 64"]
      by (auto simp: utf8_bytes_def)
  next
    case 4
    have d: "cp div 262144 < 5" using 4 by (simp add: less_mult_imp_div_less)
    have split: "cp div 4096 = 64 * (cp div 262144) + cp div 4096 mod 64"
      by (simp add: div_mult2_eq [of cp 4096 64, simplified])
    have lo: "16 \<le> cp div 4096" using 4 div_le_mono [of 65536 cp 4096] by simp
    have hi: "cp div 4096 < 272" using 4 by (simp add: less_mult_imp_div_less)
    have f0: "cp div 262144 = 0 \<Longrightarrow> 16 \<le> cp div 4096 mod 64" using split lo by simp
    have f4: "cp div 262144 = 4 \<Longrightarrow> cp div 4096 mod 64 < 16" using split hi by simp
    show ?thesis using 4 d f0 f4 m [of cp] m [of "cp div 64"] m [of "cp div 4096"]
      by (auto simp: utf8_bytes_def)
  qed
qed

lemma split64: "z < 64 \<Longrightarrow> (q * 64 + z) div 64 = q \<and> (q * 64 + z) mod 64 = (z::nat)"
  by simp

text \<open>And every recognised sequence is the encoding of a scalar value.\<close>

lemma seq_len_decode:
  assumes "seq_len bs = Some n"
  shows "\<exists>cp. is_scalar cp \<and> take n bs = utf8_bytes cp \<and> n = length (utf8_bytes cp) \<and> n \<le> length bs"
proof -
  from assms obtain b r where bs: "bs = b # r" by (cases bs) auto
  consider "b < 0x80" | "0xC2 \<le> b" "b \<le> 0xDF" | "0xE0 \<le> b" "b \<le> 0xEF" | "0xF0 \<le> b" "b \<le> 0xF4"
    using assms unfolding bs seq_len.simps by (auto split: if_split_asm)
  then show ?thesis
  proof cases
    case 1
    with assms bs have "n = 1" by simp
    with 1 bs show ?thesis by (intro exI [of _ b]) (simp add: is_scalar_def utf8_bytes_def)
  next
    case 2
    with assms bs obtain c1 r' where r: "r = c1 # r'" "cont c1" "n = 2"
      by (auto split: list.splits if_split_asm)
    define x y where "x = b - 0xC0" and "y = c1 - 0x80"
    have xy: "b = 0xC0 + x" "c1 = 0x80 + y" "2 \<le> x" "x < 32" "y < 64"
      using 2 r by (auto simp: x_def y_def)
    let ?cp = "x * 64 + y"
    have "?cp div 64 = x" "?cp mod 64 = y" using xy(5) by simp_all
    moreover have "128 \<le> ?cp" "?cp < 2048" using xy by linarith+
    ultimately show ?thesis
      by (intro exI [of _ ?cp]) (simp add: is_scalar_def utf8_bytes_def bs r(1,3) xy(1,2))
  next
    case 3
    with assms bs obtain c1 c2 r' where r: "r = c1 # c2 # r'" "cont c1" "cont c2" "n = 3"
      "\<not> (b = 0xE0 \<and> c1 < 0xA0)" "\<not> (b = 0xED \<and> 0xA0 \<le> c1)"
      by (auto split: list.splits if_split_asm)
    define x y z where "x = b - 0xE0" and "y = c1 - 0x80" and "z = c2 - 0x80"
    have xyz: "b = 0xE0 + x" "c1 = 0x80 + y" "c2 = 0x80 + z" "x < 16" "y < 64" "z < 64"
      using 3 r by (auto simp: x_def y_def z_def)
    let ?cp = "(x * 64 + y) * 64 + z"
    have eq: "?cp = 4096 * x + 64 * y + z" by simp
    have d: "?cp div 64 = x * 64 + y" "?cp mod 64 = z"
      using split64 [OF xyz(6), of "x * 64 + y"] by auto
    then have "?cp div 4096 = x" "?cp div 64 mod 64 = y"
      using split64 [OF xyz(5), of x] div_mult2_eq [of ?cp 64 64] by simp_all
    moreover have "2048 \<le> ?cp"
    proof (cases "x = 0")
      case True
      then have "32 \<le> y" using xyz(1,2) r(5) by simp
      with True show ?thesis unfolding eq by linarith
    next
      case False
      then have "1 \<le> x" by simp
      then show ?thesis unfolding eq by linarith
    qed
    moreover have "?cp < 65536" unfolding eq using xyz by linarith
    moreover have "?cp < 55296 \<or> 57344 \<le> ?cp"
    proof (cases "x = 13")
      case True
      then have "y < 32" using xyz(1,2) r(6) by simp
      with True xyz(6) show ?thesis unfolding eq by linarith
    next
      case False
      then have "x \<le> 12 \<or> 14 \<le> x" by linarith
      then show ?thesis
      proof
        assume "x \<le> 12"
        with xyz(5,6) show ?thesis unfolding eq by linarith
      next
        assume "14 \<le> x"
        then show ?thesis unfolding eq by linarith
      qed
    qed
    ultimately show ?thesis using d
      by (intro exI [of _ ?cp]) (simp add: is_scalar_def utf8_bytes_def bs r(1,4) xyz(1-3))
  next
    case 4
    with assms bs obtain c1 c2 c3 r' where r: "r = c1 # c2 # c3 # r'" "cont c1" "cont c2" "cont c3" "n = 4"
      "\<not> (b = 0xF0 \<and> c1 < 0x90)" "\<not> (b = 0xF4 \<and> 0x90 \<le> c1)"
      by (auto split: list.splits if_split_asm)
    define x y z w where "x = b - 0xF0" and "y = c1 - 0x80" and "z = c2 - 0x80" and "w = c3 - 0x80"
    have xyz: "b = 0xF0 + x" "c1 = 0x80 + y" "c2 = 0x80 + z" "c3 = 0x80 + w" "x < 5" "y < 64" "z < 64" "w < 64"
      using 4 r by (auto simp: x_def y_def z_def w_def)
    let ?cp = "((x * 64 + y) * 64 + z) * 64 + w"
    have eq: "?cp = 262144 * x + 4096 * y + 64 * z + w" by simp
    have d: "?cp div 64 = (x * 64 + y) * 64 + z" "?cp mod 64 = w"
      using split64 [OF xyz(8), of "(x * 64 + y) * 64 + z"] by auto
    then have d2: "?cp div 4096 = x * 64 + y" "?cp div 64 mod 64 = z"
      using split64 [OF xyz(7), of "x * 64 + y"] div_mult2_eq [of ?cp 64 64] by simp_all
    then have "?cp div 262144 = x" "?cp div 4096 mod 64 = y"
      using split64 [OF xyz(6), of x] div_mult2_eq [of ?cp 4096 64] by simp_all
    moreover have "65536 \<le> ?cp"
    proof (cases "x = 0")
      case True
      then have "16 \<le> y" using xyz(1,2) r(6) by simp
      with True show ?thesis unfolding eq by linarith
    next
      case False
      then have "1 \<le> x" by simp
      then show ?thesis unfolding eq by linarith
    qed
    moreover have "?cp \<le> 1114111"
    proof (cases "x = 4")
      case True
      then have "y < 16" using xyz(1,2) r(7) by simp
      with True xyz show ?thesis unfolding eq by linarith
    next
      case False
      with xyz have "x \<le> 3" by simp
      with xyz show ?thesis unfolding eq by linarith
    qed
    ultimately show ?thesis using d d2
      by (intro exI [of _ ?cp]) (simp add: is_scalar_def utf8_bytes_def bs r(1,5) xyz(1-4))
  qed
qed

lemma utf8_seq_enc: "is_scalar cp \<Longrightarrow> utf8_seq (utf8_enc cp @ s) = Some (length (utf8_enc cp))"
  by (simp add: utf8_seq_def map_ub_utf8_enc seq_len_bytes) (simp add: utf8_enc_def)

lemma utf8_seq_decode:
  assumes "utf8_seq s = Some n"
  shows "\<exists>cp. is_scalar cp \<and> take n s = utf8_enc cp \<and> 0 < n \<and> n \<le> length s"
proof -
  from seq_len_decode [OF assms [unfolded utf8_seq_def]] obtain cp where
    cp: "is_scalar cp" "take n (map of_char s) = utf8_bytes cp" "n = length (utf8_bytes cp)" "n \<le> length s"
    by auto
  have "map ub (take n s) = map ub (utf8_enc cp)"
    using cp by (simp add: take_map map_ub_utf8_enc)
  then have "take n s = utf8_enc cp"
    by (rule map_injective) (simp add: inj_def ub_inject)
  moreover have "0 < n" using cp(3) by (simp add: utf8_bytes_def)
  ultimately show ?thesis using cp by blast
qed

section \<open>Validators\<close>

lemma utf8_text_Nil: "utf8_text []"
  unfolding utf8_text_def by (rule exI [of _ "[]"]) simp

lemma utf8_text_Cons:
  "is_scalar cp \<Longrightarrow> utf8_text s \<Longrightarrow> utf8_text (utf8_enc cp @ s)"
  unfolding utf8_text_def by (metis concat.simps(2) list.simps(9) set_ConsD)

locale utf8_validator =
  fixes valid :: "string \<Rightarrow> bool"
  assumes valid_Nil: "valid []"
    and valid_step: "s \<noteq> [] \<Longrightarrow>
      valid s \<longleftrightarrow> (case utf8_seq s of None \<Rightarrow> False | Some n \<Rightarrow> valid (drop n s))"
begin

lemma valid_text: "utf8_text s \<Longrightarrow> valid s"
proof -
  assume "utf8_text s"
  then obtain cps where "\<forall>cp \<in> set cps. is_scalar cp" and s: "s = concat (map utf8_enc cps)"
    unfolding utf8_text_def by blast
  then show ?thesis
    unfolding s
  proof (induction cps arbitrary: s)
    case (Cons cp cps)
    have ne: "utf8_enc cp \<noteq> []" by (simp add: utf8_enc_def utf8_bytes_def)
    have "utf8_seq (utf8_enc cp @ concat (map utf8_enc cps)) = Some (length (utf8_enc cp))"
      using Cons.prems by (intro utf8_seq_enc) simp
    with Cons ne show ?case by (simp add: valid_step)
  qed (simp add: valid_Nil)
qed

lemma text_valid: "valid s \<Longrightarrow> utf8_text s"
proof (induction s rule: length_induct)
  case (1 s)
  show ?case
  proof (cases "s = []")
    case False
    with 1 obtain n where n: "utf8_seq s = Some n" "valid (drop n s)"
      by (auto simp: valid_step split: option.splits)
    from utf8_seq_decode [OF n(1)] obtain cp where
      cp: "is_scalar cp" "take n s = utf8_enc cp" "0 < n" "n \<le> length s" by blast
    have "utf8_text (drop n s)" using 1 n(2) cp(3,4) by auto
    from utf8_text_Cons [OF cp(1) this] show ?thesis
      unfolding cp(2) [symmetric] by simp
  qed (simp add: utf8_text_Nil)
qed

lemma valid_iff: "valid s \<longleftrightarrow> utf8_text s"
  using valid_text text_valid by blast

end

text \<open>The reference validator: sequence after sequence.\<close>

function utf8_check :: "string \<Rightarrow> bool" where
  "utf8_check s =
     (if s = [] then True
      else (case utf8_seq s of None \<Rightarrow> False | Some n \<Rightarrow> utf8_check (drop n s)))"
  by pat_completeness auto
termination
  by (relation "measure length") (auto dest: utf8_seq_decode)

declare utf8_check.simps [simp del]

interpretation utf8_check: utf8_validator utf8_check
  by unfold_locales (simp_all add: utf8_check.simps)

lemma utf8_text_step:
  "s \<noteq> [] \<Longrightarrow> utf8_text s \<longleftrightarrow> (case utf8_seq s of None \<Rightarrow> False | Some n \<Rightarrow> utf8_text (drop n s))"
  unfolding utf8_check.valid_iff [symmetric] by (rule utf8_check.valid_step)

lemma utf8_text_ascii: "ub c < 0x80 \<Longrightarrow> utf8_text (c # s) \<longleftrightarrow> utf8_text s"
  by (subst utf8_text_step) (simp_all add: utf8_seq_def)

end

