(* ===== verification/Load.thy ===== *)
theory Load
  imports Diag Utf8
begin

text \<open>
  The source loader \<open>bootstrap/src/load/load.c\<close>: normalisation of line terminators with the index of
  line starts, position lookup by binary search, the validation pass with its lexical contexts,
  and \<open>load_source_from_bytes\<close>. Texts are lists of bytes with the C indices; heap allocation
  succeeds and the file reading of \<open>load_source_from_file\<close> is outside the model.
\<close>

abbreviation LF :: char where "LF \<equiv> CHR 0x0A"
abbreviation CR :: char where "CR \<equiv> CHR 0x0D"
abbreviation QUOTE :: char where "QUOTE \<equiv> CHR 0x22"
abbreviation BSLASH :: char where "BSLASH \<equiv> CHR 0x5C"

section \<open>Normalisation\<close>

function norm_loop :: "string \<Rightarrow> string \<Rightarrow> nat list \<Rightarrow> string \<times> nat list" where
  "norm_loop [] text starts = (text, starts)"
| "norm_loop (c # r) text starts =
     (if c = CR \<and> r \<noteq> [] \<and> hd r = LF
      then norm_loop (tl r) (text @ [LF]) (starts @ [length text + 1])
      else norm_loop r (text @ [c]) (if c = LF then starts @ [length text + 1] else starts))"
  by pat_completeness auto
termination by (relation "measure (\<lambda>(inp, text, starts). length inp)") (auto simp: neq_Nil_conv)

text \<open>The normalized text and the line-start index.\<close>

definition normalize_bytes :: "string \<Rightarrow> string \<times> nat list" where
  "normalize_bytes inp = norm_loop inp [] [0]"

section \<open>Positions\<close>

text \<open>The binary search of \<open>position_at\<close> on \<open>starts[0 .. n)\<close>.\<close>

function position_search :: "nat list \<Rightarrow> int \<Rightarrow> int \<Rightarrow> int \<Rightarrow> int \<Rightarrow> int" where
  "position_search starts offset lo hi ans =
     (if lo \<le> hi then
        let mid = lo + (hi - lo) div 2
        in if int (starts ! nat mid) \<le> offset
           then position_search starts offset (mid + 1) hi mid
           else position_search starts offset lo (mid - 1) ans
      else ans)"
  by pat_completeness auto
termination
  by (relation "measure (\<lambda>(starts, offset, lo, hi, ans). nat (hi - lo + 1))") auto

declare position_search.simps [simp del]

definition position_at :: "nat list \<Rightarrow> int \<Rightarrow> int \<times> int" where
  "position_at starts offset =
     (let ans = position_search starts offset 0 (int (length starts) - 1) 0
      in (ans + 1, offset - int (starts ! nat ans) + 1))"

record load_source =
  src_file :: string
  src_text :: string
  src_line_starts :: "nat list"

definition load_position :: "load_source \<Rightarrow> int \<Rightarrow> (int \<times> int) option" where
  "load_position src offset =
     (if offset < 0 \<or> int (length (src_text src)) < offset then None
      else Some (position_at (src_line_starts src) offset))"

definition load_span_point :: "load_source \<Rightarrow> int \<Rightarrow> diag_span option" where
  "load_span_point src offset =
     (case load_position src offset of None \<Rightarrow> None
      | Some (line, col) \<Rightarrow> Some (diag_span_new_point (src_file src) line col offset))"

definition load_span_range :: "load_source \<Rightarrow> int \<Rightarrow> int \<Rightarrow> diag_span option" where
  "load_span_range src s e =
     (if s < 0 \<or> e < s \<or> int (length (src_text src)) < e then None
      else (case position_at (src_line_starts src) s of (sl, sc) \<Rightarrow>
              (case position_at (src_line_starts src) e of (el, ec) \<Rightarrow>
                 Some (diag_span_new_range (src_file src) sl sc s el ec e))))"

section \<open>The validation pass\<close>

datatype scan_ctx = SCAN_CODE | SCAN_LINE_COMMENT | SCAN_BLOCK_COMMENT | SCAN_STRING

text \<open>A diagnostic of the pass: code, message and the byte range.\<close>

type_synonym scan_err = "string \<times> string \<times> nat \<times> nat"

definition scan_add_invalid :: "nat \<Rightarrow> nat \<Rightarrow> scan_err" where
  "scan_add_invalid s e = (''AIC-L0001'', ''invalid UTF-8 sequence'', s, e)"

text \<open>\<open>consume_continuations\<close>: the loop from \<open>k\<close> with \<open>n\<close> bytes still needed.\<close>

fun consume_continuations :: "string \<Rightarrow> nat \<Rightarrow> nat \<Rightarrow> nat \<Rightarrow> nat \<times> bool" where
  "consume_continuations text i k 0 = (i + k, True)"
| "consume_continuations text i k (Suc n) =
     (if length text \<le> i + k then (i + k, False)
      else if ub (text ! (i + k)) < 0x80 \<or> 0xBF < ub (text ! (i + k)) then (i + k, False)
      else consume_continuations text i (k + 1) n)"

text \<open>The code points are assembled from disjoint bit fields, so \<open><<\<close>, \<open>&\<close> and \<open>|\<close> are multiplication,
  remainder and addition.\<close>

definition scan_utf8_sequence :: "string \<Rightarrow> nat \<Rightarrow> scan_err list \<times> nat" where
  "scan_utf8_sequence text i =
     (let b = ub (text ! i) in
      if 0xC2 \<le> b \<and> b \<le> 0xDF then
        (case consume_continuations text i 1 1 of
           (k, ok) \<Rightarrow> if \<not> ok then ([scan_add_invalid i k], k - i) else ([], 2))
      else if 0xE0 \<le> b \<and> b \<le> 0xEF then
        (case consume_continuations text i 1 2 of
           (k, ok) \<Rightarrow>
             if \<not> ok then ([scan_add_invalid i k], k - i)
             else let cp = b mod 16 * 4096 + ub (text ! (i + 1)) mod 64 * 64 + ub (text ! (i + 2)) mod 64
               in if cp < 0x800 \<or> (0xD800 \<le> cp \<and> cp \<le> 0xDFFF)
                  then ([scan_add_invalid i (i + 3)], 3) else ([], 3))
      else if 0xF0 \<le> b \<and> b \<le> 0xF4 then
        (case consume_continuations text i 1 3 of
           (k, ok) \<Rightarrow>
             if \<not> ok then ([scan_add_invalid i k], k - i)
             else let cp = b mod 8 * 262144 + ub (text ! (i + 1)) mod 64 * 4096
                        + ub (text ! (i + 2)) mod 64 * 64 + ub (text ! (i + 3)) mod 64
               in if cp < 0x10000 \<or> 0x10FFFF < cp
                  then ([scan_add_invalid i (i + 4)], 4) else ([], 4))
      else ([scan_add_invalid i (i + 1)], 1))"

text \<open>One iteration of the loop of \<open>scan_text\<close> at index \<open>i\<close>: the next context, the next index and the
  diagnostics added.\<close>

definition scan_step :: "string \<Rightarrow> scan_ctx \<Rightarrow> nat \<Rightarrow> scan_ctx \<times> nat \<times> scan_err list" where
  "scan_step text ctx i =
     (let c = text ! i; next_is = (\<lambda>d. i + 1 < length text \<and> text ! (i + 1) = d) in
      case ctx of
        SCAN_CODE \<Rightarrow>
          if c = CHR ''/'' \<and> next_is (CHR ''/'') then (SCAN_LINE_COMMENT, i + 2, [])
          else if c = CHR ''/'' \<and> next_is (CHR ''*'') then (SCAN_BLOCK_COMMENT, i + 2, [])
          else if c = QUOTE then (SCAN_STRING, i + 1, [])
          else if c = CHR 0x00 then
            (SCAN_CODE, i + 1, [(''AIC-L0003'', ''NUL byte in source'', i, i + 1)])
          else if ub c < 0x80 then (SCAN_CODE, i + 1, [])
          else (case scan_utf8_sequence text i of (es, n) \<Rightarrow> (SCAN_CODE, i + n, es))
      | SCAN_LINE_COMMENT \<Rightarrow>
          if c = LF then (SCAN_CODE, i + 1, [])
          else if 0x80 \<le> ub c then
            (case scan_utf8_sequence text i of (es, n) \<Rightarrow> (SCAN_LINE_COMMENT, i + n, es))
          else (SCAN_LINE_COMMENT, i + 1, [])
      | SCAN_BLOCK_COMMENT \<Rightarrow>
          if c = CHR ''*'' \<and> next_is (CHR ''/'') then (SCAN_CODE, i + 2, [])
          else if 0x80 \<le> ub c then
            (case scan_utf8_sequence text i of (es, n) \<Rightarrow> (SCAN_BLOCK_COMMENT, i + n, es))
          else (SCAN_BLOCK_COMMENT, i + 1, [])
      | SCAN_STRING \<Rightarrow>
          if c = BSLASH then
            if i + 1 < length text then
              if text ! (i + 1) = LF then (SCAN_CODE, i + 2, [])
              else if 0x80 \<le> ub (text ! (i + 1)) then
                (case scan_utf8_sequence text (i + 1) of (es, n) \<Rightarrow> (SCAN_STRING, i + (1 + n), es))
              else (SCAN_STRING, i + 2, [])
            else (SCAN_STRING, i + 1, [])
          else if c = QUOTE then (SCAN_CODE, i + 1, [])
          else if c = LF then (SCAN_CODE, i + 1, [])
          else if 0x80 \<le> ub c then
            (case scan_utf8_sequence text i of (es, n) \<Rightarrow> (SCAN_STRING, i + n, es))
          else (SCAN_STRING, i + 1, []))"

lemma consume_continuations_ge: "i + k \<le> fst (consume_continuations text i k n)"
  by (induction "text" i k n rule: consume_continuations.induct) auto

lemma consume_gt: "i < fst (consume_continuations text i 1 n)"
  using consume_continuations_ge [of i 1 "text" n] by simp

lemma scan_utf8_sequence_pos: "0 < snd (scan_utf8_sequence text i)"
  using consume_gt [of i "text"]
  by (auto simp: scan_utf8_sequence_def Let_def case_prod_beta simp del: consume_continuations.simps)

lemma scan_step_pos: "scan_step text ctx i = (ctx', i', es) \<Longrightarrow> i < i'"
  using scan_utf8_sequence_pos [of "text" i] scan_utf8_sequence_pos [of "text" "i + 1"]
  by (cases ctx) (auto simp: scan_step_def Let_def split: if_splits prod.splits)

function scan_loop :: "string \<Rightarrow> scan_ctx \<Rightarrow> nat \<Rightarrow> scan_err list" where
  "scan_loop text ctx i =
     (if length text \<le> i then []
      else (case scan_step text ctx i of (ctx', i', es) \<Rightarrow> es @ scan_loop text ctx' i'))"
  by pat_completeness auto
termination
proof (relation "measure (\<lambda>(text, ctx, i). length text - i)")
  fix "text" ctx i ctx' y i' es
  assume n: "\<not> length text \<le> i" and "(ctx', y) = scan_step text ctx i" "(i', es) = y"
  then have "scan_step text ctx i = (ctx', i', es)" by simp
  from scan_step_pos [OF this] n
  show "((text, ctx', i'), text, ctx, i) \<in> measure (\<lambda>(text, ctx, i). length text - i)" by simp
qed simp

declare scan_loop.simps [simp del]

definition scan_text :: "string \<Rightarrow> scan_err list" where
  "scan_text text =
     (if 3 \<le> length text \<and> ub (text ! 0) = 0xEF \<and> ub (text ! 1) = 0xBB \<and> ub (text ! 2) = 0xBF
      then [(''AIC-L0002'', ''UTF-8 BOM present at start of file'', 0, 3)] else [])
     @ scan_loop text SCAN_CODE 0"

section \<open>Loading\<close>

definition build_span :: "string \<Rightarrow> nat list \<Rightarrow> nat \<Rightarrow> nat \<Rightarrow> diag_span" where
  "build_span file starts s e =
     (case position_at starts (int s) of (sl, sc) \<Rightarrow>
        (case position_at starts (int e) of (el, ec) \<Rightarrow>
           diag_span_new_range file sl sc (int s) el ec (int e)))"

definition scan_add :: "string \<Rightarrow> nat list \<Rightarrow> scan_err \<Rightarrow> diag_record option" where
  "scan_add file starts err =
     (case err of (code, message, s, e) \<Rightarrow>
        setters
          [\<lambda>r. diag_record_set_code r (Some code),
           \<lambda>r. diag_record_set_message r (Some message),
           \<lambda>r. diag_record_set_primary_span r (Some (build_span file starts s e)),
           \<lambda>r. diag_record_set_recovery r (Some ''authoritative'')]
          diag_record_new)"

datatype load_result =
    LOAD_OK load_source
  | LOAD_VALIDATION_ERROR "diag_record option list"
  | LOAD_OOM

text \<open>A record that cannot be built sets the scanner's \<open>oom\<close> flag.\<close>

definition load_source_from_bytes ::
  "((diag_record option \<Rightarrow> diag_record option \<Rightarrow> int) \<Rightarrow> diag_record option list
     \<Rightarrow> diag_record option list) \<Rightarrow> string \<Rightarrow> string \<Rightarrow> load_result" where
  "load_source_from_bytes qsort file bytes =
     (case normalize_bytes bytes of (text, starts) \<Rightarrow>
        (let recs = map (scan_add file starts) (scan_text text)
         in if None \<in> set recs then LOAD_OOM
            else if recs \<noteq> [] then
              LOAD_VALIDATION_ERROR (the (diag_sort_records qsort (Some recs)))
            else LOAD_OK \<lparr>src_file = file, src_text = text, src_line_starts = starts\<rparr>))"

section \<open>Normalisation and line starts\<close>

text \<open>CRLF becomes LF; every other byte stays.\<close>

fun crlf_to_lf :: "string \<Rightarrow> string" where
  "crlf_to_lf [] = []"
| "crlf_to_lf [c] = [c]"
| "crlf_to_lf (c # d # r) = (if c = CR \<and> d = LF then LF # crlf_to_lf r else c # crlf_to_lf (d # r))"

definition line_starts :: "string \<Rightarrow> nat list" where
  "line_starts t = 0 # map Suc (filter (\<lambda>k. t ! k = LF) [0..<length t])"

lemma line_starts_snoc:
  "line_starts (t @ [c]) = line_starts t @ (if c = LF then [length t + 1] else [])"
proof -
  have "filter (\<lambda>k. (t @ [c]) ! k = LF) [0..<length t] = filter (\<lambda>k. t ! k = LF) [0..<length t]"
    by (rule filter_cong) (auto simp: nth_append)
  then show ?thesis by (simp add: line_starts_def)
qed

lemma norm_loop_spec:
  "norm_loop inp t (line_starts t) = (t @ crlf_to_lf inp, line_starts (t @ crlf_to_lf inp))"
proof (induction inp arbitrary: t rule: crlf_to_lf.induct)
  case (2 c)
  then show ?case by (simp add: line_starts_snoc)
next
  case (3 c d r)
  show ?case
  proof (cases "c = CR \<and> d = LF")
    case True
    with "3.IH"(1) [OF True, of "t @ [LF]"] show ?thesis by (simp add: line_starts_snoc)
  next
    case False
    with "3.IH"(2) [OF False, of "t @ [c]"] show ?thesis
      by (auto simp: line_starts_snoc split: if_splits)
  qed
qed simp

lemma normalize_bytes_spec:
  "normalize_bytes inp = (crlf_to_lf inp, line_starts (crlf_to_lf inp))"
  using norm_loop_spec [of inp "[]"] by (simp add: normalize_bytes_def line_starts_def)

text \<open>The line starts up to offset \<open>n\<close>.\<close>

definition starts_upto :: "string \<Rightarrow> nat \<Rightarrow> nat list" where
  "starts_upto t n = map Suc (filter (\<lambda>k. t ! k = LF) [0..<n])"

lemma line_starts_split:
  assumes "n \<le> length t"
  shows "line_starts t = 0 # starts_upto t n @ map Suc (filter (\<lambda>k. t ! k = LF) [n..<length t])"
proof -
  have "[0..<length t] = [0..<n] @ [n..<length t]"
    using assms upt_add_eq_append [of 0 n "length t - n"] by simp
  then show ?thesis by (simp add: line_starts_def starts_upto_def)
qed

lemma line_starts_le_iff:
  assumes "n \<le> length t" and "j < length (line_starts t)"
  shows "line_starts t ! j \<le> n \<longleftrightarrow> j \<le> length (starts_upto t n)"
proof -
  let ?a = "0 # starts_upto t n" and ?b = "map Suc (filter (\<lambda>k. t ! k = LF) [n..<length t])"
  have eq: "line_starts t = ?a @ ?b" using line_starts_split [OF assms(1)] by simp
  have a: "x \<le> n" if "x \<in> set ?a" for x using that by (auto simp: starts_upto_def)
  have b: "n < x" if "x \<in> set ?b" for x using that by auto
  show ?thesis
  proof (cases "j < length ?a")
    case True
    then have "line_starts t ! j \<in> set ?a" unfolding eq nth_append by (metis nth_mem)
    with a True show ?thesis by auto
  next
    case False
    then have jb: "j - length ?a < length ?b"
      using assms(2) unfolding eq length_append by linarith
    have "line_starts t ! j = ?b ! (j - length ?a)"
      unfolding eq using False by (simp only: nth_append if_False)
    with nth_mem [OF jb] have "line_starts t ! j \<in> set ?b" by simp
    with b False show ?thesis by fastforce
  qed
qed

lemma position_search_spec:
  assumes sorted: "\<And>j. 0 \<le> j \<Longrightarrow> j < n \<Longrightarrow> (int (starts ! nat j) \<le> offset \<longleftrightarrow> j \<le> m)"
  shows "0 \<le> lo \<Longrightarrow> hi < n \<Longrightarrow> lo \<le> m + 1 \<Longrightarrow> m \<le> hi \<Longrightarrow> (ans = m \<or> lo \<le> m) \<Longrightarrow>
    position_search starts offset lo hi ans = m"
proof (induction "nat (hi - lo + 1)" arbitrary: lo hi ans rule: less_induct)
  case less
  show ?case
  proof (cases "lo \<le> hi")
    case False
    with less.prems show ?thesis by (subst position_search.simps) auto
  next
    case True
    define mid where "mid = lo + (hi - lo) div 2"
    have mid: "lo \<le> mid" "mid \<le> hi" using True by (simp_all add: mid_def)
    have t: "int (starts ! nat mid) \<le> offset \<longleftrightarrow> mid \<le> m"
      using sorted [of mid] mid less.prems by simp
    show ?thesis
    proof (cases "mid \<le> m")
      case le: True
      have "position_search starts offset (mid + 1) hi mid = m"
        by (rule less.hyps) (insert mid le less.prems True, auto)
      then show ?thesis
        using True le t by (subst position_search.simps) (simp add: Let_def mid_def [symmetric])
    next
      case gt: False
      have "position_search starts offset lo (mid - 1) ans = m"
        by (rule less.hyps) (insert mid gt less.prems True, auto)
      then show ?thesis
        using True gt t by (subst position_search.simps) (simp add: Let_def mid_def [symmetric])
    qed
  qed
qed

lemma starts_upto_length: "n \<le> length t \<Longrightarrow> length (starts_upto t n) < length (line_starts t)"
  by (simp add: line_starts_split)

lemma line_starts_at:
  "n \<le> length t \<Longrightarrow> line_starts t ! length (starts_upto t n) = last (0 # starts_upto t n)"
  by (simp add: line_starts_split nth_append last_conv_nth nth_Cons' del: last.simps)

lemma position_at_spec:
  assumes "n \<le> length t"
  shows "position_at (line_starts t) (int n) =
    (int (length (starts_upto t n)) + 1, int n - int (last (0 # starts_upto t n)) + 1)"
proof -
  let ?m = "int (length (starts_upto t n))"
  have "position_search (line_starts t) (int n) 0 (int (length (line_starts t)) - 1) 0 = ?m"
  proof (rule position_search_spec)
    show "int (line_starts t ! nat j) \<le> int n \<longleftrightarrow> j \<le> ?m"
      if "0 \<le> j" "j < int (length (line_starts t))" for j
      using line_starts_le_iff [OF assms, of "nat j"] that by (simp add: nat_le_iff)
  qed (insert starts_upto_length [OF assms], simp_all)
  then show ?thesis
    using line_starts_at [OF assms] by (simp add: position_at_def Let_def)
qed

lemma span_scan_snoc:
  "span_scan t (Suc n) i line ls =
     (case span_scan t n i line ls of (l, s) \<Rightarrow>
        if t ! (i + n) = LF then (l + 1, int (i + n) + 1) else (l, s))"
proof (induction n arbitrary: i line ls)
  case (Suc n)
  have step: "span_scan t (Suc m) i line ls = (if t ! i = LF then span_scan t m (Suc i) (line + 1) (int i + 1)
      else span_scan t m (Suc i) line ls)" for m
    by (rule span_scan.simps(2))
  have shift: "Suc i + n = i + Suc n" by simp
  show ?case
  proof (cases "t ! i = LF")
    case True
    then show ?thesis
      using step [of "Suc n"] step [of n] Suc.IH [of "Suc i" "line + 1" "int i + 1", unfolded shift]
      by (simp only: if_True simp_thms)
  next
    case False
    then show ?thesis
      using step [of "Suc n"] step [of n] Suc.IH [of "Suc i" line ls, unfolded shift]
      by (simp only: if_False simp_thms)
  qed
qed simp

lemma span_scan_spec:
  "span_scan t n 0 1 0 = (int (length (starts_upto t n)) + 1, int (last (0 # starts_upto t n)))"
proof (induction n)
  case (Suc n)
  have "starts_upto t (Suc n) = starts_upto t n @ (if t ! n = LF then [Suc n] else [])"
    by (simp add: starts_upto_def)
  with Suc show ?case unfolding span_scan_snoc by (simp add: last_append)
qed (simp add: starts_upto_def)

section \<open>The pass accepts exactly UTF-8\<close>

lemma cp3:
  fixes x y z :: nat
  assumes "x < 16" "y < 64" "z < 64"
  shows "(x * 4096 + y * 64 + z < 0x800 \<or> (0xD800 \<le> x * 4096 + y * 64 + z \<and> x * 4096 + y * 64 + z \<le> 0xDFFF))
    \<longleftrightarrow> (x = 0 \<and> y < 32) \<or> (x = 13 \<and> 32 \<le> y)"
proof -
  consider "x = 0" | "1 \<le> x" "x \<le> 12" | "x = 13" | "14 \<le> x" by linarith
  then show ?thesis
  proof cases
    case 1 then show ?thesis using assms(2,3) by simp linarith
  next
    case 2
    then have "0x800 \<le> x * 4096 + y * 64 + z" "x * 4096 + y * 64 + z < 0xD800" using assms(2,3) by linarith+
    with 2 show ?thesis by simp
  next
    case 3 then show ?thesis using assms(2,3) by simp linarith
  next
    case 4
    then have "0xDFFF < x * 4096 + y * 64 + z" by linarith
    with 4 show ?thesis by simp
  qed
qed

lemma cp4:
  fixes x y z w :: nat
  assumes "x < 5" "y < 64" "z < 64" "w < 64"
  shows "(x * 262144 + y * 4096 + z * 64 + w < 0x10000 \<or> 0x10FFFF < x * 262144 + y * 4096 + z * 64 + w)
    \<longleftrightarrow> (x = 0 \<and> y < 16) \<or> (x = 4 \<and> 16 \<le> y)"
proof -
  consider "x = 0" | "1 \<le> x" "x \<le> 3" | "x = 4" using assms(1) by linarith
  then show ?thesis
  proof cases
    case 1 then show ?thesis using assms(2-) by simp linarith
  next
    case 2
    then have "0x10000 \<le> x * 262144 + y * 4096 + z * 64 + w"
      "x * 262144 + y * 4096 + z * 64 + w \<le> 0x10FFFF" using assms(2-) by linarith+
    with 2 show ?thesis by simp
  next
    case 3 then show ?thesis using assms(2-) by simp linarith
  qed
qed

lemma offset_mod: "m mod n = 0 \<Longrightarrow> x < n \<Longrightarrow> (m + x) mod n = (x :: nat)"
  by (metis add_0 mod_add_left_eq mod_less)

lemma cont_split: "cont b \<Longrightarrow> \<exists>y < 64. b = 0x80 + y"
  by (rule exI [of _ "b - 0x80"]) auto

lemma lead_split: "(lo::nat) \<le> b \<Longrightarrow> b < lo + n \<Longrightarrow> \<exists>x < n. b = lo + x"
  by (rule exI [of _ "b - lo"]) auto

text \<open>A sequence is accepted exactly when it is well formed, and is consumed as a whole.\<close>

lemma consume_cons: 
  "consume_continuations (p @ s) (length p) k (Suc n) =
     (if length s \<le> k then (length p + k, False)
      else if \<not> cont (ub (s ! k)) then (length p + k, False)
      else consume_continuations (p @ s) (length p) (Suc k) n)"
  by (auto simp: nth_append not_le not_less)

lemma consume_cons_numeral:
  "consume_continuations (p @ s) (length p) k (Suc 0) =
     (if length s \<le> k then (length p + k, False)
      else if \<not> cont (ub (s ! k)) then (length p + k, False)
      else (length p + Suc k, True))"
  "consume_continuations (p @ s) (length p) k 2 =
     (if length s \<le> k then (length p + k, False)
      else if \<not> cont (ub (s ! k)) then (length p + k, False)
      else consume_continuations (p @ s) (length p) (Suc k) (Suc 0))"
  "consume_continuations (p @ s) (length p) k 3 =
     (if length s \<le> k then (length p + k, False)
      else if \<not> cont (ub (s ! k)) then (length p + k, False)
      else consume_continuations (p @ s) (length p) (Suc k) 2)"
  unfolding numeral_3_eq_3 numeral_2_eq_2 One_nat_def consume_cons by simp_all

lemma nth_suffix: "(p @ s) ! (length p + k) = s ! k" "(p @ s) ! Suc (length p) = s ! 1"
  "(p @ s) ! length p = s ! 0" "(p @ s) ! Suc (Suc (length p)) = s ! 2"
  "(p @ s) ! Suc (Suc (Suc (length p))) = s ! 3"
  by (simp_all add: nth_append)

declare consume_continuations.simps [simp del]

definition seq_agrees :: "scan_err list \<times> nat \<Rightarrow> nat option \<Rightarrow> bool" where
  "seq_agrees r o' \<longleftrightarrow> (case o' of None \<Rightarrow> fst r \<noteq> [] | Some n \<Rightarrow> r = ([], n))"

lemma scan_seq_agrees:
  assumes "s \<noteq> []" and "0x80 \<le> ub (hd s)"
  shows "seq_agrees (scan_utf8_sequence (p @ s) (length p)) (utf8_seq s)"
proof -
  from assms(1) obtain c0 r where s: "s = c0 # r" by (cases s) auto
  define b where "b = ub c0"
  have b80: "\<not> b < 0x80" using assms(2) s by (simp add: b_def)
  note defs = scan_utf8_sequence_def Let_def nth_suffix
    consume_cons_numeral
  consider "b < 0xC2 \<or> 0xF4 < b" | "0xC2 \<le> b" "b \<le> 0xDF" | "0xE0 \<le> b" "b \<le> 0xEF" | "0xF0 \<le> b" "b \<le> 0xF4"
    by linarith
  then show ?thesis
  proof cases
    case 1
    then show ?thesis using b80
      by (auto simp: defs s seq_agrees_def utf8_seq_def b_def [symmetric])
  next
    case 2
    show ?thesis
    proof (cases r)
      case Nil
      then show ?thesis using 2 b80
        by (auto simp: defs s seq_agrees_def utf8_seq_def b_def [symmetric])
    next
      case (Cons c1 r1)
      then show ?thesis using 2 b80
        by (auto simp: defs s seq_agrees_def utf8_seq_def b_def [symmetric])
    qed
  next
    case 3
    obtain x where x: "b = 0xE0 + x" "x < 16" using lead_split [of "0xE0" b 16] 3 by auto
    show ?thesis
    proof (cases "\<exists>c1 c2 r2. r = c1 # c2 # r2 \<and> cont (ub c1) \<and> cont (ub c2)")
      case True
      then obtain c1 c2 r2 where r: "r = c1 # c2 # r2" "cont (ub c1)" "cont (ub c2)" by blast
      obtain y z where yz: "ub c1 = 0x80 + y" "y < 64" "ub c2 = 0x80 + z" "z < 64"
        using cont_split [OF r(2)] cont_split [OF r(3)] by auto
      have cp: "b mod 16 * 4096 + ub c1 mod 64 * 64 + ub c2 mod 64 = x * 4096 + y * 64 + z"
        using x yz by (simp add: offset_mod)
      show ?thesis using 3 b80 r(2,3) cp3 [OF x(2) yz(2,4)] x yz
        by (simp add: defs s r(1) seq_agrees_def utf8_seq_def b_def [symmetric] offset_mod)
    next
      case False
      then show ?thesis using 3 b80
        by (auto simp: defs s seq_agrees_def utf8_seq_def b_def [symmetric] nth_Cons'
              split: list.splits)
    qed
  next
    case 4
    obtain x where x: "b = 0xF0 + x" "x < 5" using lead_split [of "0xF0" b 5] 4 by auto
    show ?thesis
    proof (cases "\<exists>c1 c2 c3 r2. r = c1 # c2 # c3 # r2 \<and> cont (ub c1) \<and> cont (ub c2) \<and> cont (ub c3)")
      case True
      then obtain c1 c2 c3 r2 where r: "r = c1 # c2 # c3 # r2" "cont (ub c1)" "cont (ub c2)" "cont (ub c3)"
        by blast
      obtain y z w where yz: "ub c1 = 0x80 + y" "y < 64" "ub c2 = 0x80 + z" "z < 64" "ub c3 = 0x80 + w" "w < 64"
        using cont_split [OF r(2)] cont_split [OF r(3)] cont_split [OF r(4)] by auto
      have cp: "b mod 8 * 262144 + ub c1 mod 64 * 4096 + ub c2 mod 64 * 64 + ub c3 mod 64
          = x * 262144 + y * 4096 + z * 64 + w"
        using x yz by (simp add: offset_mod)
      show ?thesis using 4 b80 r(2-4) cp4 [OF x(2) yz(2,4,6)] x yz
        by (simp add: defs s r(1) seq_agrees_def utf8_seq_def b_def [symmetric] offset_mod)
    next
      case False
      note m = defs s seq_agrees_def utf8_seq_def b_def [symmetric]
      consider "r = []" | c1 where "r = [c1]" | c1 c2 where "r = [c1, c2]"
        | c1 c2 c3 r2 where "r = c1 # c2 # c3 # r2" by (metis neq_Nil_conv)
      then show ?thesis
      proof cases
        case (4 c1 c2 c3 r2)
        define u1 u2 u3 where "u1 = ub c1" and "u2 = ub c2" and "u3 = ub c3"
        have nc: "\<not> (cont u1 \<and> cont u2 \<and> cont u3)"
          using False 4 by (auto simp: u1_def u2_def u3_def)
        show ?thesis using \<open>0xF0 \<le> b\<close> \<open>b \<le> 0xF4\<close> b80 nc
          by (cases "cont u1"; cases "cont u2")
            (simp_all add: m 4 u1_def [symmetric] u2_def [symmetric] u3_def [symmetric], auto)
      qed (insert 4 b80, simp_all add: m)
    qed
  qed
qed

text \<open>A diagnostic of the pass other than \<open>AIC-L0001\<close> is the NUL record.\<close>

definition utf8_errs :: "scan_err list \<Rightarrow> scan_err list" where
  "utf8_errs es = filter (\<lambda>e. fst e = ''AIC-L0001'') es"

definition nul_errs :: "scan_err list \<Rightarrow> scan_err list" where
  "nul_errs es = filter (\<lambda>e. fst e = ''AIC-L0003'') es"

lemma scan_seq_errs: "e \<in> set (fst (scan_utf8_sequence t i)) \<Longrightarrow> fst e = ''AIC-L0001''"
  by (auto simp: scan_utf8_sequence_def Let_def scan_add_invalid_def split: prod.splits if_splits)

lemma utf8_errs_seq: "utf8_errs (fst (scan_utf8_sequence t i)) = fst (scan_utf8_sequence t i)"
  by (simp add: utf8_errs_def filter_id_conv scan_seq_errs)

text \<open>Every step takes the context and byte apart in the same three ways.\<close>

lemma utf8_text_seq:
  assumes "i < length t" and "0x80 \<le> ub (t ! i)" and "scan_utf8_sequence t i = (es, n)"
  shows "utf8_text (drop i t) \<longleftrightarrow> es = [] \<and> utf8_text (drop (i + n) t)"
proof -
  have ne: "drop i t \<noteq> []" and hd: "hd (drop i t) = t ! i"
    using assms(1) by (simp_all add: hd_drop_conv_nth)
  have "seq_agrees (scan_utf8_sequence (take i t @ drop i t) (length (take i t))) (utf8_seq (drop i t))"
    by (rule scan_seq_agrees [OF ne]) (simp add: hd assms(2))
  then have "seq_agrees (es, n) (utf8_seq (drop i t))"
    using assms(1,3) by simp
  then show ?thesis
    by (subst utf8_text_step [OF ne])
      (auto simp: seq_agrees_def drop_drop add.commute split: option.splits)
qed

lemma utf8_text_1: "i < length t \<Longrightarrow> ub (t ! i) < 0x80 \<Longrightarrow> utf8_text (drop i t) = utf8_text (drop (i + 1) t)"
  by (metis Cons_nth_drop_Suc Suc_eq_plus1 utf8_text_ascii)

lemma utf8_text_2:
  "i + 1 < length t \<Longrightarrow> ub (t ! i) < 0x80 \<Longrightarrow> ub (t ! (i + 1)) < 0x80 \<Longrightarrow>
    utf8_text (drop i t) = utf8_text (drop (i + 2) t)"
  using utf8_text_1 [of i t] utf8_text_1 [of "i + 1" t] by simp

text \<open>One step consumes ASCII bytes or one sequence, whatever the context.\<close>

lemma scan_step_shape:
  assumes "i < length t" and "scan_step t ctx i = (ctx', i', es)"
  shows "(ub (t ! i) < 0x80 \<and> i' = i + 1 \<and> utf8_errs es = [])
    \<or> (ub (t ! i) < 0x80 \<and> i + 1 < length t \<and> ub (t ! (i + 1)) < 0x80 \<and> i' = i + 2 \<and> es = [])
    \<or> (0x80 \<le> ub (t ! i) \<and> (\<exists>n. scan_utf8_sequence t i = (es, n) \<and> i' = i + n))
    \<or> (ub (t ! i) < 0x80 \<and> i + 1 < length t \<and> 0x80 \<le> ub (t ! (i + 1))
        \<and> (\<exists>n. scan_utf8_sequence t (i + 1) = (es, n) \<and> i' = i + 1 + n))"
  using assms
  by (cases ctx; cases "scan_utf8_sequence t i"; cases "scan_utf8_sequence t (i + 1)")
    (auto simp: scan_step_def Let_def utf8_errs_def split: if_split_asm)

lemma scan_step_utf8:
  assumes "i < length t" and "scan_step t ctx i = (ctx', i', es)"
  shows "utf8_text (drop i t) \<longleftrightarrow> utf8_errs es = [] \<and> utf8_text (drop i' t)"
  using scan_step_shape [OF assms]
proof (elim disjE conjE exE)
  assume "ub (t ! i) < 0x80" "i' = i + 1" "utf8_errs es = []"
  then show ?thesis using assms(1) by (simp add: utf8_text_1 del: drop_Suc)
next
  assume "ub (t ! i) < 0x80" "i + 1 < length t" "ub (t ! (i + 1)) < 0x80" "i' = i + 2" "es = []"
  then show ?thesis by (simp add: utf8_text_2 utf8_errs_def)
next
  fix n assume h: "0x80 \<le> ub (t ! i)" "scan_utf8_sequence t i = (es, n)" "i' = i + n"
  have "utf8_errs es = es" using utf8_errs_seq [of t i] h(2) by simp
  with utf8_text_seq [OF assms(1) h(1,2)] h(3) show ?thesis by simp
next
  fix n assume h: "ub (t ! i) < 0x80" "i + 1 < length t" "0x80 \<le> ub (t ! (i + 1))"
    "scan_utf8_sequence t (i + 1) = (es, n)" "i' = i + 1 + n"
  have "utf8_errs es = es" using utf8_errs_seq [of t "i + 1"] h(4) by simp
  with utf8_text_seq [OF h(2,3,4)] utf8_text_1 [OF assms(1) h(1)] h(5) show ?thesis by simp
qed

text \<open>The loop reports no invalid sequence exactly on UTF-8 texts.\<close>

lemma scan_loop_utf8: "utf8_text (drop i t) \<longleftrightarrow> utf8_errs (scan_loop t ctx i) = []"
proof (induction t ctx i rule: scan_loop.induct)
  case (1 t ctx i)
  show ?case
  proof (cases "length t \<le> i")
    case True
    then show ?thesis by (simp add: scan_loop.simps utf8_text_Nil utf8_errs_def)
  next
    case False
    obtain ctx' i' es where st: "scan_step t ctx i = (ctx', i', es)" by (cases "scan_step t ctx i")
    have "utf8_text (drop i' t) \<longleftrightarrow> utf8_errs (scan_loop t ctx' i') = []"
      using "1.IH" [OF False] st by simp
    with scan_step_utf8 [of i t, OF _ st] False st show ?thesis
      by (subst scan_loop.simps) (simp add: utf8_errs_def)
  qed
qed

section \<open>The contexts as a finite automaton\<close>

text \<open>
  The contexts of the pass, byte by byte, with the states after a slash, a star and a backslash
  that the source looks ahead for.
\<close>

datatype dfa = Code | Slash | Line | Block | Star | Str | Esc

fun dfa_step :: "dfa \<Rightarrow> char \<Rightarrow> dfa" where
  "dfa_step Code c = (if c = CHR ''/'' then Slash else if c = QUOTE then Str else Code)"
| "dfa_step Slash c =
     (if c = CHR ''/'' then Line else if c = CHR ''*'' then Block
      else if c = QUOTE then Str else Code)"
| "dfa_step Line c = (if c = LF then Code else Line)"
| "dfa_step Block c = (if c = CHR ''*'' then Star else Block)"
| "dfa_step Star c = (if c = CHR ''/'' then Code else if c = CHR ''*'' then Star else Block)"
| "dfa_step Str c = (if c = BSLASH then Esc else if c = QUOTE \<or> c = LF then Code else Str)"
| "dfa_step Esc c = (if c = LF then Code else Str)"

text \<open>A NUL byte met outside comments and strings.\<close>

fun code_nul :: "dfa \<Rightarrow> string \<Rightarrow> bool" where
  "code_nul st [] = False"
| "code_nul st (c # r) = ((st \<in> {Code, Slash} \<and> c = CHR 0x00) \<or> code_nul (dfa_step st c) r)"

fun dfa_of :: "scan_ctx \<Rightarrow> dfa" where
  "dfa_of SCAN_CODE = Code"
| "dfa_of SCAN_LINE_COMMENT = Line"
| "dfa_of SCAN_BLOCK_COMMENT = Block"
| "dfa_of SCAN_STRING = Str"

lemma code_nul_Slash: "r = [] \<or> (hd r \<noteq> CHR ''/'' \<and> hd r \<noteq> CHR ''*'') \<Longrightarrow> code_nul Slash r = code_nul Code r"
  by (cases r) auto

lemma code_nul_Star: "r = [] \<or> hd r \<noteq> CHR ''/'' \<Longrightarrow> code_nul Star r = code_nul Block r"
  by (cases r) auto

lemma dfa_high: "0x80 \<le> ub a \<Longrightarrow> st \<in> {Code, Line, Block, Str} \<Longrightarrow> dfa_step st a = st \<and> a \<noteq> CHR 0x00"
  by (cases st) auto

text \<open>Bytes of a multi-byte sequence leave the automaton where it is.\<close>

lemma code_nul_high:
  "\<forall>c \<in> set p. 0x80 \<le> ub c \<Longrightarrow> st \<in> {Code, Line, Block, Str} \<Longrightarrow> code_nul st (p @ s) = code_nul st s"
  by (induction p) (simp_all add: dfa_high)

lemma utf8_enc_high: "is_scalar cp \<Longrightarrow> 0x80 \<le> ub (hd (utf8_enc cp)) \<Longrightarrow> c \<in> set (utf8_enc cp) \<Longrightarrow> 0x80 \<le> ub c"
proof -
  assume s: "is_scalar cp" and h: "0x80 \<le> ub (hd (utf8_enc cp))" and c: "c \<in> set (utf8_enc cp)"
  have m: "map ub (utf8_enc cp) = utf8_bytes cp" using map_ub_utf8_enc [OF s] .
  have ne: "utf8_enc cp \<noteq> []" using c by auto
  have "0x80 \<le> hd (utf8_bytes cp)" using h ne unfolding m [symmetric] by (simp add: hd_map)
  then have "\<forall>b \<in> set (utf8_bytes cp). 0x80 \<le> b" by (auto simp: utf8_bytes_def split: if_split_asm)
  with c show ?thesis unfolding m [symmetric] by simp
qed

lemma scan_seq_high:
  assumes "i < length t" and "0x80 \<le> ub (t ! i)" and "scan_utf8_sequence t i = ([], n)"
    and "st \<in> {Code, Line, Block, Str}"
  shows "code_nul st (drop i t) = code_nul st (drop (i + n) t)"
proof -
  have ne: "drop i t \<noteq> []" and hd: "hd (drop i t) = t ! i"
    using assms(1) by (simp_all add: hd_drop_conv_nth)
  have "seq_agrees (scan_utf8_sequence (take i t @ drop i t) (length (take i t))) (utf8_seq (drop i t))"
    by (rule scan_seq_agrees [OF ne]) (simp add: hd assms(2))
  then have "utf8_seq (drop i t) = Some n"
    using assms(1,3) by (auto simp: seq_agrees_def split: option.splits)
  from utf8_seq_decode [OF this] obtain cp where
    cp: "is_scalar cp" "take n (drop i t) = utf8_enc cp" "0 < n" by blast
  have "hd (utf8_enc cp) = t ! i" using cp(2,3) hd ne by (metis hd_take)
  with utf8_enc_high [OF cp(1)] assms(2) have "\<forall>c \<in> set (take n (drop i t)). 0x80 \<le> ub c"
    unfolding cp(2) by simp
  from code_nul_high [OF this assms(4), of "drop (i + n) t"]
  show ?thesis using append_take_drop_id [of n "drop i t"] by (simp add: add.commute [of n])
qed

lemma code_nul_at: "i < length t \<Longrightarrow>
    code_nul st (drop i t) = ((st \<in> {Code, Slash} \<and> t ! i = CHR 0x00) \<or> code_nul (dfa_step st (t ! i)) (drop (i + 1) t))"
  by (simp add: Cons_nth_drop_Suc [symmetric] del: drop_Suc)

lemma code_nul_at2: "i + 1 < length t \<Longrightarrow>
    code_nul st (drop (i + 1) t) = ((st \<in> {Code, Slash} \<and> t ! (i + 1) = CHR 0x00) \<or>
       code_nul (dfa_step st (t ! (i + 1))) (drop (i + 2) t))"
  using code_nul_at [of "i + 1" t st] by simp

lemma hd_drop: "drop i t = [] \<or> hd (drop i t) = t ! i"
  by (cases "i < length t") (simp_all add: hd_drop_conv_nth)

lemma scan_step_nul:
  assumes "i < length t" and "scan_step t ctx i = (ctx', i', es)" and "utf8_errs es = []"
  shows "code_nul (dfa_of ctx) (drop i t) \<longleftrightarrow> nul_errs es \<noteq> [] \<or> code_nul (dfa_of ctx') (drop i' t)"
proof -
  have sq: "scan_utf8_sequence t j = (es, n) \<longleftrightarrow> es = [] \<and> scan_utf8_sequence t j = ([], n)" for j n
    using utf8_errs_seq [of t j] assms(3) by auto
  note high = scan_seq_high [OF assms(1)] scan_seq_high [of "i + 1"]
  have la: "drop (Suc i) t = [] \<or> Suc i < length t \<and> hd (drop (Suc i) t) = t ! Suc i"
    by (cases "Suc i < length t") (simp_all add: hd_drop_conv_nth)
  show ?thesis
  proof (cases ctx)
    case SCAN_CODE
    show ?thesis
      using assms code_nul_at [OF assms(1)] code_nul_at2 [of i t] code_nul_Slash [of "drop (Suc i) t"] la
        high(1) [of _ Code]
      unfolding SCAN_CODE
      by (auto simp: sq scan_step_def Let_def nul_errs_def split: if_split_asm prod.split_asm)
  next
    case SCAN_LINE_COMMENT
    show ?thesis
      using assms code_nul_at [OF assms(1)] high(1) [of _ Line]
      unfolding SCAN_LINE_COMMENT
      by (auto simp: sq scan_step_def Let_def nul_errs_def split: if_split_asm prod.split_asm)
  next
    case SCAN_BLOCK_COMMENT
    show ?thesis
      using assms code_nul_at [OF assms(1)] code_nul_at2 [of i t] code_nul_Star [of "drop (Suc i) t"] la
        high(1) [of _ Block]
      unfolding SCAN_BLOCK_COMMENT
      by (auto simp: sq scan_step_def Let_def nul_errs_def split: if_split_asm prod.split_asm)
  next
    case SCAN_STRING
    show ?thesis
      using assms code_nul_at [OF assms(1)] code_nul_at2 [of i t]
        high(1) [of _ Str] high(2) [of t _ Str]
      unfolding SCAN_STRING
      by (auto simp: sq scan_step_def Let_def nul_errs_def split: if_split_asm prod.split_asm)
  qed
qed

lemma scan_loop_nul:
  "utf8_text (drop i t) \<Longrightarrow> nul_errs (scan_loop t ctx i) \<noteq> [] \<longleftrightarrow> code_nul (dfa_of ctx) (drop i t)"
proof (induction t ctx i rule: scan_loop.induct)
  case (1 t ctx i)
  show ?case
  proof (cases "length t \<le> i")
    case True
    then show ?thesis by (simp add: scan_loop.simps nul_errs_def)
  next
    case False
    obtain ctx' i' es where st: "scan_step t ctx i = (ctx', i', es)" by (cases "scan_step t ctx i")
    have u: "utf8_errs es = []" "utf8_text (drop i' t)"
      using scan_step_utf8 [of i t, OF _ st] "1.prems" False by auto
    have "nul_errs (scan_loop t ctx' i') \<noteq> [] \<longleftrightarrow> code_nul (dfa_of ctx') (drop i' t)"
      using "1.IH" [OF False] st u(2) by simp
    with scan_step_nul [of i t, OF _ st u(1)] False st show ?thesis
      by (subst scan_loop.simps) (simp add: nul_errs_def)
  qed
qed

text \<open>Every diagnostic of the pass is one of three kinds, with a byte range inside the text.\<close>

definition scan_err_ok :: "string \<Rightarrow> scan_err \<Rightarrow> bool" where
  "scan_err_ok t e \<longleftrightarrow> (case e of (code, msg, s, n) \<Rightarrow>
     s < n \<and> n \<le> length t \<and>
     (code, msg) \<in> {(''AIC-L0001'', ''invalid UTF-8 sequence''),
       (''AIC-L0002'', ''UTF-8 BOM present at start of file''),
       (''AIC-L0003'', ''NUL byte in source'')})"

lemma consume_le:
  "consume_continuations t i k n = (j, ok) \<Longrightarrow> i + k \<le> length t \<Longrightarrow> j \<le> length t \<and> (ok \<longrightarrow> j = i + k + n)"
  by (induction t i k n rule: consume_continuations.induct)
    (auto simp: consume_continuations.simps split: if_split_asm)

lemma scan_seq_ok:
  assumes "i < length t" and "e \<in> set (fst (scan_utf8_sequence t i))"
  shows "scan_err_ok t e"
proof -
  have c: "consume_continuations t i 1 n = (j, ok) \<Longrightarrow> i < j \<and> j \<le> length t \<and> (ok \<longrightarrow> j = i + 1 + n)" for n j ok
    using consume_gt [of i t n] consume_le [of t i 1 n j ok] assms(1) by simp
  show ?thesis
    using assms c [of 1] c [of 2] c [of 3]
    by (auto simp: scan_utf8_sequence_def Let_def scan_add_invalid_def scan_err_ok_def
        split: prod.splits if_split_asm)
qed

lemma scan_step_no_bom:
  assumes "scan_step t ctx i = (ctx', i', es)" and "e \<in> set es"
  shows "fst e \<noteq> ''AIC-L0002''"
proof -
  have sq: "scan_utf8_sequence t j = (es, n) \<Longrightarrow> fst e = ''AIC-L0001''" for j n
    using scan_seq_errs [of e t j] assms(2) by simp
  show ?thesis
    using assms sq [of i] sq [of "i + 1"]
    by (cases ctx) (auto simp: scan_step_def Let_def split: if_split_asm prod.split_asm)
qed

lemma scan_loop_no_bom: "e \<in> set (scan_loop t ctx i) \<Longrightarrow> fst e \<noteq> ''AIC-L0002''"
proof (induction t ctx i rule: scan_loop.induct)
  case (1 t ctx i)
  obtain ctx' i' es where st: "scan_step t ctx i = (ctx', i', es)" by (cases "scan_step t ctx i")
  with "1.prems" have "\<not> length t \<le> i" by (auto simp: scan_loop.simps)
  with 1 st scan_step_no_bom [OF st, of e] show ?case
    by (subst (asm) (2) scan_loop.simps) auto
qed

lemma scan_step_ok:
  assumes "i < length t" and "scan_step t ctx i = (ctx', i', es)" and "e \<in> set es"
  shows "scan_err_ok t e"
proof -
  have sq: "scan_utf8_sequence t j = (es, n) \<Longrightarrow> j < length t \<Longrightarrow> scan_err_ok t e" for j n
    using scan_seq_ok [of j t e] assms(3) by simp
  have nul: "scan_err_ok t (''AIC-L0003'', ''NUL byte in source'', i, i + 1)"
    using assms(1) by (simp add: scan_err_ok_def)
  show ?thesis
    using assms sq [of i] sq [of "i + 1"] nul
    by (cases ctx) (auto simp: scan_step_def Let_def split: if_split_asm prod.split_asm)
qed

lemma scan_loop_ok: "e \<in> set (scan_loop t ctx i) \<Longrightarrow> scan_err_ok t e"
proof (induction t ctx i rule: scan_loop.induct)
  case (1 t ctx i)
  obtain ctx' i' es where st: "scan_step t ctx i = (ctx', i', es)" by (cases "scan_step t ctx i")
  with "1.prems" have "\<not> length t \<le> i" by (auto simp: scan_loop.simps)
  with 1 st scan_step_ok [of i t ctx ctx' i' es e] show ?case
    by (subst (asm) (2) scan_loop.simps) auto
qed

section \<open>The loader's contract\<close>

abbreviation bom_at_start :: "string \<Rightarrow> bool" where
  "bom_at_start t \<equiv> 3 \<le> length t \<and> ub (t ! 0) = 0xEF \<and> ub (t ! 1) = 0xBB \<and> ub (t ! 2) = 0xBF"

lemma lookup_lex:
  "code \<in> {''AIC-L0001'', ''AIC-L0002'', ''AIC-L0003''} \<Longrightarrow>
    \<exists>info. diag_code_lookup code = Some info \<and> ci_phase info = ''lex'' \<and> ci_severity info = ''error''"
  by (elim insertE; simp add: diag_code_lookup_def kCodes_def code_info_def)

text \<open>The record \<open>scan_add\<close> builds for a diagnostic of the pass.\<close>

definition load_record :: "string \<Rightarrow> string \<Rightarrow> scan_err \<Rightarrow> diag_record" where
  "load_record file t err = (case err of (code, message, s, e) \<Rightarrow>
     diag_record_new
       \<lparr>rec_code := Some code, rec_phase := Some ''lex'', rec_severity := Some ''error'',
        rec_message := Some message,
        rec_primary_span := Some (build_span file (line_starts t) s e),
        rec_recovery := Some ''authoritative''\<rparr>)"

lemma scan_add_ok: "scan_err_ok t e \<Longrightarrow> scan_add file (line_starts t) e = Some (load_record file t e)"
  using lookup_lex [of "fst e"]
  by (auto simp: scan_err_ok_def scan_add_def load_record_def setter_defs is_one_of_consts)

lemma load_record_valid: "scan_err_ok t e \<Longrightarrow> diag_record_validate (load_record file t e) = None"
  using lookup_lex [of "fst e"]
  by (auto simp: scan_err_ok_def load_record_def diag_record_validate_def is_one_of_consts
      diag_record_new_def)

lemma scan_text_ok: "e \<in> set (scan_text t) \<Longrightarrow> scan_err_ok t e"
  using scan_loop_ok [of e t SCAN_CODE 0] by (auto simp: scan_text_def scan_err_ok_def)

lemma scan_text_Nil_iff:
  "scan_text t = [] \<longleftrightarrow> utf8_text t \<and> \<not> bom_at_start t \<and> \<not> code_nul Code t"
proof -
  have split: "scan_loop t SCAN_CODE 0 = [] \<longleftrightarrow>
      utf8_errs (scan_loop t SCAN_CODE 0) = [] \<and> nul_errs (scan_loop t SCAN_CODE 0) = []"
  proof
    assume n: "utf8_errs (scan_loop t SCAN_CODE 0) = [] \<and> nul_errs (scan_loop t SCAN_CODE 0) = []"
    have "fst e \<noteq> ''AIC-L0002''" if "e \<in> set (scan_loop t SCAN_CODE 0)" for e
      using scan_loop_no_bom that by blast
    with n scan_loop_ok [of _ t SCAN_CODE 0] show "scan_loop t SCAN_CODE 0 = []"
      by (cases "scan_loop t SCAN_CODE 0") (fastforce simp: utf8_errs_def nul_errs_def scan_err_ok_def split: if_split_asm)+
  qed (simp add: utf8_errs_def nul_errs_def)
  show ?thesis
    using scan_loop_utf8 [of 0 t SCAN_CODE] scan_loop_nul [of 0 t SCAN_CODE]
    by (auto simp: scan_text_def split)
qed

text \<open>The loader never runs into the allocation branch, and its outcome is decided by the text.\<close>

lemma load_outcome:
  "load_source_from_bytes qsort file bytes =
     (let t = crlf_to_lf bytes in
      if scan_text t = [] then LOAD_OK \<lparr>src_file = file, src_text = t, src_line_starts = line_starts t\<rparr>
      else LOAD_VALIDATION_ERROR
        (the (diag_sort_records qsort (Some (map (\<lambda>e. Some (load_record file t e)) (scan_text t))))))"
proof -
  have eq: "map (scan_add file (line_starts t)) (scan_text t) = map (\<lambda>e. Some (load_record file t e)) (scan_text t)" for t
    by (rule map_cong [OF refl]) (simp add: scan_add_ok scan_text_ok)
  show ?thesis
    unfolding load_source_from_bytes_def normalize_bytes_spec Let_def prod.case eq by auto
qed

text \<open>Lines and columns read off the text itself.\<close>

definition lines_before :: "string \<Rightarrow> nat \<Rightarrow> nat" where
  "lines_before t n = length (filter (\<lambda>c. c = LF) (take n t))"

definition col_before :: "string \<Rightarrow> nat \<Rightarrow> nat" where
  "col_before t n = length (takeWhile (\<lambda>c. c \<noteq> LF) (rev (take n t)))"

lemma starts_upto_facts:
  "n \<le> length t \<Longrightarrow> length (starts_upto t n) = lines_before t n
     \<and> int n - int (last (0 # starts_upto t n)) = int (col_before t n)"
proof (induction n)
  case 0
  then show ?case by (simp add: starts_upto_def lines_before_def col_before_def)
next
  case (Suc n)
  then have t: "take (Suc n) t = take n t @ [t ! n]" by (simp add: take_Suc_conv_app_nth)
  have u: "starts_upto t (Suc n) = starts_upto t n @ (if t ! n = LF then [Suc n] else [])"
    by (simp add: starts_upto_def)
  from Suc t u show ?case by (auto simp: lines_before_def col_before_def)
qed

lemma position_at_text:
  "n \<le> length t \<Longrightarrow> position_at (line_starts t) (int n) = (int (lines_before t n) + 1, int (col_before t n) + 1)"
  using starts_upto_facts [of n t] by (simp add: position_at_spec del: last.simps)

lemma span_scan_text:
  assumes "n \<le> length t"
  shows "span_scan t n 0 1 0 = (int (lines_before t n) + 1, int n - int (col_before t n))"
  using starts_upto_facts [OF assms] unfolding span_scan_spec by (simp del: last.simps)

section \<open>Properties\<close>

text \<open>C9: loading succeeds exactly on texts that, after CRLF has become LF, are well-formed UTF-8, do
  not start with a byte order mark and have no NUL byte outside comments and strings; the source
  it returns holds that text and the offsets of its lines.\<close>

theorem load_ok_iff:
  "load_source_from_bytes qsort file bytes = LOAD_OK src \<longleftrightarrow>
     utf8_text (crlf_to_lf bytes) \<and> \<not> bom_at_start (crlf_to_lf bytes) \<and>
     \<not> code_nul Code (crlf_to_lf bytes) \<and>
     src = \<lparr>src_file = file, src_text = crlf_to_lf bytes, src_line_starts = line_starts (crlf_to_lf bytes)\<rparr>"
  using scan_text_Nil_iff [of "crlf_to_lf bytes"]
  by (cases "scan_text (crlf_to_lf bytes) = []") (auto simp: load_outcome Let_def)

text \<open>C33: the positions of a loaded source. At every offset the binary search of the line index gives
  the number of line feeds before it and the distance to the last of them, the point span is the
  one the linear scan of \<open>diag_span_from_offset\<close> computes on the same text, and an offset outside
  the text is refused.\<close>

theorem load_position_agrees:
  assumes "load_source_from_bytes qsort file bytes = LOAD_OK src"
  shows "load_position src off =
      (if off < 0 \<or> int (length (src_text src)) < off then None
       else Some (int (lines_before (src_text src) (nat off)) + 1, int (col_before (src_text src) (nat off)) + 1))
    \<and> load_span_point src off = diag_span_from_offset file (src_text src) off"
proof -
  obtain t where src: "src = \<lparr>src_file = file, src_text = t, src_line_starts = line_starts t\<rparr>"
    using assms by (auto simp: load_outcome Let_def split: if_split_asm)
  show ?thesis
  proof (cases "off < 0 \<or> int (length t) < off")
    case False
    then obtain n where n: "off = int n" "n \<le> length t" by (cases off) auto
    show ?thesis
      using n position_at_text [OF n(2)] span_scan_text [OF n(2)]
      by (simp add: src load_position_def load_span_point_def diag_span_from_offset_def)
  qed (auto simp: src load_position_def load_span_point_def diag_span_from_offset_def)
qed

lemma load_position_agrees_witness:
  "\<exists>src. load_source_from_bytes insertion_sort ''m'' [CHR 0x61, CR, LF, CHR 0x62] = LOAD_OK src
     \<and> load_position src 3 = Some (2, 2)"
proof (intro exI conjI)
  let ?src = "\<lparr>src_file = ''m'', src_text = [CHR 0x61, LF, CHR 0x62], src_line_starts = [0, 2]\<rparr>"
  have s: "scan_text [CHR 0x61, LF, CHR 0x62] = []"
    by (simp add: scan_text_def scan_loop.simps scan_step_def)
  show l: "load_source_from_bytes insertion_sort ''m'' [CHR 0x61, CR, LF, CHR 0x62] = LOAD_OK ?src"
    by (simp add: load_outcome Let_def s line_starts_def)
  show "load_position ?src 3 = Some (2, 2)"
    using load_position_agrees [OF l, of 3] by (simp add: lines_before_def col_before_def)
qed

text \<open>C32: when loading is refused, the caller gets one record per diagnostic of the pass, in the
  emission order of \<open>diag_record_compare\<close>: each is an error of a lexical code that the registry
  validates, with a span inside the normalized text.\<close>

theorem load_errors_valid:
  assumes "c_qsort qs" and "load_source_from_bytes qs file bytes = LOAD_VALIDATION_ERROR recs"
  shows "recs \<noteq> []
    \<and> mset recs = image_mset (\<lambda>e. Some (load_record file (crlf_to_lf bytes) e)) (mset (scan_text (crlf_to_lf bytes)))
    \<and> cmp_sorted diag_record_compare recs
    \<and> (\<forall>e \<in> set (scan_text (crlf_to_lf bytes)).
         diag_record_validate (load_record file (crlf_to_lf bytes) e) = None \<and> scan_err_ok (crlf_to_lf bytes) e)"
proof -
  let ?t = "crlf_to_lf bytes" and ?f = "\<lambda>e. Some (load_record file (crlf_to_lf bytes) e)"
  let ?rs = "map ?f (scan_text ?t)"
  have ne: "scan_text ?t \<noteq> []" and recs: "recs = the (diag_sort_records qs (Some ?rs))"
    using assms(2) by (auto simp: load_outcome Let_def split: if_split_asm)
  note s = sort_result [OF assms(1) recs]
  have "length recs = length ?rs" using s(1) by (metis size_mset)
  with ne have "recs \<noteq> []" by auto
  moreover have "\<forall>e \<in> set (scan_text ?t). diag_record_validate (load_record file ?t e) = None \<and> scan_err_ok ?t e"
    by (simp add: load_record_valid scan_text_ok)
  ultimately show ?thesis using s by simp
qed

lemma load_errors_valid_witness:
  "\<exists>recs. load_source_from_bytes insertion_sort ''m'' [CHR 0x00, CHR 0xFF] = LOAD_VALIDATION_ERROR recs
     \<and> cmp_sorted diag_record_compare recs \<and> length recs = 2"
proof -
  have s: "scan_text [CHR 0x00, CHR 0xFF] =
      [(''AIC-L0003'', ''NUL byte in source'', 0, 1), (''AIC-L0001'', ''invalid UTF-8 sequence'', 1, 2)]"
    by (simp add: scan_text_def scan_loop.simps scan_step_def scan_utf8_sequence_def scan_add_invalid_def)
  obtain recs where l: "load_source_from_bytes insertion_sort ''m'' [CHR 0x00, CHR 0xFF] = LOAD_VALIDATION_ERROR recs"
    by (simp add: load_outcome Let_def s)
  note h = load_errors_valid [OF insertion_sort.c_qsort_axioms l]
  have "size (mset recs) = size (image_mset (\<lambda>e. Some (load_record ''m'' (crlf_to_lf [CHR 0x00, CHR 0xFF]) e))
      (mset (scan_text (crlf_to_lf [CHR 0x00, CHR 0xFF]))))"
    using h by (metis (no_types))
  then have "length recs = 2" by (simp add: s)
  with h l show ?thesis by blast
qed

end
