(* ===== verification/Lex.thy ===== *)
theory Lex
  imports Load
begin

text \<open>
  The lexer \<open>bootstrap/src/lex/lex.c\<close> on the text of a loaded source: trivia, identifiers and keywords,
  integer and string literals, punctuation, the main loop and \<open>lex_tokenize\<close>. Positions are indices
  into the text as in the C code, loops are recursions on the index, and the scanner state is the
  record \<open>lex_scan\<close>. Heap allocation succeeds; the flag \<open>oom\<close> is kept because a record or a span that
  cannot be built raises it too.
\<close>

section \<open>Tokens and tables\<close>

datatype lex_token_kind =
    TOK_EOF | TOK_IDENT | TOK_KEYWORD | TOK_INT_LITERAL | TOK_STR_LITERAL | TOK_PUNCT

datatype lex_keyword =
    KW_NONE | KW_MODULE | KW_IMPORT | KW_PUB | KW_VAR | KW_CONST | KW_FN | KW_STRUCT | KW_ENUM
    | KW_IF | KW_ELSE | KW_WHILE | KW_FOR | KW_BREAK | KW_CONTINUE | KW_RETURN | KW_SWITCH | KW_CASE
    | KW_DEFAULT | KW_TRUE | KW_FALSE | KW_NULL | KW_VOID | KW_BOOL | KW_I8 | KW_I16 | KW_I32
    | KW_I64 | KW_U8 | KW_U16 | KW_U32 | KW_U64 | KW_ISIZE | KW_USIZE | KW_STR | KW_SIZEOF
    | KW_ALIGNOF | KW_CAST | KW_WRAP | KW_LEN | KW_PTR

datatype lex_punct =
    PUNCT_NONE | PUNCT_LPAREN | PUNCT_RPAREN | PUNCT_LBRACE | PUNCT_RBRACE | PUNCT_LBRACKET
    | PUNCT_RBRACKET | PUNCT_SEMI | PUNCT_COMMA | PUNCT_COLON | PUNCT_DOT | PUNCT_ARROW | PUNCT_STAR
    | PUNCT_AMP | PUNCT_PLUS | PUNCT_MINUS | PUNCT_TILDE | PUNCT_BANG | PUNCT_SLASH | PUNCT_PERCENT
    | PUNCT_LT | PUNCT_LE | PUNCT_GT | PUNCT_GE | PUNCT_EQ | PUNCT_NE | PUNCT_AND_AND | PUNCT_OR_OR
    | PUNCT_ASSIGN | PUNCT_PLUS_ASSIGN | PUNCT_MINUS_ASSIGN | PUNCT_STAR_ASSIGN | PUNCT_SLASH_ASSIGN
    | PUNCT_PERCENT_ASSIGN | PUNCT_SHL_ASSIGN | PUNCT_SHR_ASSIGN | PUNCT_AND_ASSIGN
    | PUNCT_OR_ASSIGN | PUNCT_XOR_ASSIGN | PUNCT_SHL | PUNCT_SHR | PUNCT_OR | PUNCT_XOR
    | PUNCT_QUESTION | PUNCT_DOT_DOT

datatype lex_int_type =
    LEX_INT_I8 | LEX_INT_I16 | LEX_INT_I32 | LEX_INT_I64 | LEX_INT_U8 | LEX_INT_U16 | LEX_INT_U32
    | LEX_INT_U64 | LEX_INT_ISIZE | LEX_INT_USIZE

text \<open>The union of \<open>LexToken\<close>, by kind.\<close>

datatype lex_val =
    V_EOF | V_IDENT string | V_KEYWORD lex_keyword | V_INT lex_int_type nat bool
  | V_STR string | V_PUNCT lex_punct

fun tok_kind :: "lex_val \<Rightarrow> lex_token_kind" where
  "tok_kind V_EOF = TOK_EOF"
| "tok_kind (V_IDENT _) = TOK_IDENT"
| "tok_kind (V_KEYWORD _) = TOK_KEYWORD"
| "tok_kind (V_INT _ _ _) = TOK_INT_LITERAL"
| "tok_kind (V_STR _) = TOK_STR_LITERAL"
| "tok_kind (V_PUNCT _) = TOK_PUNCT"

record lex_token =
  tok_val :: lex_val
  tok_span :: "diag_span option"

definition kKeywords :: "(string \<times> lex_keyword) list" where
  "kKeywords =
    [(''alignof'', KW_ALIGNOF), (''bool'', KW_BOOL), (''break'', KW_BREAK), (''case'', KW_CASE),
      (''cast'', KW_CAST), (''const'', KW_CONST), (''continue'', KW_CONTINUE),
      (''default'', KW_DEFAULT), (''else'', KW_ELSE), (''enum'', KW_ENUM), (''false'', KW_FALSE),
      (''fn'', KW_FN), (''for'', KW_FOR), (''i16'', KW_I16), (''i32'', KW_I32), (''i64'', KW_I64),
      (''i8'', KW_I8), (''if'', KW_IF), (''import'', KW_IMPORT), (''isize'', KW_ISIZE),
      (''len'', KW_LEN), (''module'', KW_MODULE), (''null'', KW_NULL), (''ptr'', KW_PTR),
      (''pub'', KW_PUB), (''return'', KW_RETURN), (''sizeof'', KW_SIZEOF), (''str'', KW_STR),
      (''struct'', KW_STRUCT), (''switch'', KW_SWITCH), (''true'', KW_TRUE), (''u16'', KW_U16),
      (''u32'', KW_U32), (''u64'', KW_U64), (''u8'', KW_U8), (''usize'', KW_USIZE),
      (''var'', KW_VAR), (''void'', KW_VOID), (''while'', KW_WHILE), (''wrap'', KW_WRAP)]"

record int_suffix =
  sfx_name :: string
  sfx_type :: lex_int_type
  sfx_width :: nat
  sfx_signed :: bool

definition int_sfx :: "string \<Rightarrow> lex_int_type \<Rightarrow> nat \<Rightarrow> bool \<Rightarrow> int_suffix" where
  "int_sfx n t w sg = \<lparr>sfx_name = n, sfx_type = t, sfx_width = w, sfx_signed = sg\<rparr>"

definition kSuffixes :: "int_suffix list" where
  "kSuffixes =
    [int_sfx ''i8'' LEX_INT_I8 8 True, int_sfx ''i16'' LEX_INT_I16 16 True,
      int_sfx ''i32'' LEX_INT_I32 32 True, int_sfx ''i64'' LEX_INT_I64 64 True,
      int_sfx ''u8'' LEX_INT_U8 8 False, int_sfx ''u16'' LEX_INT_U16 16 False,
      int_sfx ''u32'' LEX_INT_U32 32 False, int_sfx ''u64'' LEX_INT_U64 64 False,
      int_sfx ''isize'' LEX_INT_ISIZE 64 True, int_sfx ''usize'' LEX_INT_USIZE 64 False]"

definition kPuncts :: "(string \<times> lex_punct) list" where
  "kPuncts =
    [(''<<='', PUNCT_SHL_ASSIGN), (''>>='', PUNCT_SHR_ASSIGN), (''->'', PUNCT_ARROW),
      (''..'', PUNCT_DOT_DOT), (''<='', PUNCT_LE), (''>='', PUNCT_GE), (''=='', PUNCT_EQ),
      (''!='', PUNCT_NE), (''&&'', PUNCT_AND_AND), (''||'', PUNCT_OR_OR),
      (''+='', PUNCT_PLUS_ASSIGN), (''-='', PUNCT_MINUS_ASSIGN), (''*='', PUNCT_STAR_ASSIGN),
      (''/='', PUNCT_SLASH_ASSIGN), (''%='', PUNCT_PERCENT_ASSIGN), (''<<'', PUNCT_SHL),
      (''>>'', PUNCT_SHR), (''&='', PUNCT_AND_ASSIGN), (''|='', PUNCT_OR_ASSIGN),
      (''^='', PUNCT_XOR_ASSIGN), (''('', PUNCT_LPAREN), ('')'', PUNCT_RPAREN),
      (''{'', PUNCT_LBRACE), (''}'', PUNCT_RBRACE), (''['', PUNCT_LBRACKET),
      ('']'', PUNCT_RBRACKET), ('';'', PUNCT_SEMI), ('','', PUNCT_COMMA), ('':'', PUNCT_COLON),
      (''.'', PUNCT_DOT), (''*'', PUNCT_STAR), (''&'', PUNCT_AMP), (''+'', PUNCT_PLUS),
      (''-'', PUNCT_MINUS), (''~'', PUNCT_TILDE), (''!'', PUNCT_BANG), (''/'', PUNCT_SLASH),
      (''%'', PUNCT_PERCENT), (''<'', PUNCT_LT), (''>'', PUNCT_GT), (''='', PUNCT_ASSIGN),
      (''?'', PUNCT_QUESTION), (''|'', PUNCT_OR), (''^'', PUNCT_XOR)]"

section \<open>Scanner state\<close>

record lex_scan =
  lx_src :: load_source
  lx_tokens :: "lex_token list"
  lx_records :: "diag_record list"
  lx_oom :: bool
  lx_prev_kind :: lex_token_kind
  lx_prev_punct :: lex_punct
  lx_prev_kw :: lex_keyword
  lx_prev_minus_unary :: bool

abbreviation lx_text :: "lex_scan \<Rightarrow> string" where
  "lx_text s \<equiv> src_text (lx_src s)"

section \<open>Characters\<close>

definition in_range :: "char \<Rightarrow> char \<Rightarrow> char \<Rightarrow> bool" where
  "in_range lo hi c \<longleftrightarrow> ub lo \<le> ub c \<and> ub c \<le> ub hi"

definition is_ident_start :: "char \<Rightarrow> bool" where
  "is_ident_start c \<longleftrightarrow>
     in_range (CHR ''a'') (CHR ''z'') c \<or> in_range (CHR ''A'') (CHR ''Z'') c \<or> c = CHR ''_''"

definition is_digit :: "char \<Rightarrow> bool" where
  "is_digit c \<longleftrightarrow> in_range (CHR ''0'') (CHR ''9'') c"

definition is_ident_cont :: "char \<Rightarrow> bool" where
  "is_ident_cont c \<longleftrightarrow> is_ident_start c \<or> is_digit c"

definition is_hex :: "char \<Rightarrow> bool" where
  "is_hex c \<longleftrightarrow>
     is_digit c \<or> in_range (CHR ''a'') (CHR ''f'') c \<or> in_range (CHR ''A'') (CHR ''F'') c"

definition hex_value :: "char \<Rightarrow> nat" where
  "hex_value c =
     (if is_digit c then ub c - ub (CHR ''0'')
      else if in_range (CHR ''a'') (CHR ''f'') c then ub c - ub (CHR ''a'') + 10
      else ub c - ub (CHR ''A'') + 10)"

definition is_base_digit :: "char \<Rightarrow> nat \<Rightarrow> bool" where
  "is_base_digit c base =
     (if base = 2 then c = CHR ''0'' \<or> c = CHR ''1''
      else if base = 8 then in_range (CHR ''0'') (CHR ''7'') c
      else if base = 16 then is_hex c
      else is_digit c)"

definition digit_value :: "char \<Rightarrow> nat" where
  "digit_value c =
     (if is_digit c then ub c - ub (CHR ''0'')
      else if in_range (CHR ''a'') (CHR ''f'') c then ub c - ub (CHR ''a'') + 10
      else ub c - ub (CHR ''A'') + 10)"

fun is_expr_ending :: "lex_token_kind \<Rightarrow> lex_punct \<Rightarrow> lex_keyword \<Rightarrow> bool" where
  "is_expr_ending TOK_IDENT p k = True"
| "is_expr_ending TOK_INT_LITERAL p k = True"
| "is_expr_ending TOK_STR_LITERAL p k = True"
| "is_expr_ending TOK_KEYWORD p k = (k = KW_TRUE \<or> k = KW_FALSE \<or> k = KW_NULL)"
| "is_expr_ending TOK_PUNCT p k = (p = PUNCT_RPAREN \<or> p = PUNCT_RBRACKET)"
| "is_expr_ending TOK_EOF p k = False"

text \<open>The lexer's own UTF-8 validation of decoded strings, with its loop over the index.\<close>

function utf8_valid_loop :: "string \<Rightarrow> nat \<Rightarrow> bool" where
  "utf8_valid_loop s i =
     (if length s \<le> i then True
      else let b = ub (s ! i); at = (\<lambda>k. ub (s ! (i + k))) in
        if b < 0x80 then utf8_valid_loop s (i + 1)
        else if 0xC2 \<le> b \<and> b \<le> 0xDF then
          if length s \<le> i + 1 then False
          else if at 1 < 0x80 \<or> 0xBF < at 1 then False
          else utf8_valid_loop s (i + 2)
        else if 0xE0 \<le> b \<and> b \<le> 0xEF then
          if length s \<le> i + 2 then False
          else if at 1 < 0x80 \<or> 0xBF < at 1 \<or> at 2 < 0x80 \<or> 0xBF < at 2 then False
          else if b = 0xE0 \<and> at 1 < 0xA0 then False
          else if b = 0xED \<and> 0xA0 \<le> at 1 then False
          else utf8_valid_loop s (i + 3)
        else if 0xF0 \<le> b \<and> b \<le> 0xF4 then
          if length s \<le> i + 3 then False
          else if at 1 < 0x80 \<or> 0xBF < at 1 \<or> at 2 < 0x80 \<or> 0xBF < at 2
               \<or> at 3 < 0x80 \<or> 0xBF < at 3 then False
          else if b = 0xF0 \<and> at 1 < 0x90 then False
          else if b = 0xF4 \<and> 0x90 \<le> at 1 then False
          else utf8_valid_loop s (i + 4)
        else False)"
  by pat_completeness auto
termination by (relation "measure (\<lambda>(s, i). length s - i)") auto

declare utf8_valid_loop.simps [simp del]

definition utf8_valid :: "string \<Rightarrow> bool" where
  "utf8_valid s = utf8_valid_loop s 0"

section \<open>Records and tokens\<close>

definition scan_add_record :: "lex_scan \<Rightarrow> string \<Rightarrow> string \<Rightarrow> nat \<Rightarrow> nat \<Rightarrow> lex_scan" where
  "scan_add_record s code message b e =
     (if lx_oom s then s
      else
     (case setters [\<lambda>r. diag_record_set_code r (Some code),
                    \<lambda>r. diag_record_set_message r (Some message)] diag_record_new of
        None \<Rightarrow> s\<lparr>lx_oom := True\<rparr>
      | Some r \<Rightarrow>
     (case load_span_range (lx_src s) (int b) (int e) of
        None \<Rightarrow> s\<lparr>lx_oom := True\<rparr>
      | Some sp \<Rightarrow>
     (case setters [\<lambda>r. diag_record_set_primary_span r (Some sp),
                    \<lambda>r. diag_record_set_recovery r (Some ''authoritative'')] r of
        None \<Rightarrow> s\<lparr>lx_oom := True\<rparr>
      | Some r' \<Rightarrow> s\<lparr>lx_records := lx_records s @ [r']\<rparr>))))"

definition make_token :: "lex_val \<Rightarrow> load_source \<Rightarrow> nat \<Rightarrow> nat \<Rightarrow> lex_token" where
  "make_token v src b e = \<lparr>tok_val = v, tok_span = load_span_range src (int b) (int e)\<rparr>"

definition scan_emit :: "lex_scan \<Rightarrow> lex_token \<Rightarrow> lex_scan" where
  "scan_emit s tok =
     (if lx_oom s then s
      else s\<lparr>lx_prev_minus_unary :=
               tok_val tok = V_PUNCT PUNCT_MINUS \<and>
               \<not> is_expr_ending (lx_prev_kind s) (lx_prev_punct s) (lx_prev_kw s),
             lx_prev_kind := tok_kind (tok_val tok),
             lx_prev_punct := (case tok_val tok of V_PUNCT p \<Rightarrow> p | _ \<Rightarrow> PUNCT_NONE),
             lx_prev_kw := (case tok_val tok of V_KEYWORD k \<Rightarrow> k | _ \<Rightarrow> KW_NONE),
             lx_tokens := lx_tokens s @ [tok]\<rparr>)"

section \<open>Whitespace and comments\<close>

text \<open>\<open>while (pos < len && P(text[pos])) pos += 1\<close>.\<close>

function scan_while :: "(char \<Rightarrow> bool) \<Rightarrow> string \<Rightarrow> nat \<Rightarrow> nat" where
  "scan_while P text pos =
     (if pos < length text \<and> P (text ! pos) then scan_while P text (pos + 1) else pos)"
  by pat_completeness auto
termination by (relation "measure (\<lambda>(P, text, pos). length text - pos)") auto

declare scan_while.simps [simp del]

text \<open>The loop that looks for the end of a block comment.\<close>

function block_end :: "string \<Rightarrow> nat \<Rightarrow> nat" where
  "block_end text pos =
     (if pos + 1 < length text \<and> \<not> (text ! pos = CHR ''*'' \<and> text ! (pos + 1) = CHR ''/'')
      then block_end text (pos + 1) else pos)"
  by pat_completeness auto
termination by (relation "measure (\<lambda>(text, pos). length text - pos)") auto

declare block_end.simps [simp del]

lemma scan_while_ge: "pos \<le> scan_while P text pos"
  by (induction P "text" pos rule: scan_while.induct) (subst scan_while.simps, auto)

lemma scan_while_le: "pos \<le> length text \<Longrightarrow> scan_while P text pos \<le> length text"
  by (induction P "text" pos rule: scan_while.induct) (subst scan_while.simps, auto)

lemma block_end_ge: "pos \<le> block_end text pos"
  by (induction "text" pos rule: block_end.induct) (subst block_end.simps, auto)

lemma scan_emit_src [simp]: "lx_src (scan_emit s t) = lx_src s"
  by (simp add: scan_emit_def)

lemma scan_add_record_src [simp]: "lx_src (scan_add_record s c m b e) = lx_src s"
  by (simp add: scan_add_record_def split: option.split)

text \<open>One round of the loop of \<open>skip_trivia\<close>; \<open>None\<close> leaves it.\<close>

definition trivia_step :: "lex_scan \<Rightarrow> nat \<Rightarrow> (lex_scan \<times> nat) option" where
  "trivia_step s pos =
     (let t = lx_text s in
      if length t \<le> pos then None
      else if t ! pos = CHR '' '' \<or> t ! pos = CHR 0x09 \<or> t ! pos = LF \<or> t ! pos = CR then Some (s, pos + 1)
      else if t ! pos = CHR ''/'' \<and> pos + 1 < length t then
        if t ! (pos + 1) = CHR ''/'' then Some (s, scan_while (\<lambda>c. c \<noteq> LF) t (pos + 2))
        else if t ! (pos + 1) = CHR ''*'' then
          (let q = block_end t (pos + 2) in
           if q + 1 < length t then Some (s, q + 2)
           else Some (scan_add_record s ''AIC-L0004'' ''unterminated block comment'' pos (length t), length t))
        else None
      else None)"

lemma trivia_step_bounds:
  "trivia_step s pos = Some (s', p) \<Longrightarrow> lx_src s' = lx_src s \<and> pos < length (lx_text s) \<and> pos < p \<and> p \<le> length (lx_text s)"
  using scan_while_ge [of "pos + 2" "\<lambda>c. c \<noteq> LF" "lx_text s"] block_end_ge [of "pos + 2" "lx_text s"]
    scan_while_le [of "pos + 2" "lx_text s" "\<lambda>c. c \<noteq> LF"]
  by (auto simp: trivia_step_def Let_def split: if_split_asm)

function skip_trivia :: "lex_scan \<Rightarrow> nat \<Rightarrow> lex_scan \<times> nat" where
  "skip_trivia s pos =
     (case trivia_step s pos of None \<Rightarrow> (s, pos) | Some (s', p) \<Rightarrow> skip_trivia s' p)"
  by pat_completeness auto
termination
proof (relation "measure (\<lambda>(s, pos). length (lx_text s) - pos)")
  fix s :: lex_scan and pos x s' p assume "trivia_step s pos = Some x" "(s', p) = x"
  then have "trivia_step s pos = Some (s', p)" by simp
  from trivia_step_bounds [OF this] show "((s', p), s, pos) \<in> measure (\<lambda>(s, pos). length (lx_text s) - pos)"
    by auto
qed simp

declare skip_trivia.simps [simp del]

lemma skip_trivia_bounds:
  "skip_trivia s pos = (s', p) \<Longrightarrow> lx_src s' = lx_src s \<and> pos \<le> p \<and> (pos \<le> length (lx_text s) \<longrightarrow> p \<le> length (lx_text s))"
proof (induction s pos rule: skip_trivia.induct)
  case (1 s pos)
  show ?case
  proof (cases "trivia_step s pos")
    case None
    with "1.prems" show ?thesis by (simp add: skip_trivia.simps)
  next
    case (Some r)
    obtain s1 p1 where r: "r = (s1, p1)" by (cases r)
    with "1.prems" Some "1.IH" [OF Some r [symmetric]] trivia_step_bounds [of s pos s1 p1] show ?thesis
      by (simp add: skip_trivia.simps [of s])
  qed
qed

section \<open>Identifiers and keywords\<close>

abbreviation slice :: "string \<Rightarrow> nat \<Rightarrow> nat \<Rightarrow> string" where
  "slice text b e \<equiv> take (e - b) (drop b text)"

definition find_keyword :: "string \<Rightarrow> lex_keyword" where
  "find_keyword w = (case find (\<lambda>e. w = fst e) kKeywords of None \<Rightarrow> KW_NONE | Some e \<Rightarrow> snd e)"

definition scan_ident :: "lex_scan \<Rightarrow> nat \<Rightarrow> lex_scan \<times> nat" where
  "scan_ident s start =
     (let pos = scan_while is_ident_cont (lx_text s) start;
          w = slice (lx_text s) start pos;
          kw = find_keyword w;
          v = (if kw \<noteq> KW_NONE then V_KEYWORD kw else V_IDENT w)
      in (scan_emit s (make_token v (lx_src s) start pos), pos))"

section \<open>Integer literals\<close>

definition match_suffix :: "string \<Rightarrow> nat \<Rightarrow> int_suffix option" where
  "match_suffix text i =
     find (\<lambda>sx. let n = length (sfx_name sx) in
             i + n \<le> length text \<and> take n (drop i text) = sfx_name sx \<and>
             \<not> (i + n < length text \<and> is_ident_cont (text ! (i + n)))) kSuffixes"

definition literal_text :: "string \<Rightarrow> nat \<Rightarrow> nat \<Rightarrow> string" where
  "literal_text text b e = take 159 (filter (\<lambda>c. c \<noteq> CHR ''_'') (slice text b e))"

definition signed_magnitude_fits :: "int_suffix \<Rightarrow> nat \<Rightarrow> bool \<Rightarrow> bool" where
  "signed_magnitude_fits sx value unary_minus \<longleftrightarrow>
     value \<le> (if 64 \<le> sfx_width sx
               then if unary_minus then 9223372036854775808 else 9223372036854775807
               else if unary_minus then 2 ^ (sfx_width sx - 1) else 2 ^ (sfx_width sx - 1) - 1)"

definition unsigned_magnitude_fits :: "int_suffix \<Rightarrow> nat \<Rightarrow> bool" where
  "unsigned_magnitude_fits sx value \<longleftrightarrow> 64 \<le> sfx_width sx \<or> value \<le> 2 ^ sfx_width sx - 1"

definition int_prefix :: "string \<Rightarrow> nat \<Rightarrow> nat \<times> nat" where
  "int_prefix text i =
     (if text ! i = CHR ''0'' \<and> i + 1 < length text then
        (let p = text ! (i + 1) in
         if p = CHR ''x'' \<or> p = CHR ''X'' then (16, i + 2)
         else if p = CHR ''b'' \<or> p = CHR ''B'' then (2, i + 2)
         else if p = CHR ''o'' \<or> p = CHR ''O'' then (8, i + 2)
         else (10, i))
      else (10, i))"

text \<open>The value loop over the digit run, with the overflow test before each step.\<close>

abbreviation U64_MAX :: nat where "U64_MAX \<equiv> 18446744073709551615"

fun int_value :: "nat \<Rightarrow> string \<Rightarrow> nat \<Rightarrow> nat option" where
  "int_value base [] value = Some value"
| "int_value base (c # cs) value =
     (if c = CHR ''_'' then int_value base cs value
      else if (U64_MAX - digit_value c) div base < value then None
      else int_value base cs (value * base + digit_value c))"

definition underscore_error :: "string \<Rightarrow> nat \<Rightarrow> nat \<Rightarrow> nat \<Rightarrow> bool" where
  "underscore_error text base ds de =
     list_ex (\<lambda>k. text ! k = CHR ''_'' \<and>
        \<not> (ds < k \<and> is_base_digit (text ! (k - 1)) base \<and>
           k + 1 < de \<and> is_base_digit (text ! (k + 1)) base)) [ds..<de]"

definition lex_int_type_text :: "lex_int_type \<Rightarrow> string option" where
  "lex_int_type_text t = map_option sfx_name (find (\<lambda>sx. sfx_type sx = t) kSuffixes)"

definition emit_unsuffixed :: "lex_scan \<Rightarrow> nat \<Rightarrow> nat \<Rightarrow> nat \<Rightarrow> nat option \<Rightarrow> lex_scan" where
  "emit_unsuffixed s start de i value =
     (case value of
        None \<Rightarrow>
          scan_add_record s ''AIC-L0006''
            (''integer literal '' @ literal_text (lx_text s) start de @
             '' is not representable in any integer type'') start i
      | Some v \<Rightarrow>
          let ty = (if v \<le> 2147483647 then LEX_INT_I32
                    else if v \<le> 9223372036854775807 then LEX_INT_I64 else LEX_INT_U64)
          in scan_emit s (make_token (V_INT ty v False) (lx_src s) start i))"

definition emit_suffixed :: "lex_scan \<Rightarrow> nat \<Rightarrow> nat \<Rightarrow> nat \<Rightarrow> int_suffix \<Rightarrow> nat option \<Rightarrow> lex_scan" where
  "emit_suffixed s start de i sx value =
     (let unary_minus = lx_prev_minus_unary s in
      case value of
        Some v \<Rightarrow>
          if (if sfx_signed sx then signed_magnitude_fits sx v unary_minus
              else unsigned_magnitude_fits sx v)
          then scan_emit s (make_token
                 (V_INT (sfx_type sx) v
                    (sfx_signed sx \<and> unary_minus \<and>
                     (if 64 \<le> sfx_width sx then v = 9223372036854775808 else v = 2 ^ (sfx_width sx - 1))))
                 (lx_src s) start i)
          else scan_add_record s ''AIC-L0006''
                 (''integer literal '' @ literal_text (lx_text s) start de @
                  '' is not representable in type '' @ the (lex_int_type_text (sfx_type sx))) start i
      | None \<Rightarrow>
          scan_add_record s ''AIC-L0006''
            (''integer literal '' @ literal_text (lx_text s) start de @
             '' is not representable in type '' @ the (lex_int_type_text (sfx_type sx))) start i)"

definition scan_integer :: "lex_scan \<Rightarrow> nat \<Rightarrow> lex_scan \<times> nat" where
  "scan_integer s start =
     (let t = lx_text s in
      case int_prefix t start of (base, ds) \<Rightarrow>
      let de = scan_while (\<lambda>c. is_base_digit c base \<or> c = CHR ''_'') t ds in
      if \<not> list_ex (\<lambda>k. t ! k \<noteq> CHR ''_'') [ds..<de] then
        (scan_add_record s ''AIC-L0001'' ''malformed integer literal'' start de, de)
      else if base = 10 \<and> t ! start = CHR ''0'' \<and> 1 < de - ds then
        (scan_add_record s ''AIC-L0001'' ''malformed integer literal'' start de, de)
      else
        let sx = (if de < length t \<and> (t ! de = CHR ''i'' \<or> t ! de = CHR ''u'')
                  then match_suffix t de else None);
            i = de + (case sx of None \<Rightarrow> 0 | Some x \<Rightarrow> length (sfx_name x))
        in if underscore_error t base ds de then
             (scan_add_record s ''AIC-L0005'' (''misplaced '' @ [CHR 0x27, CHR ''_'', CHR 0x27] @ '' in integer literal'') start i, i)
           else
             let value = int_value base (slice t ds de) 0
             in (case sx of
                   None \<Rightarrow> (emit_unsuffixed s start de i value, i)
                 | Some x \<Rightarrow> (emit_suffixed s start de i x value, i)))"

section \<open>String literals\<close>

text \<open>The one-character escapes and the byte each stands for.\<close>

definition escape_byte :: "char \<Rightarrow> char option" where
  "escape_byte e =
     (if e = CHR ''0'' then Some (CHR 0x00) else if e = CHR ''n'' then Some LF
      else if e = CHR ''r'' then Some CR else if e = CHR ''t'' then Some (CHR 0x09)
      else if e = BSLASH then Some BSLASH else if e = QUOTE then Some QUOTE else None)"

text \<open>One round of the loop of \<open>scan_string_one\<close>. \<open>Inl\<close>: the loop goes on with the scanner, the index, the
  flags \<open>invalid\<close> and \<open>discard\<close>, and the decoded bytes; \<open>Inr\<close>: it ends with the scanner, the bytes, the
  end of the literal and whether the literal is valid.\<close>

type_synonym string_state = "lex_scan \<times> nat \<times> bool \<times> bool \<times> string"
type_synonym string_result = "lex_scan \<times> string \<times> nat \<times> bool"

definition string_step ::
  "lex_scan \<Rightarrow> nat \<Rightarrow> nat \<Rightarrow> bool \<Rightarrow> bool \<Rightarrow> string \<Rightarrow> string_state + string_result" where
  "string_step s start i invalid discard bytes =
     (let t = lx_text s;
          unterminated = Inr (scan_add_record s ''AIC-L0001'' ''unterminated string literal'' start (length t),
                              bytes, length t, False);
          byte = (\<lambda>b i'. Inl (s, i', invalid, discard, if discard then bytes else bytes @ [b]));
          bad_escape = (\<lambda>e. if discard then Inl (s, e, invalid, discard, bytes)
             else Inl (scan_add_record s ''AIC-L0008'' ''invalid escape sequence'' i e, e, True, discard, bytes))
      in
      if length t \<le> i then unterminated
      else if t ! i = QUOTE then Inr (s, bytes, i + 1, \<not> invalid)
      else if t ! i = LF then
        (if discard then Inl (s, i + 1, invalid, discard, bytes)
         else Inl (scan_add_record s ''AIC-L0007'' ''line terminator inside string literal'' i (i + 1),
                   i + 1, True, True, bytes))
      else if t ! i = BSLASH then
        (if length t \<le> i + 1 then unterminated
         else (case escape_byte (t ! (i + 1)) of
             Some b \<Rightarrow> byte b (i + 2)
           | None \<Rightarrow>
               if t ! (i + 1) = CHR ''x'' then
                 if i + 3 < length t \<and> is_hex (t ! (i + 2)) \<and> is_hex (t ! (i + 3))
                 then byte (char_of (hex_value (t ! (i + 2)) * 16 + hex_value (t ! (i + 3)))) (i + 4)
                 else bad_escape (i + 2 + length (takeWhile is_hex (take 2 (drop (i + 2) t))))
               else bad_escape (i + 2)))
      else byte (t ! i) (i + 1))"

lemma hex_run_le: "i \<le> length t \<Longrightarrow> i + length (takeWhile P (take n (drop i t))) \<le> length t"
proof -
  assume "i \<le> length t"
  moreover have "length (takeWhile P (take n (drop i t))) \<le> length (take n (drop i t))"
    by (rule length_takeWhile_le)
  moreover have "length (take n (drop i t)) \<le> length t - i" by simp
  ultimately show ?thesis by linarith
qed

lemma string_step_Inl:
  "string_step s start i iv d bs = Inl (s', i', iv', d', bs') \<Longrightarrow>
     lx_src s' = lx_src s \<and> i < length (lx_text s) \<and> i < i' \<and> i' \<le> length (lx_text s)"
  using hex_run_le [of "i + 2" "lx_text s" is_hex 2]
  by (auto simp: string_step_def Let_def split: if_split_asm option.split_asm)

lemma string_step_Inr:
  "string_step s start i iv d bs = Inr (s', bs', e, ok) \<Longrightarrow> i \<le> length (lx_text s) \<Longrightarrow>
     lx_src s' = lx_src s \<and> i \<le> e \<and> (i < length (lx_text s) \<longrightarrow> i < e) \<and> e \<le> length (lx_text s)"
  by (auto simp: string_step_def Let_def split: if_split_asm option.split_asm)

function string_loop ::
  "lex_scan \<Rightarrow> nat \<Rightarrow> nat \<Rightarrow> bool \<Rightarrow> bool \<Rightarrow> string \<Rightarrow> string_result" where
  "string_loop s start i invalid discard bytes =
     (case string_step s start i invalid discard bytes of
        Inr r \<Rightarrow> r
      | Inl (s', i', invalid', discard', bytes') \<Rightarrow> string_loop s' start i' invalid' discard' bytes')"
  by pat_completeness auto
termination
proof (relation "measure (\<lambda>(s, start, i, invalid, discard, bytes). length (lx_text s) - i)")
  fix s :: lex_scan and start i iv d bs x s' x1 i' x2 iv' x3 d' bs'
  assume "string_step s start i iv d bs = Inl x" "(s', x1) = x" "(i', x2) = x1" "(iv', x3) = x2" "(d', bs') = x3"
  then show "((s', start, i', iv', d', bs'), s, start, i, iv, d, bs)
      \<in> measure (\<lambda>(s, start, i, invalid, discard, bytes). length (lx_text s) - i)"
    using string_step_Inl [of s start i iv d bs s' i' iv' d' bs'] by auto
qed simp

declare string_loop.simps [simp del]

definition scan_string_one :: "lex_scan \<Rightarrow> nat \<Rightarrow> string_result" where
  "scan_string_one s start = string_loop s start (start + 1) False False []"

lemma string_loop_bounds:
  "string_loop s start i iv d bs = (s', bs', e, ok) \<Longrightarrow> i \<le> length (lx_text s) \<Longrightarrow>
    lx_src s' = lx_src s \<and> i \<le> e \<and> (i < length (lx_text s) \<longrightarrow> i < e) \<and> e \<le> length (lx_text s)"
proof (induction s start i iv d bs rule: string_loop.induct)
  case (1 s start i iv d bs)
  show ?case
  proof (cases "string_step s start i iv d bs")
    case (Inr r)
    with "1.prems" string_step_Inr [of s start i iv d bs s' bs' e ok] show ?thesis
      by (simp add: string_loop.simps)
  next
    case (Inl x)
    obtain s1 i1 iv1 d1 bs1 where x: "x = (s1, i1, iv1, d1, bs1)" by (cases x)
    note st = string_step_Inl [OF Inl [unfolded x]]
    have "string_loop s1 start i1 iv1 d1 bs1 = (s', bs', e, ok)"
      using "1.prems"(1) Inl x by (simp add: string_loop.simps [of s])
    from "1.IH" [OF Inl x [symmetric] refl refl refl this] st show ?thesis by auto
  qed
qed

text \<open>The concatenation loop of \<open>scan_string\<close>: \<open>Inl\<close> when a component failed (with the position after
  it), \<open>Inr\<close> with all bytes and the end of the last component.\<close>

function string_more :: "lex_scan \<Rightarrow> nat \<Rightarrow> string \<Rightarrow> lex_scan \<times> (nat + string \<times> nat)" where
  "string_more s e bytes =
     (case skip_trivia s e of (s1, p) \<Rightarrow>
        if length (lx_text s1) \<le> p \<or> lx_text s1 ! p \<noteq> QUOTE then (s1, Inr (bytes, e))
        else (case scan_string_one s1 p of (s2, cb, comp_end, ok) \<Rightarrow>
                if \<not> ok then (s2, Inl comp_end)
                else string_more s2 comp_end (bytes @ cb)))"
  by pat_completeness auto
termination
proof (relation "measure (\<lambda>(s, e, bytes). length (lx_text s) - e)")
  fix s :: lex_scan and e bytes s1 p s2 y cb ya comp_end ok
  assume x: "(s1, p) = skip_trivia s e"
    and n: "\<not> (length (lx_text s1) \<le> p \<or> lx_text s1 ! p \<noteq> QUOTE)"
    and one: "(s2, y) = scan_string_one s1 p" "(cb, ya) = y" "(comp_end, ok) = ya"
  have tr: "lx_src s1 = lx_src s" "e \<le> p"
    using skip_trivia_bounds [of s e s1 p] x by simp_all
  have "string_loop s1 p (p + 1) False False [] = (s2, cb, comp_end, ok)"
    using one by (simp add: scan_string_one_def)
  from string_loop_bounds [OF this] tr n show "((s2, comp_end, bytes @ cb), s, e, bytes) \<in> measure (\<lambda>(s, e, bytes). length (lx_text s) - e)"
    by auto
qed simp

declare string_more.simps [simp del]

definition scan_string :: "lex_scan \<Rightarrow> nat \<Rightarrow> lex_scan \<times> nat" where
  "scan_string s start =
     (case scan_string_one s start of (s1, bytes1, end1, ok) \<Rightarrow>
        if \<not> ok then (s1, end1)
        else (case string_more s1 end1 bytes1 of
                (s2, Inl p) \<Rightarrow> (s2, p)
              | (s2, Inr (bytes, e)) \<Rightarrow>
                  if \<not> utf8_valid bytes then
                    (scan_add_record s2 ''AIC-L0009''
                       ''string literal bytes not valid UTF-8 after escape expansion'' start e, e)
                  else (scan_emit s2 (make_token (V_STR bytes) (lx_src s2) start e), e)))"

section \<open>Punctuation\<close>

definition scan_punct :: "lex_scan \<Rightarrow> nat \<Rightarrow> lex_scan \<times> nat" where
  "scan_punct s pos =
     (let t = lx_text s in
      case find (\<lambda>e. pos + length (fst e) \<le> length t \<and> take (length (fst e)) (drop pos t) = fst e) kPuncts of
        Some (w, p) \<Rightarrow>
          (scan_emit s (make_token (V_PUNCT p) (lx_src s) pos (pos + length w)), pos + length w)
      | None \<Rightarrow>
          let b = ub (t ! pos);
              n0 = (if 0xC2 \<le> b \<and> b \<le> 0xDF then 2 else if 0xE0 \<le> b \<and> b \<le> 0xEF then 3
                    else if 0xF0 \<le> b \<and> b \<le> 0xF4 then 4 else 1);
              n = (if length t < pos + n0 then length t - pos else n0)
          in (scan_add_record s ''AIC-L0001'' ''invalid character in source'' pos (pos + n), pos + n))"

section \<open>The main loop\<close>

text \<open>One round of the loop at a position where trivia has been skipped.\<close>

definition scan_one :: "lex_scan \<Rightarrow> nat \<Rightarrow> lex_scan \<times> nat" where
  "scan_one s pos =
     (let c = lx_text s ! pos in
      if is_ident_start c then scan_ident s pos
      else if is_digit c then scan_integer s pos
      else if c = QUOTE then scan_string s pos
      else scan_punct s pos)"

lemma scan_string_one_facts:
  assumes "scan_string_one s p = (s', bs, e, ok)" and "p < length (lx_text s)"
  shows "lx_src s' = lx_src s \<and> p < e \<and> e \<le> length (lx_text s)"
  using string_loop_bounds [of s p "p + 1" False False "[]" s' bs e ok] assms
  by (auto simp: scan_string_one_def)

lemma string_more_facts:
  assumes "string_more s e bs = (s', r)" and "e \<le> length (lx_text s)"
  shows "lx_src s' = lx_src s \<and> (case r of Inl p \<Rightarrow> e \<le> p \<and> p \<le> length (lx_text s)
     | Inr (bs', e') \<Rightarrow> e \<le> e' \<and> e' \<le> length (lx_text s))"
  using assms
proof (induction s e bs rule: string_more.induct)
  case (1 s e bs)
  obtain s1 p where st: "skip_trivia s e = (s1, p)" by (cases "skip_trivia s e")
  note b = skip_trivia_bounds [OF st]
  show ?case
  proof (cases "length (lx_text s1) \<le> p \<or> lx_text s1 ! p \<noteq> QUOTE")
    case True
    with "1.prems" st b show ?thesis by (subst (asm) string_more.simps) auto
  next
    case False
    obtain s2 cb e2 ok where one: "scan_string_one s1 p = (s2, cb, e2, ok)"
      by (cases "scan_string_one s1 p")
    have f: "lx_src s2 = lx_src s" "e < e2" "e2 \<le> length (lx_text s)"
      using scan_string_one_facts [OF one] False b by auto
    show ?thesis
    proof (cases ok)
      case True
      have "string_more s2 e2 (bs @ cb) = (s', r)"
        using "1.prems"(1) st False one True by (subst (asm) string_more.simps) auto
      from "1.IH" [OF st [symmetric] False one [symmetric] refl refl _ this] True f show ?thesis
        by (auto split: sum.splits)
    next
      case not: False
      with "1.prems" st False one f show ?thesis by (subst (asm) string_more.simps) auto
    qed
  qed
qed

definition step_ok :: "lex_scan \<Rightarrow> nat \<Rightarrow> lex_scan \<times> nat \<Rightarrow> bool" where
  "step_ok s pos r \<longleftrightarrow> lx_src (fst r) = lx_src s \<and> pos < snd r \<and> snd r \<le> length (lx_text s)"

lemma scan_while_gt: "pos < length t \<Longrightarrow> P (t ! pos) \<Longrightarrow> pos < scan_while P t pos"
  using scan_while_ge [of "pos + 1" P t] by (subst scan_while.simps) simp

lemma scan_ident_step: "pos < length (lx_text s) \<Longrightarrow> is_ident_start (lx_text s ! pos) \<Longrightarrow> step_ok s pos (scan_ident s pos)"
  by (simp add: step_ok_def scan_ident_def Let_def scan_while_gt is_ident_cont_def scan_while_le)

lemma int_prefix_bounds:
  "int_prefix t i = (base, ds) \<Longrightarrow> i < length t \<Longrightarrow> i \<le> ds \<and> ds \<le> length t \<and> (base = 10 \<longrightarrow> ds = i)"
  by (auto simp: int_prefix_def Let_def split: if_split_asm)

lemma match_suffix_le: "match_suffix t i = Some sx \<Longrightarrow> i + length (sfx_name sx) \<le> length t"
  by (auto simp: match_suffix_def Let_def find_Some_iff)

lemma scan_emit_misc: "lx_src (emit_unsuffixed s a b c v) = lx_src s" "lx_src (emit_suffixed s a b c sx v) = lx_src s"
  by (simp_all add: emit_unsuffixed_def emit_suffixed_def Let_def split: option.split)

lemma scan_integer_step:
  assumes "pos < length (lx_text s)" and "is_digit (lx_text s ! pos)"
  shows "step_ok s pos (scan_integer s pos)"
proof -
  obtain base ds where pr: "int_prefix (lx_text s) pos = (base, ds)" by (cases "int_prefix (lx_text s) pos")
  note pb = int_prefix_bounds [OF pr assms(1)]
  let ?de = "scan_while (\<lambda>c. is_base_digit c base \<or> c = CHR ''_'') (lx_text s) ds"
  have le: "ds \<le> ?de" "?de \<le> length (lx_text s)"
    using pb by (simp_all add: scan_while_ge scan_while_le)
  have gt: "pos < ?de"
  proof (cases "base = 10")
    case True
    then show ?thesis using pb assms by (simp add: scan_while_gt is_base_digit_def)
  next
    case False
    then have "pos < ds" using pr by (auto simp: int_prefix_def Let_def split: if_split_asm)
    with le show ?thesis by simp
  qed
  show ?thesis
    unfolding scan_integer_def Let_def pr prod.case step_ok_def
    using gt le match_suffix_le [of "lx_text s" ?de]
    by (auto simp: scan_emit_misc split: option.split)
qed

lemma kPuncts_ne: "(w, p) \<in> set kPuncts \<Longrightarrow> w \<noteq> []"
  by (auto simp: kPuncts_def)

lemma scan_punct_step:
  assumes "pos < length (lx_text s)"
  shows "step_ok s pos (scan_punct s pos)"
proof (cases "find (\<lambda>e. pos + length (fst e) \<le> length (lx_text s) \<and>
    take (length (fst e)) (drop pos (lx_text s)) = fst e) kPuncts")
  case None
  then show ?thesis using assms by (simp add: step_ok_def scan_punct_def Let_def)
next
  case (Some e)
  obtain w p where e: "e = (w, p)" by (cases e)
  have "(w, p) \<in> set kPuncts" "pos + length w \<le> length (lx_text s)"
    using find_SomeD [OF Some] e by auto
  then show ?thesis using Some e kPuncts_ne [of w p] by (simp add: step_ok_def scan_punct_def Let_def)
qed

lemma scan_string_step:
  assumes "pos < length (lx_text s)"
  shows "step_ok s pos (scan_string s pos)"
proof -
  obtain s1 b1 e1 ok where one: "scan_string_one s pos = (s1, b1, e1, ok)" by (cases "scan_string_one s pos")
  note f = scan_string_one_facts [OF one assms]
  show ?thesis
  proof (cases ok)
    case False
    with f one show ?thesis by (simp add: step_ok_def scan_string_def)
  next
    case True
    obtain s2 r where more: "string_more s1 e1 b1 = (s2, r)" by (cases "string_more s1 e1 b1")
    have "lx_src s2 = lx_src s1 \<and> (case r of Inl p \<Rightarrow> e1 \<le> p \<and> p \<le> length (lx_text s1)
       | Inr (bs', e') \<Rightarrow> e1 \<le> e' \<and> e' \<le> length (lx_text s1))"
      using string_more_facts [OF more] f by simp
    with f one True more show ?thesis
      by (cases r) (auto simp: step_ok_def scan_string_def)
  qed
qed

lemma scan_one_step: "pos < length (lx_text s) \<Longrightarrow> step_ok s pos (scan_one s pos)"
  by (simp add: scan_one_def Let_def scan_ident_step scan_integer_step scan_string_step scan_punct_step)

function lex_run :: "lex_scan \<Rightarrow> nat \<Rightarrow> lex_scan" where
  "lex_run s pos =
     (case skip_trivia s pos of (s1, p1) \<Rightarrow>
        if lx_oom s1 then s1
        else if length (lx_text s1) \<le> p1 then
          scan_emit s1 (make_token V_EOF (lx_src s1) p1 p1)
        else (case scan_one s1 p1 of (s2, p2) \<Rightarrow>
                if lx_oom s2 then s2 else lex_run s2 p2))"
  by pat_completeness auto
termination
proof (relation "measure (\<lambda>(s, pos). length (lx_text s) - pos)")
  fix s :: lex_scan and pos s1 p1 s2 p2
  assume tr: "(s1, p1) = skip_trivia s pos" and n: "\<not> length (lx_text s1) \<le> p1"
    and one: "(s2, p2) = scan_one s1 p1"
  have "lx_src s1 = lx_src s" "pos \<le> p1" using skip_trivia_bounds [of s pos s1 p1] tr by simp_all
  with scan_one_step [of p1 s1] n show "((s2, p2), s, pos) \<in> measure (\<lambda>(s, pos). length (lx_text s) - pos)"
    by (auto simp: one [symmetric] step_ok_def)
qed simp

declare lex_run.simps [simp del]

datatype lex_result =
    LEX_OK "lex_token list"
  | LEX_DIAG_ERROR "lex_token list" "diag_record option list"
  | LEX_OOM

definition lex_start :: "load_source \<Rightarrow> lex_scan" where
  "lex_start src =
     \<lparr>lx_src = src, lx_tokens = [], lx_records = [], lx_oom = False, lx_prev_kind = TOK_EOF,
      lx_prev_punct = PUNCT_NONE, lx_prev_kw = KW_NONE, lx_prev_minus_unary = False\<rparr>"

definition lex_tokenize ::
  "((diag_record option \<Rightarrow> diag_record option \<Rightarrow> int) \<Rightarrow> diag_record option list
     \<Rightarrow> diag_record option list) \<Rightarrow> load_source \<Rightarrow> lex_result" where
  "lex_tokenize qsort src =
     (let s = lex_run (lex_start src) 0 in
      if lx_oom s then LEX_OOM
      else if lx_records s \<noteq> [] then
        LEX_DIAG_ERROR (lx_tokens s) (the (diag_sort_records qsort (Some (map Some (lx_records s)))))
      else LEX_OK (lx_tokens s))"

section \<open>Text of keywords, punctuation and types\<close>

definition lex_keyword_text :: "lex_keyword \<Rightarrow> string option" where
  "lex_keyword_text kw = map_option fst (find (\<lambda>e. snd e = kw) kKeywords)"

definition lex_punct_text :: "lex_punct \<Rightarrow> string option" where
  "lex_punct_text p = map_option fst (find (\<lambda>e. snd e = p) kPuncts)"

end
