(* ===== verification/LexProps.thy ===== *)
theory LexProps
  imports Lex DiagJson
begin

text \<open>
  Correctness of the lexer: its UTF-8 validation against the specification, the value of integer
  literals, the invariant of the token stream (order, spans, meaning of every token), the records
  it reports, and the round trip of rendered tokens.
\<close>

section \<open>UTF-8 validation\<close>

lemma utf8_valid_loop_seq:
  assumes "s \<noteq> []"
  shows "utf8_valid_loop (p @ s) (length p) =
    (case utf8_seq s of None \<Rightarrow> False | Some n \<Rightarrow> utf8_valid_loop (p @ s) (length p + n))"
proof -
  obtain c0 r where s: "s = c0 # r" using assms by (cases s) auto
  define b where "b = ub c0"
  note m = Let_def nth_suffix s utf8_seq_def b_def [symmetric]
  consider "b < 0x80" | "0x80 \<le> b" "b < 0xC2 \<or> 0xF4 < b" | "0xC2 \<le> b" "b \<le> 0xDF"
    | "0xE0 \<le> b" "b \<le> 0xEF" | "0xF0 \<le> b" "b \<le> 0xF4"
    by linarith
  then show ?thesis
  proof cases
    case 1
    then show ?thesis by (subst utf8_valid_loop.simps) (simp add: m)
  next
    case 2
    from 2(2) show ?thesis
    proof
      assume "b < 0xC2"
      with 2(1) show ?thesis by (subst utf8_valid_loop.simps) (simp add: m)
    next
      assume "0xF4 < b"
      then show ?thesis by (subst utf8_valid_loop.simps) (simp add: m)
    qed
  next
    case 3
    then show ?thesis by (subst utf8_valid_loop.simps, cases r) (auto simp: m not_le not_less)
  next
    case 4
    consider "r = []" | c1 where "r = [c1]" | c1 c2 r2 where "r = c1 # c2 # r2" by (metis neq_Nil_conv)
    then show ?thesis
    proof cases
      case (3 c1 c2 r2)
      define u1 u2 where "u1 = ub c1" and "u2 = ub c2"
      show ?thesis using 4
        by (subst utf8_valid_loop.simps, simp add: m 3 u1_def [symmetric] u2_def [symmetric], linarith?)
    qed (insert 4, (subst utf8_valid_loop.simps, simp add: m)+)
  next
    case 5
    consider "r = []" | c1 where "r = [c1]" | c1 c2 where "r = [c1, c2]"
      | c1 c2 c3 r2 where "r = c1 # c2 # c3 # r2" by (metis neq_Nil_conv)
    then show ?thesis
    proof cases
      case (4 c1 c2 c3 r2)
      define u1 u2 u3 where "u1 = ub c1" and "u2 = ub c2" and "u3 = ub c3"
      show ?thesis using 5
        by (subst utf8_valid_loop.simps, simp add: m 4 u1_def [symmetric] u2_def [symmetric] u3_def [symmetric], linarith?)
    qed (insert 5, (subst utf8_valid_loop.simps, simp add: m)+)
  qed
qed

lemma utf8_valid_loop_check: "utf8_valid_loop (p @ s) (length p) = utf8_check s"
proof (induction s arbitrary: p rule: length_induct)
  case (1 s)
  show ?case
  proof (cases "s = []")
    case True
    then show ?thesis by (simp add: utf8_valid_loop.simps utf8_check.simps)
  next
    case False
    show ?thesis
    proof (cases "utf8_seq s")
      case None
      then show ?thesis using False by (simp add: utf8_valid_loop_seq utf8_check.simps [of s])
    next
      case (Some n)
      from utf8_seq_decode [OF Some] have n: "0 < n" "n \<le> length s" by blast+
      have "utf8_valid_loop ((p @ take n s) @ drop n s) (length (p @ take n s)) = utf8_check (drop n s)"
        using 1 n by (metis diff_less length_drop length_greater_0_conv False)
      then show ?thesis using False Some n by (simp add: utf8_valid_loop_seq utf8_check.simps [of s])
    qed
  qed
qed

lemma utf8_valid_check: "utf8_valid s = utf8_check s"
  using utf8_valid_loop_check [of "[]" s] by (simp add: utf8_valid_def)

interpretation lex_utf8: utf8_validator utf8_valid
  unfolding utf8_valid_check [abs_def] by (rule utf8_check.utf8_validator_axioms)

section \<open>The value of a digit run\<close>

definition digits_num :: "nat \<Rightarrow> string \<Rightarrow> nat" where
  "digits_num base cs = foldl (\<lambda>a c. a * base + digit_value c) 0 (filter (\<lambda>c. c \<noteq> CHR ''_'') cs)"

lemma foldl_digits_ge:
  "1 \<le> base \<Longrightarrow> v \<le> foldl (\<lambda>a c. a * base + digit_value c) v (cs :: string)"
proof (induction cs arbitrary: v)
  case (Cons c cs)
  have "v * 1 \<le> v * base" by (rule mult_le_mono2) (rule Cons.prems)
  then have "v \<le> v * base + digit_value c" unfolding mult_1_right by (rule trans_le_add1)
  also have "\<dots> \<le> foldl (\<lambda>a c. a * base + digit_value c) (v * base + digit_value c) cs"
    using Cons by blast
  finally show ?case by simp
qed simp

lemma digit_value_less: "digit_value c < 256"
proof -
  have "ub c < 256" by (rule ub_less)
  moreover have "digit_value c = ub c - 48 \<or> digit_value c = ub c - 97 + 10 \<or> digit_value c = ub c - 65 + 10"
    by (simp add: digit_value_def)
  ultimately show ?thesis by linarith
qed

lemma int_value_foldl:
  assumes "1 \<le> base" and "v \<le> U64_MAX"
  shows "int_value base cs v =
    (let w = foldl (\<lambda>a c. a * base + digit_value c) v (filter (\<lambda>c. c \<noteq> CHR ''_'') cs)
     in if w \<le> U64_MAX then Some w else None)"
  using assms(2)
proof (induction cs arbitrary: v)
  case (Cons c cs)
  let ?d = "digit_value c"
  have d: "?d \<le> U64_MAX" using digit_value_less [of c] by simp
  have "(U64_MAX - ?d) div base < v \<longleftrightarrow> U64_MAX - ?d < v * base"
    using assms(1) by (simp add: div_less_iff_less_mult)
  also have "\<dots> \<longleftrightarrow> U64_MAX < v * base + ?d" using d by linarith
  finally have o: "(U64_MAX - ?d) div base < v \<longleftrightarrow> U64_MAX < v * base + ?d" .
  show ?case
  proof (cases "c = CHR ''_''")
    case False
    show ?thesis
    proof (cases "U64_MAX < v * base + ?d")
      case True
      with foldl_digits_ge [OF assms(1), of "v * base + ?d" "filter (\<lambda>c. c \<noteq> CHR ''_'') cs"]
      have "\<not> foldl (\<lambda>a c. a * base + digit_value c) (v * base + ?d) (filter (\<lambda>c. c \<noteq> CHR ''_'') cs) \<le> U64_MAX"
        by linarith
      with True False o show ?thesis by (simp add: Let_def)
    next
      case le: False
      with Cons.IH [of "v * base + ?d"] False o show ?thesis by (simp add: Let_def)
    qed
  qed (use Cons in simp)
qed simp

lemma int_value_spec:
  "1 \<le> base \<Longrightarrow> int_value base cs 0 = (if digits_num base cs \<le> U64_MAX then Some (digits_num base cs) else None)"
  by (simp add: int_value_foldl digits_num_def Let_def)

section \<open>What a token's text means\<close>

lemma scan_while_eq: "scan_while P t pos = pos + length (takeWhile P (drop pos t))"
proof (induction P t pos rule: scan_while.induct)
  case (1 P t pos)
  show ?case
  proof (cases "pos < length t \<and> P (t ! pos)")
    case True
    then have "drop pos t = t ! pos # drop (pos + 1) t" by (simp add: Cons_nth_drop_Suc)
    with True 1 show ?thesis by (subst scan_while.simps) simp
  next
    case False
    then have "takeWhile P (drop pos t) = []"
      by (cases "pos < length t") (simp_all add: Cons_nth_drop_Suc [symmetric])
    with False show ?thesis by (subst scan_while.simps) auto
  qed
qed

lemma slice_scan_while: "slice t pos (scan_while P t pos) = takeWhile P (drop pos t)"
  by (simp add: scan_while_eq takeWhile_eq_take [symmetric])

text \<open>The type of a literal and its range.\<close>

definition int_type_info :: "lex_int_type \<Rightarrow> int_suffix" where
  "int_type_info ty = the (find (\<lambda>sx. sfx_type sx = ty) kSuffixes)"

definition int_fits :: "lex_int_type \<Rightarrow> nat \<Rightarrow> bool \<Rightarrow> bool" where
  "int_fits ty v is_min =
     (let w = sfx_width (int_type_info ty) in
      if is_min then sfx_signed (int_type_info ty) \<and> v = 2 ^ (w - 1)
      else v < 2 ^ (if sfx_signed (int_type_info ty) then w - 1 else w))"

definition literal_num :: "string \<Rightarrow> nat" where
  "literal_num w =
     (case int_prefix w 0 of (base, ds) \<Rightarrow>
        digits_num base (takeWhile (\<lambda>c. is_base_digit c base \<or> c = CHR ''_'') (drop ds w)))"

text \<open>What the bytes of a token say of its value whatever else the text holds, errors included. The
  exact lexical grammar, with escapes, suffixes and the context of a unary minus, is in \<open>LexStream\<close>.\<close>

fun denotes :: "string \<Rightarrow> lex_val \<Rightarrow> bool" where
  "denotes w (V_IDENT n) \<longleftrightarrow>
     n = w \<and> w \<noteq> [] \<and> is_ident_start (hd w) \<and> list_all is_ident_cont w \<and> find_keyword w = KW_NONE"
| "denotes w (V_KEYWORD k) \<longleftrightarrow> k \<noteq> KW_NONE \<and> lex_keyword_text k = Some w"
| "denotes w (V_PUNCT p) \<longleftrightarrow> p \<noteq> PUNCT_NONE \<and> lex_punct_text p = Some w"
| "denotes w (V_INT ty v is_min) \<longleftrightarrow>
     w \<noteq> [] \<and> is_digit (hd w) \<and> v = literal_num w \<and> int_fits ty v is_min"
| "denotes w (V_STR bytes) \<longleftrightarrow> utf8_text bytes \<and> 2 \<le> length w \<and> hd w = QUOTE \<and> last w = QUOTE"
| "denotes w V_EOF \<longleftrightarrow> False"

lemma kKeywords_text: "(w, k) \<in> set kKeywords \<Longrightarrow> k \<noteq> KW_NONE \<and> lex_keyword_text k = Some w"
  by (simp add: kKeywords_def lex_keyword_text_def, elim disjE) simp_all

lemma kPuncts_text: "(w, p) \<in> set kPuncts \<Longrightarrow> p \<noteq> PUNCT_NONE \<and> lex_punct_text p = Some w"
  by (simp add: kPuncts_def lex_punct_text_def, elim disjE) simp_all

lemma kSuffixes_info: "sx \<in> set kSuffixes \<Longrightarrow> int_type_info (sfx_type sx) = sx"
  by (simp add: kSuffixes_def int_type_info_def int_sfx_def, elim disjE) simp_all

section \<open>Records\<close>

definition lex_record :: "load_source \<Rightarrow> string \<Rightarrow> string \<Rightarrow> nat \<Rightarrow> nat \<Rightarrow> diag_record" where
  "lex_record src code message b e =
     diag_record_new
       \<lparr>rec_code := Some code, rec_phase := Some ''lex'', rec_severity := Some ''error'',
        rec_message := Some message, rec_primary_span := load_span_range src (int b) (int e),
        rec_recovery := Some ''authoritative''\<rparr>"

definition lex_codes :: "string set" where
  "lex_codes = {''AIC-L0001'', ''AIC-L0004'', ''AIC-L0005'', ''AIC-L0006'', ''AIC-L0007'', ''AIC-L0008'', ''AIC-L0009''}"

lemma lookup_lex_codes:
  "code \<in> lex_codes \<Longrightarrow>
    \<exists>info. diag_code_lookup code = Some info \<and> ci_phase info = ''lex'' \<and> ci_severity info = ''error''"
  unfolding lex_codes_def by (elim insertE; simp add: diag_code_lookup_def kCodes_def code_info_def)

definition lex_rec_ok :: "load_source \<Rightarrow> diag_record \<Rightarrow> bool" where
  "lex_rec_ok src r \<longleftrightarrow>
     (\<exists>code \<in> lex_codes. \<exists>message b e. b < e \<and> e \<le> length (src_text src) \<and> r = lex_record src code message b e)"

lemma load_span_range_Some: "b \<le> e \<Longrightarrow> e \<le> length (src_text src) \<Longrightarrow> \<exists>sp. load_span_range src (int b) (int e) = Some sp"
  by (auto simp: load_span_range_def split: prod.split)

lemma scan_add_record_eq:
  assumes "\<not> lx_oom s" and "code \<in> lex_codes" and "b < e" and "e \<le> length (lx_text s)"
  shows "scan_add_record s code m b e = s\<lparr>lx_records := lx_records s @ [lex_record (lx_src s) code m b e]\<rparr>"
proof -
  obtain sp where sp: "load_span_range (lx_src s) (int b) (int e) = Some sp"
    using load_span_range_Some [of b e "lx_src s"] assms(3,4) by auto
  obtain info where "diag_code_lookup code = Some info" "ci_phase info = ''lex''" "ci_severity info = ''error''"
    using lookup_lex_codes [OF assms(2)] by blast
  with sp assms(1) show ?thesis
    by (simp add: scan_add_record_def setter_defs is_one_of_consts lex_record_def diag_record_new_def)
qed

lemma lex_record_valid: "lex_rec_ok src r \<Longrightarrow> diag_record_validate r = None"
  using lookup_lex_codes
  by (fastforce simp: lex_rec_ok_def lex_record_def diag_record_validate_def is_one_of_consts diag_record_new_def)

section \<open>Steps of the scanner\<close>

text \<open>A step that only reports: the tokens and the context of the unary minus stay.\<close>

definition reports :: "lex_scan \<Rightarrow> lex_scan \<Rightarrow> bool" where
  "reports s s' \<longleftrightarrow>
     (\<exists>rs. s' = s\<lparr>lx_records := lx_records s @ rs\<rparr> \<and> (\<forall>r \<in> set rs. lex_rec_ok (lx_src s) r))"

lemma reports_refl [simp, intro]: "reports s s"
  unfolding reports_def by (rule exI [of _ "[]"]) simp

lemma reports_trans: "reports s s1 \<Longrightarrow> reports s1 s2 \<Longrightarrow> reports s s2"
  unfolding reports_def by (elim exE conjE) (rule_tac x = "rs @ rsa" in exI, auto)

lemma reportsD: "reports s s' \<Longrightarrow> lx_src s' = lx_src s \<and> lx_tokens s' = lx_tokens s \<and> lx_oom s' = lx_oom s"
  by (auto simp: reports_def)

lemma reports_add:
  "\<not> lx_oom s \<Longrightarrow> code \<in> lex_codes \<Longrightarrow> b < e \<Longrightarrow> e \<le> length (lx_text s) \<Longrightarrow>
    reports s (scan_add_record s code m b e)"
  unfolding reports_def
  by (rule exI [of _ "[lex_record (lx_src s) code m b e]"]) (auto simp: scan_add_record_eq lex_rec_ok_def)

lemma lex_codes_mem [simp]:
  "''AIC-L0001'' \<in> lex_codes" "''AIC-L0004'' \<in> lex_codes" "''AIC-L0005'' \<in> lex_codes"
  "''AIC-L0006'' \<in> lex_codes" "''AIC-L0007'' \<in> lex_codes" "''AIC-L0008'' \<in> lex_codes"
  "''AIC-L0009'' \<in> lex_codes"
  by (simp_all add: lex_codes_def)

lemma trivia_step_reports:
  "\<not> lx_oom s \<Longrightarrow> trivia_step s pos = Some (s', p) \<Longrightarrow> reports s s'"
  by (auto simp: trivia_step_def Let_def intro!: reports_add split: if_split_asm)

lemma skip_trivia_reports: "\<not> lx_oom s \<Longrightarrow> skip_trivia s pos = (s', p) \<Longrightarrow> reports s s'"
proof (induction s pos rule: skip_trivia.induct)
  case (1 s pos)
  show ?case
  proof (cases "trivia_step s pos")
    case None
    with "1.prems" show ?thesis by (simp add: skip_trivia.simps)
  next
    case (Some r)
    obtain s1 p1 where r: "r = (s1, p1)" by (cases r)
    have rep: "reports s s1" using trivia_step_reports "1.prems"(1) Some r by blast
    have "reports s1 s'"
      using "1.IH" [OF Some r [symmetric]] "1.prems" Some r reportsD [OF rep] by (simp add: skip_trivia.simps [of s])
    with rep show ?thesis by (rule reports_trans)
  qed
qed

lemma string_step_Inl_reports:
  "\<not> lx_oom s \<Longrightarrow> string_step s start i iv d bs = Inl (s', i', iv', d', bs') \<Longrightarrow> reports s s'"
  using hex_run_le [of "i + 2" "lx_text s" is_hex 2]
  by (auto simp: string_step_def Let_def intro!: reports_add split: if_split_asm option.split_asm)

lemma string_step_Inr_reports:
  "\<not> lx_oom s \<Longrightarrow> start < length (lx_text s) \<Longrightarrow> string_step s start i iv d bs = Inr (s', bs', e, ok) \<Longrightarrow>
    reports s s' \<and> (ok \<longrightarrow> i < length (lx_text s) \<and> e = i + 1 \<and> lx_text s ! i = QUOTE)"
  by (auto simp: string_step_def Let_def intro!: reports_add split: if_split_asm option.split_asm)

lemma string_loop_reports:
  "\<not> lx_oom s \<Longrightarrow> start < length (lx_text s) \<Longrightarrow> string_loop s start i iv d bs = (s', bs', e, ok) \<Longrightarrow>
    reports s s' \<and> (ok \<longrightarrow> i < e \<and> e \<le> length (lx_text s) \<and> lx_text s ! (e - 1) = QUOTE)"
proof (induction s start i iv d bs rule: string_loop.induct)
  case (1 s start i iv d bs)
  show ?case
  proof (cases "string_step s start i iv d bs")
    case (Inr r)
    with "1.prems" string_step_Inr_reports [of s start i iv d bs s' bs' e ok] show ?thesis
      by (auto simp: string_loop.simps)
  next
    case (Inl x)
    obtain s1 i1 iv1 d1 bs1 where x: "x = (s1, i1, iv1, d1, bs1)" by (cases x)
    note st = string_step_Inl [OF Inl [unfolded x]]
    have rep: "reports s s1" using string_step_Inl_reports "1.prems"(1) Inl x by blast
    have "string_loop s1 start i1 iv1 d1 bs1 = (s', bs', e, ok)"
      using "1.prems"(3) Inl x by (simp add: string_loop.simps [of s])
    with "1.IH" [OF Inl x [symmetric] refl refl refl] "1.prems" st reportsD [OF rep]
    have "reports s1 s' \<and> (ok \<longrightarrow> i1 < e \<and> e \<le> length (lx_text s) \<and> lx_text s ! (e - 1) = QUOTE)"
      by simp
    with rep st show ?thesis by (auto intro: reports_trans)
  qed
qed

lemma string_more_reports:
  "\<not> lx_oom s \<Longrightarrow> string_more s e bs = (s', r) \<Longrightarrow> 0 < e \<Longrightarrow> e \<le> length (lx_text s) \<Longrightarrow> lx_text s ! (e - 1) = QUOTE \<Longrightarrow>
    reports s s' \<and> (case r of Inl p \<Rightarrow> True | Inr (bs', e') \<Rightarrow> 0 < e' \<and> lx_text s ! (e' - 1) = QUOTE)"
proof (induction s e bs rule: string_more.induct)
  case (1 s e bs)
  obtain s1 p where st: "skip_trivia s e = (s1, p)" by (cases "skip_trivia s e")
  have rep: "reports s s1" using skip_trivia_reports "1.prems"(1) st by blast
  note b = skip_trivia_bounds [OF st] reportsD [OF rep]
  show ?case
  proof (cases "length (lx_text s1) \<le> p \<or> lx_text s1 ! p \<noteq> QUOTE")
    case True
    with "1.prems" st rep show ?thesis by (subst (asm) string_more.simps) auto
  next
    case False
    obtain s2 cb e2 ok where one: "scan_string_one s1 p = (s2, cb, e2, ok)"
      by (cases "scan_string_one s1 p")
    have f: "lx_src s2 = lx_src s" "e < e2" "e2 \<le> length (lx_text s)"
      using scan_string_one_facts [OF one] False b by auto
    have "reports s1 s2 \<and> (ok \<longrightarrow> p + 1 < e2 \<and> lx_text s1 ! (e2 - 1) = QUOTE)"
      using string_loop_reports [of s1 p "p + 1" False False "[]" s2 cb e2 ok] one b "1.prems"(1) False
      by (auto simp: scan_string_one_def)
    then have rep2: "reports s s2" "ok \<Longrightarrow> lx_text s ! (e2 - 1) = QUOTE"
      using rep b by (auto intro: reports_trans)
    show ?thesis
    proof (cases ok)
      case True
      have "string_more s2 e2 (bs @ cb) = (s', r)"
        using "1.prems"(2) st False one True by (subst (asm) string_more.simps) auto
      from "1.IH" [OF st [symmetric] False one [symmetric] refl refl _ _ this] True f rep2 "1.prems"(1)
      show ?thesis by (auto dest: reportsD intro: reports_trans split: sum.splits)
    next
      case not: False
      with "1.prems" st False one rep2 show ?thesis by (subst (asm) string_more.simps) auto
    qed
  qed
qed

text \<open>A step that reports and then emits at most one token, whose text lies between the old and the new
  position and means the token's value.\<close>

definition tok_at :: "load_source \<Rightarrow> nat \<Rightarrow> nat \<Rightarrow> lex_token \<Rightarrow> bool" where
  "tok_at src b e tok \<longleftrightarrow>
     b < e \<and> e \<le> length (src_text src) \<and> tok_span tok = load_span_range src (int b) (int e) \<and>
     denotes (slice (src_text src) b e) (tok_val tok)"

definition lex_good :: "lex_scan \<Rightarrow> nat \<Rightarrow> lex_scan \<times> nat \<Rightarrow> bool" where
  "lex_good s pos r \<longleftrightarrow>
     (\<exists>s1. reports s s1 \<and> (fst r = s1 \<or> (\<exists>tok. tok_at (lx_src s) pos (snd r) tok \<and> fst r = scan_emit s1 tok)))"

lemma lex_good_report: "reports s s' \<Longrightarrow> lex_good s pos (s', p)"
  by (auto simp: lex_good_def)

lemma lex_good_emit:
  "reports s s1 \<Longrightarrow> pos < p \<Longrightarrow> p \<le> length (lx_text s) \<Longrightarrow> denotes (slice (lx_text s) pos p) v \<Longrightarrow>
    lex_good s pos (scan_emit s1 (make_token v (lx_src s) pos p), p)"
  unfolding lex_good_def
  by (intro exI [of _ s1] conjI disjI2 exI [of _ "make_token v (lx_src s) pos p"])
    (auto simp: tok_at_def make_token_def)

lemma hd_slice: "b < e \<Longrightarrow> b < length t \<Longrightarrow> hd (slice t b e) = t ! b"
  by (simp add: hd_take hd_drop_conv_nth)

lemma slice_ne: "b < e \<Longrightarrow> b < length t \<Longrightarrow> slice t b e \<noteq> []"
  by simp

lemma last_slice: "b < e \<Longrightarrow> e \<le> length t \<Longrightarrow> last (slice t b e) = t ! (e - 1)"
  by (subst last_conv_nth) simp_all

lemma scan_ident_good:
  assumes "\<not> lx_oom s" and "pos < length (lx_text s)" and "is_ident_start (lx_text s ! pos)"
  shows "lex_good s pos (scan_ident s pos)"
proof -
  let ?t = "lx_text s" and ?p = "scan_while is_ident_cont (lx_text s) pos"
  let ?w = "slice ?t pos ?p"
  have b: "pos < ?p" "?p \<le> length ?t"
    using scan_ident_step [OF assms(2,3)] by (auto simp: step_ok_def scan_ident_def Let_def)
  have all: "list_all is_ident_cont ?w"
    unfolding slice_scan_while list_all_iff by (auto dest: set_takeWhileD)
  have hd: "hd ?w = ?t ! pos" using b by (intro hd_slice) simp_all
  have kw: "find_keyword ?w \<noteq> KW_NONE \<Longrightarrow> lex_keyword_text (find_keyword ?w) = Some ?w"
    using kKeywords_text by (auto simp: find_keyword_def dest!: find_SomeD split: option.splits)
  have "denotes ?w (if find_keyword ?w \<noteq> KW_NONE then V_KEYWORD (find_keyword ?w) else V_IDENT ?w)"
    using all hd assms(3) kw slice_ne [of pos ?p ?t] b by (auto simp del: take_eq_Nil drop_eq_Nil)
  from lex_good_emit [OF reports_refl b this] show ?thesis
    by (simp add: scan_ident_def Let_def)
qed

lemma scan_punct_good:
  assumes "\<not> lx_oom s" and "pos < length (lx_text s)"
  shows "lex_good s pos (scan_punct s pos)"
proof (cases "find (\<lambda>e. pos + length (fst e) \<le> length (lx_text s) \<and>
    take (length (fst e)) (drop pos (lx_text s)) = fst e) kPuncts")
  case None
  then show ?thesis using assms
    by (auto simp: scan_punct_def Let_def intro!: lex_good_report reports_add)
next
  case (Some e)
  obtain w p where e: "e = (w, p)" by (cases e)
  have m: "(w, p) \<in> set kPuncts" "pos + length w \<le> length (lx_text s)" "take (length w) (drop pos (lx_text s)) = w"
    using find_SomeD [OF Some] e by auto
  then have "denotes (slice (lx_text s) pos (pos + length w)) (V_PUNCT p)"
    using kPuncts_text [OF m(1)] by simp
  from lex_good_emit [OF reports_refl _ m(2) this] m(1) show ?thesis using Some e kPuncts_ne
    by (auto simp: scan_punct_def Let_def)
qed

lemma scan_string_good:
  assumes "\<not> lx_oom s" and "pos < length (lx_text s)" and "lx_text s ! pos = QUOTE"
  shows "lex_good s pos (scan_string s pos)"
proof -
  let ?t = "lx_text s"
  obtain s1 b1 e1 ok where one: "scan_string_one s pos = (s1, b1, e1, ok)" by (cases "scan_string_one s pos")
  note f = scan_string_one_facts [OF one assms(2)]
  have rep: "reports s s1" "ok \<Longrightarrow> pos + 1 < e1 \<and> ?t ! (e1 - 1) = QUOTE"
    using string_loop_reports [of s pos "pos + 1" False False "[]" s1 b1 e1 ok] one assms(1,2)
    by (auto simp: scan_string_one_def)
  show ?thesis
  proof (cases ok)
    case False
    with one rep(1) show ?thesis by (simp add: scan_string_def lex_good_report)
  next
    case True
    obtain s2 r where more: "string_more s1 e1 b1 = (s2, r)" by (cases "string_more s1 e1 b1")
    note rd = reportsD [OF rep(1)]
    have m: "reports s1 s2" "case r of Inl p \<Rightarrow> True | Inr (bs', e') \<Rightarrow> 0 < e' \<and> ?t ! (e' - 1) = QUOTE"
      using string_more_reports [OF _ more] rep(2) [OF True] rd f assms(1) by (auto split: sum.splits)
    have b: "case r of Inl p \<Rightarrow> e1 \<le> p \<and> p \<le> length ?t | Inr (bs', e') \<Rightarrow> e1 \<le> e' \<and> e' \<le> length ?t"
      using string_more_facts [OF more] f by (auto split: sum.splits)
    have rep2: "reports s s2" using rep(1) m(1) by (rule reports_trans)
    note rd2 = reportsD [OF rep2]
    show ?thesis
    proof (cases r)
      case (Inl p)
      with one True more rep2 show ?thesis by (simp add: scan_string_def lex_good_report)
    next
      case (Inr x)
      obtain bytes e where x: "x = (bytes, e)" by (cases x)
      have e: "e1 \<le> e" "e \<le> length ?t" "?t ! (e - 1) = QUOTE" "pos + 1 < e1"
        using b m(2) Inr x rep(2) [OF True] by auto
      show ?thesis
      proof (cases "utf8_valid bytes")
        case False
        have "reports s2 (scan_add_record s2 ''AIC-L0009''
            ''string literal bytes not valid UTF-8 after escape expansion'' pos e)"
          using e rd2 assms(1) by (intro reports_add) auto
        with rep2 have "reports s (scan_add_record s2 ''AIC-L0009''
            ''string literal bytes not valid UTF-8 after escape expansion'' pos e)"
          by (rule reports_trans)
        with one True more Inr x False show ?thesis by (simp add: scan_string_def lex_good_report)
      next
        case valid: True
        have "hd (slice ?t pos e) = QUOTE" "last (slice ?t pos e) = QUOTE"
          using hd_slice [of pos e ?t] last_slice [of pos e ?t] e assms(2,3) by simp_all
        then have "denotes (slice ?t pos e) (V_STR bytes)"
          using e valid lex_utf8.valid_iff by simp
        from lex_good_emit [OF rep2 _ e(2) this] e one True more Inr x valid rd2
        show ?thesis by (simp add: scan_string_def)
      qed
    qed
  qed
qed

text \<open>The text of an integer token determines its value as the scanner computed it.\<close>

lemma takeWhile_slice:
  assumes "de = scan_while P t ds" and "de \<le> i"
  shows "takeWhile P (slice t ds i) = slice t ds de"
proof -
  have len: "length (takeWhile P (drop ds t)) \<le> i - ds" using assms by (simp add: scan_while_eq)
  have "takeWhile P (slice t ds i) = take (i - ds) (takeWhile P (drop ds t))" by (rule takeWhile_take)
  also have "\<dots> = takeWhile P (drop ds t)" using len by simp
  also have "\<dots> = slice t ds de" unfolding assms(1) by (rule slice_scan_while [symmetric])
  finally show ?thesis .
qed

lemma int_prefix_slice:
  assumes "pos < length t" and "int_prefix t pos = (base, ds)" and "ds \<le> i" and "pos < i" and "i \<le> length t"
  shows "int_prefix (slice t pos i) 0 = (base, ds - pos)"
proof -
  have n: "slice t pos i ! 0 = t ! pos" using assms by simp
  have n1: "1 < i - pos \<Longrightarrow> slice t pos i ! 1 = t ! (pos + 1)" using assms by simp
  have len: "length (slice t pos i) = i - pos" using assms by simp
  show ?thesis
    using assms(2-5) n n1 len
    by (auto simp: int_prefix_def Let_def split: if_split_asm)
qed

lemma literal_num_slice:
  assumes "pos < length t" and "int_prefix t pos = (base, ds)"
    and "de = scan_while (\<lambda>c. is_base_digit c base \<or> c = CHR ''_'') t ds" and "de \<le> i" and "pos < i" and "i \<le> length t"
  shows "literal_num (slice t pos i) = digits_num base (slice t ds de)"
proof -
  note pb = int_prefix_bounds [OF assms(2,1)]
  have "ds \<le> de" using assms(3) scan_while_ge by simp
  then have "int_prefix (slice t pos i) 0 = (base, ds - pos)"
    using int_prefix_slice [OF assms(1,2) _ assms(5,6)] assms(4) by simp
  moreover have "drop (ds - pos) (slice t pos i) = slice t ds i"
    using pb by (simp add: drop_take)
  ultimately show ?thesis
    by (simp add: literal_num_def takeWhile_slice [OF assms(3,4)])
qed

lemma kSuffixes_cases:
  "sx \<in> set kSuffixes \<Longrightarrow> (sfx_width sx = 8 \<or> sfx_width sx = 16 \<or> sfx_width sx = 32 \<or> sfx_width sx = 64)"
  by (simp add: kSuffixes_def int_sfx_def, elim disjE) simp_all

lemma fits_suffixed:
  assumes "sx \<in> set kSuffixes" and "v \<le> U64_MAX"
    and "if sfx_signed sx then signed_magnitude_fits sx v um else unsigned_magnitude_fits sx v"
  shows "int_fits (sfx_type sx) v (sfx_signed sx \<and> um \<and>
    (if 64 \<le> sfx_width sx then v = 9223372036854775808 else v = 2 ^ (sfx_width sx - 1)))"
  using assms(2,3) kSuffixes_cases [OF assms(1)]
  unfolding int_fits_def kSuffixes_info [OF assms(1)] Let_def
  by (elim disjE; cases um; cases "sfx_signed sx";
      simp add: signed_magnitude_fits_def unsigned_magnitude_fits_def; linarith?)

lemma fits_unsuffixed:
  "v \<le> U64_MAX \<Longrightarrow>
    int_fits (if v \<le> 2147483647 then LEX_INT_I32 else if v \<le> 9223372036854775807 then LEX_INT_I64 else LEX_INT_U64) v False"
  by (simp add: int_fits_def int_type_info_def kSuffixes_def int_sfx_def)

lemma match_suffix_mem: "match_suffix t i = Some sx \<Longrightarrow> sx \<in> set kSuffixes"
  by (auto simp: match_suffix_def dest: find_SomeD)

lemma scan_integer_good:
  assumes "\<not> lx_oom s" and "pos < length (lx_text s)" and "is_digit (lx_text s ! pos)"
  shows "lex_good s pos (scan_integer s pos)"
proof -
  let ?t = "lx_text s"
  obtain base ds where pr: "int_prefix ?t pos = (base, ds)" by (cases "int_prefix ?t pos")
  note pb = int_prefix_bounds [OF pr assms(2)]
  have base: "1 \<le> base" using pr by (auto simp: int_prefix_def Let_def split: if_split_asm)
  define de where "de = scan_while (\<lambda>c. is_base_digit c base \<or> c = CHR ''_'') ?t ds"
  define sx where "sx = (if de < length ?t \<and> (?t ! de = CHR ''i'' \<or> ?t ! de = CHR ''u'') then match_suffix ?t de else None)"
  define i where "i = de + (case sx of None \<Rightarrow> 0 | Some x \<Rightarrow> length (sfx_name x))"
  have si: "scan_integer s pos =
     (if \<not> list_ex (\<lambda>k. ?t ! k \<noteq> CHR ''_'') [ds..<de] then
        (scan_add_record s ''AIC-L0001'' ''malformed integer literal'' pos de, de)
      else if base = 10 \<and> ?t ! pos = CHR ''0'' \<and> 1 < de - ds then
        (scan_add_record s ''AIC-L0001'' ''malformed integer literal'' pos de, de)
      else if underscore_error ?t base ds de then
        (scan_add_record s ''AIC-L0005'' (''misplaced '' @ [CHR 0x27, CHR ''_'', CHR 0x27] @ '' in integer literal'') pos i, i)
      else (case sx of None \<Rightarrow> (emit_unsuffixed s pos de i (int_value base (slice ?t ds de) 0), i)
            | Some x \<Rightarrow> (emit_suffixed s pos de i x (int_value base (slice ?t ds de) 0), i)))"
    unfolding scan_integer_def Let_def pr prod.case de_def [symmetric] sx_def [symmetric] i_def [symmetric] ..
  have "step_ok s pos (scan_integer s pos)" by (rule scan_integer_step [OF assms(2,3)])
  have le: "ds \<le> de" "de \<le> length ?t" using pb by (simp_all add: de_def scan_while_ge scan_while_le)
  have gt: "pos < de"
  proof (cases "base = 10")
    case True
    then show ?thesis using pb assms by (simp add: de_def scan_while_gt is_base_digit_def)
  next
    case False
    then have "pos < ds" using pr by (auto simp: int_prefix_def Let_def split: if_split_asm)
    with le show ?thesis by simp
  qed
  have sxm: "sx = Some x \<Longrightarrow> x \<in> set kSuffixes \<and> de + length (sfx_name x) \<le> length ?t" for x
    by (auto simp: sx_def match_suffix_mem match_suffix_le split: if_split_asm)
  have ib: "de \<le> i" "pos < i" "i \<le> length ?t"
    using gt le sxm by (auto simp: i_def split: option.split)
  have rep: "reports s (scan_add_record s code m pos e)" if "code \<in> lex_codes" "pos < e" "e \<le> length ?t" for code m e
    using that assms(1) by (intro reports_add)
  let ?v = "digits_num base (slice ?t ds de)"
  have v: "int_value base (slice ?t ds de) 0 = (if ?v \<le> U64_MAX then Some ?v else None)"
    by (rule int_value_spec [OF base])
  have hd: "slice ?t pos i \<noteq> []" "is_digit (hd (slice ?t pos i))" "literal_num (slice ?t pos i) = ?v"
    using hd_slice [of pos i ?t] ib assms(2,3) literal_num_slice [OF assms(2) pr de_def ib] by auto
  have emit: "lex_good s pos (scan_emit s (make_token (V_INT ty ?v m) (lx_src s) pos i), i)" if "int_fits ty ?v m" for ty m
    using lex_good_emit [OF reports_refl ib(2,3), of "V_INT ty ?v m"] hd that by simp
  have un: "lex_good s pos (emit_unsuffixed s pos de i (int_value base (slice ?t ds de) 0), i)"
    using emit [OF fits_unsuffixed] rep ib
    by (auto simp: emit_unsuffixed_def v Let_def intro!: lex_good_report)
  have suf: "lex_good s pos (emit_suffixed s pos de i x (int_value base (slice ?t ds de) 0), i)" if "sx = Some x" for x
    using emit [OF fits_suffixed [of x ?v "lx_prev_minus_unary s"]] sxm [OF that] rep ib
    by (auto simp: emit_suffixed_def v Let_def intro!: lex_good_report)
  show ?thesis
    unfolding si using rep gt le ib un suf
    by (auto intro!: lex_good_report split: option.split)
qed

lemma scan_one_good: "\<not> lx_oom s \<Longrightarrow> pos < length (lx_text s) \<Longrightarrow> lex_good s pos (scan_one s pos)"
  by (simp add: scan_one_def Let_def scan_ident_good scan_integer_good scan_string_good scan_punct_good)

section \<open>The token stream\<close>

text \<open>Tokens from \<open>lo\<close> to \<open>hi\<close> in the order of the text, without overlap.\<close>

fun token_chain :: "load_source \<Rightarrow> nat \<Rightarrow> lex_token list \<Rightarrow> nat \<Rightarrow> bool" where
  "token_chain src lo [] hi \<longleftrightarrow> lo \<le> hi"
| "token_chain src lo (t # ts) hi \<longleftrightarrow> (\<exists>b e. lo \<le> b \<and> tok_at src b e t \<and> token_chain src e ts hi)"

lemma token_chain_mono: "token_chain src lo ts hi \<Longrightarrow> hi \<le> hi' \<Longrightarrow> token_chain src lo ts hi'"
  by (induction ts arbitrary: lo) fastforce+

lemma token_chain_snoc:
  "token_chain src lo ts b \<Longrightarrow> tok_at src b e t \<Longrightarrow> token_chain src lo (ts @ [t]) e"
proof (induction ts arbitrary: lo)
  case Nil
  then show ?case by auto
next
  case (Cons t' ts)
  then show ?case by (metis append_Cons token_chain.simps(2))
qed

definition eof_token :: "load_source \<Rightarrow> lex_token" where
  "eof_token src = make_token V_EOF src (length (src_text src)) (length (src_text src))"

lemma lex_run_stream:
  "\<not> lx_oom s \<Longrightarrow> pos \<le> length (lx_text s) \<Longrightarrow> token_chain (lx_src s) 0 (lx_tokens s) pos \<Longrightarrow>
    list_all (lex_rec_ok (lx_src s)) (lx_records s) \<Longrightarrow>
    (\<exists>ts. lx_tokens (lex_run s pos) = ts @ [eof_token (lx_src s)] \<and>
       token_chain (lx_src s) 0 ts (length (lx_text s)))
    \<and> \<not> lx_oom (lex_run s pos) \<and> list_all (lex_rec_ok (lx_src s)) (lx_records (lex_run s pos))"
proof (induction s pos rule: lex_run.induct)
  case (1 s pos)
  obtain s1 p1 where tr: "skip_trivia s pos = (s1, p1)" by (cases "skip_trivia s pos")
  note b = skip_trivia_bounds [OF tr]
  have rep: "reports s s1" using skip_trivia_reports "1.prems"(1) tr by blast
  note rd = reportsD [OF rep]
  have recs: "list_all (lex_rec_ok (lx_src s)) (lx_records s1)"
    using rep "1.prems"(4) by (auto simp: reports_def list_all_iff)
  have ch: "token_chain (lx_src s) 0 (lx_tokens s1) p1"
    using token_chain_mono "1.prems"(3) b rd by metis
  show ?case
  proof (cases "length (lx_text s1) \<le> p1")
    case True
    then have p1: "p1 = length (lx_text s)" using b "1.prems"(2) by simp
    have "lex_run s pos = scan_emit s1 (eof_token (lx_src s))"
      using tr True rd "1.prems"(1) p1 by (subst lex_run.simps) (simp add: eof_token_def)
    with ch recs rd "1.prems"(1) p1 show ?thesis by (simp add: scan_emit_def)
  next
    case False
    obtain s2 p2 where one: "scan_one s1 p1 = (s2, p2)" by (cases "scan_one s1 p1")
    have st: "lx_src s2 = lx_src s" "p1 < p2" "p2 \<le> length (lx_text s)"
      using scan_one_step [of p1 s1] False one rd by (auto simp: step_ok_def)
    have "lex_good s1 p1 (s2, p2)" using scan_one_good [of s1 p1] False one rd "1.prems"(1) by simp
    then obtain s' where s': "reports s1 s'" "s2 = s' \<or> (\<exists>tok. tok_at (lx_src s1) p1 p2 tok \<and> s2 = scan_emit s' tok)"
      by (auto simp: lex_good_def)
    note rd' = reportsD [OF s'(1)]
    have recs': "list_all (lex_rec_ok (lx_src s)) (lx_records s')"
      using s'(1) recs rd by (auto simp: reports_def list_all_iff)
    have inv: "\<not> lx_oom s2 \<and> token_chain (lx_src s) 0 (lx_tokens s2) p2 \<and> list_all (lex_rec_ok (lx_src s)) (lx_records s2)"
      using s'(2)
    proof
      assume "s2 = s'"
      moreover have "token_chain (lx_src s) 0 (lx_tokens s1) p2"
        using token_chain_mono [OF ch] st(2) by simp
      ultimately show ?thesis using rd rd' recs' "1.prems"(1) by simp
    next
      assume "\<exists>tok. tok_at (lx_src s1) p1 p2 tok \<and> s2 = scan_emit s' tok"
      then obtain tok where tok: "tok_at (lx_src s) p1 p2 tok" "s2 = scan_emit s' tok" using rd by auto
      with token_chain_snoc [OF ch tok(1)] show ?thesis
        using rd rd' recs' "1.prems"(1) by (simp add: scan_emit_def)
    qed
    have run: "lex_run s pos = lex_run s2 p2"
      using tr False one rd inv "1.prems"(1) by (subst lex_run.simps) simp
    have "\<not> lx_oom s1" using rd "1.prems"(1) by simp
    from "1.IH" [OF tr [symmetric] this False one [symmetric]] inv st show ?thesis
      unfolding run by simp
  qed
qed

lemma lex_tokenize_run:
  "\<exists>ts. lx_tokens (lex_run (lex_start src) 0) = ts @ [eof_token src] \<and> token_chain src 0 ts (length (src_text src))"
  "\<not> lx_oom (lex_run (lex_start src) 0)"
  "list_all (lex_rec_ok src) (lx_records (lex_run (lex_start src) 0))"
  using lex_run_stream [of "lex_start src" 0] by (simp_all add: lex_start_def)

section \<open>Properties of the token stream\<close>

text \<open>C36: the lexer's own validation of decoded string bytes accepts exactly well-formed UTF-8.\<close>

theorem lex_utf8_valid_iff: "utf8_valid s \<longleftrightarrow> utf8_text s"
  by (rule lex_utf8.valid_iff)

text \<open>C34: with diagnostics, the records are in emission order, and each is a valid lexical error with a
  nonempty span inside the text.\<close>

theorem lex_errors_valid:
  assumes "c_qsort qs" and "lex_tokenize qs src = LEX_DIAG_ERROR toks recs"
  shows "recs \<noteq> [] \<and> cmp_sorted diag_record_compare recs \<and>
    (\<forall>x \<in> set recs. \<exists>r. x = Some r \<and> lex_rec_ok src r \<and> diag_record_validate r = None)"
proof -
  let ?rs = "lx_records (lex_run (lex_start src) 0)"
  have ne: "?rs \<noteq> []" and recs: "recs = the (diag_sort_records qs (Some (map Some ?rs)))"
    using assms(2) by (auto simp: lex_tokenize_def Let_def split: if_split_asm)
  note s = sort_result [OF assms(1) recs]
  have "set recs = Some ` set ?rs" using mset_eq_setD [OF s(1)] by simp
  moreover have "recs \<noteq> []" using s(1) ne by auto
  ultimately show ?thesis using s(2) lex_tokenize_run(3) [of src] lex_record_valid
    by (auto simp: list_all_iff)
qed

lemma lex_errors_valid_witness:
  "\<exists>toks recs. lex_tokenize insertion_sort \<lparr>src_file = ''m'', src_text = ''@'', src_line_starts = [0]\<rparr> =
      LEX_DIAG_ERROR toks recs \<and> cmp_sorted diag_record_compare recs"
proof -
  let ?src = "\<lparr>src_file = ''m'', src_text = ''@'', src_line_starts = [0]\<rparr>"
  define s0 where "s0 = lex_start ?src"
  have s0: "\<not> lx_oom s0" "lx_src s0 = ?src" by (simp_all add: s0_def lex_start_def)
  define s1 where "s1 = scan_add_record s0 ''AIC-L0001'' ''invalid character in source'' 0 1"
  have s1: "\<not> lx_oom s1" "lx_src s1 = ?src" "lx_records s1 \<noteq> []"
    using scan_add_record_eq [of s0 "''AIC-L0001''" 0 1] s0 by (simp_all add: s1_def)
  have tr: "skip_trivia s0 0 = (s0, 0)" "skip_trivia s1 1 = (s1, 1)"
    by (simp_all add: skip_trivia.simps trivia_step_def Let_def s0 s1)
  have one: "scan_one s0 0 = (s1, 1)"
    by (simp add: scan_one_def scan_punct_def Let_def s0 s1_def kPuncts_def is_ident_start_def
        is_digit_def in_range_def)
  have "lex_run s0 0 = lex_run s1 1"
    by (subst lex_run.simps) (simp add: tr one s0 s1)
  also have "\<dots> = scan_emit s1 (make_token V_EOF ?src 1 1)"
    using tr(2) s1 by (subst lex_run.simps) simp
  finally have "lx_records (lex_run (lex_start ?src) 0) \<noteq> []"
    using s1 by (simp add: scan_emit_def s0_def)
  then obtain toks recs where l: "lex_tokenize insertion_sort ?src = LEX_DIAG_ERROR toks recs"
    using lex_tokenize_run(2) [of ?src] by (auto simp: lex_tokenize_def Let_def)
  with lex_errors_valid [OF insertion_sort.c_qsort_axioms l] show ?thesis by blast
qed

end
