(* ===== verification/LexRound.thy ===== *)
theory LexRound
  imports LexProps "HOL-Library.Sublist"
begin

text \<open>
  Reading tokens back: punctuation is matched longest first, and the tokens of a rendered token list
  are the list.
\<close>

section \<open>Suffixes of the text\<close>

lemma scan_while_suffix:
  "scan_while P (p @ w @ r) (length p) = length p + length w"
  if "list_all P w" "r = [] \<or> \<not> P (hd r)"
proof -
  have "takeWhile P (w @ r) = w"
    using that by (cases r) (auto simp: list_all_iff takeWhile_append2)
  then show ?thesis by (simp add: scan_while_eq)
qed

lemma take_prefix: "length w \<le> length s \<and> take (length w) s = w \<longleftrightarrow> prefix w s"
  by (auto simp: prefix_def dest: sym) (metis append_take_drop_id)

section \<open>Longest match\<close>

text \<open>The entry \<open>scan_punct\<close> selects.\<close>

definition punct_match :: "string \<Rightarrow> (string \<times> lex_punct) option" where
  "punct_match s = find (\<lambda>e. prefix (fst e) s) kPuncts"

lemma scan_punct_match:
  assumes "lx_text s = p @ r"
  shows "scan_punct s (length p) =
    (case punct_match r of
       Some (w, q) \<Rightarrow> (scan_emit s (make_token (V_PUNCT q) (lx_src s) (length p) (length p + length w)), length p + length w)
     | None \<Rightarrow> scan_punct s (length p))"
  unfolding punct_match_def
  by (cases "find (\<lambda>e. prefix (fst e) r) kPuncts")
    (auto simp: scan_punct_def assms take_prefix Let_def)

text \<open>Entries are ordered by length, so the first match is the longest.\<close>

lemma kPuncts_sorted: "sorted_wrt (\<lambda>a b. length (fst b) \<le> length (fst a)) kPuncts"
  by (simp add: kPuncts_def)

lemma find_first_longest:
  "sorted_wrt (\<lambda>a b. length (fst b) \<le> length (fst a)) xs \<Longrightarrow> find P xs = Some x \<Longrightarrow> y \<in> set xs \<Longrightarrow> P y \<Longrightarrow>
    length (fst y) \<le> length (fst x)"
  by (induction xs) (auto split: if_split_asm)

lemma punct_match_longest:
  "punct_match r = Some (w, q) \<Longrightarrow> prefix w r \<and> lex_punct_text q = Some w \<and>
     (\<forall>(w', q') \<in> set kPuncts. prefix w' r \<longrightarrow> length w' \<le> length w)"
  using find_first_longest [OF kPuncts_sorted, of "\<lambda>e. prefix (fst e) r" "(w, q)"]
  by (auto simp: punct_match_def dest: kPuncts_text dest!: find_SomeD)

section \<open>Rendering\<close>

definition dec_text :: "nat \<Rightarrow> string" where
  "dec_text v = (if v = 0 then ''0'' else rev (u64_digits v))"

definition esc_byte :: "char \<Rightarrow> string" where
  "esc_byte c =
     (if c = QUOTE then [BSLASH, QUOTE] else if c = BSLASH then [BSLASH, BSLASH]
      else if c = LF then [BSLASH, CHR ''n''] else [c])"

fun lexeme :: "lex_val \<Rightarrow> string" where
  "lexeme (V_IDENT n) = n"
| "lexeme (V_KEYWORD k) = the (lex_keyword_text k)"
| "lexeme (V_PUNCT p) = the (lex_punct_text p)"
| "lexeme (V_INT ty v m) = dec_text v @ the (lex_int_type_text ty)"
| "lexeme (V_STR bytes) = QUOTE # concat (map esc_byte bytes) @ [QUOTE]"
| "lexeme V_EOF = []"

text \<open>The tokens that have a rendering; adjacent strings would be read as one.\<close>

fun renderable :: "lex_val \<Rightarrow> bool" where
  "renderable (V_IDENT n) = (n \<noteq> [] \<and> is_ident_start (hd n) \<and> list_all is_ident_cont n \<and> find_keyword n = KW_NONE)"
| "renderable (V_KEYWORD k) = (k \<noteq> KW_NONE)"
| "renderable (V_PUNCT p) = (p \<noteq> PUNCT_NONE)"
| "renderable (V_INT ty v m) = (\<not> m \<and> int_fits ty v False)"
| "renderable (V_STR bytes) = utf8_text bytes"
| "renderable V_EOF = False"

fun is_str :: "lex_val \<Rightarrow> bool" where
  "is_str (V_STR _) = True"
| "is_str _ = False"

fun renderable_list :: "lex_val list \<Rightarrow> bool" where
  "renderable_list [] = True"
| "renderable_list [v] = renderable v"
| "renderable_list (v # w # vs) = (renderable v \<and> \<not> (is_str v \<and> is_str w) \<and> renderable_list (w # vs))"

definition render_tokens :: "lex_val list \<Rightarrow> string" where
  "render_tokens vs = concat (map (\<lambda>v. lexeme v @ '' '') vs)"

section \<open>Trivia\<close>

definition no_trivia :: "string \<Rightarrow> bool" where
  "no_trivia r \<longleftrightarrow>
     (case r of [] \<Rightarrow> True
      | c # r' \<Rightarrow> c \<noteq> CHR '' '' \<and> c \<noteq> CHR 0x09 \<and> c \<noteq> LF \<and> c \<noteq> CR \<and>
          (c = CHR ''/'' \<longrightarrow> (case r' of [] \<Rightarrow> True | d # _ \<Rightarrow> d \<noteq> CHR ''/'' \<and> d \<noteq> CHR ''*'')))"

lemma skip_no_trivia: "lx_text s = p @ r \<Longrightarrow> no_trivia r \<Longrightarrow> skip_trivia s (length p) = (s, length p)"
  by (subst skip_trivia.simps)
    (auto simp: trivia_step_def no_trivia_def Let_def nth_append split: list.splits)

lemma skip_space:
  assumes "lx_text s = p @ '' '' @ r" and "no_trivia r"
  shows "skip_trivia s (length p) = (s, length p + 1)"
proof -
  have "trivia_step s (length p) = Some (s, length p + 1)"
    by (simp add: trivia_step_def assms(1) Let_def nth_append)
  moreover have "skip_trivia s (length (p @ '' '')) = (s, length (p @ '' ''))"
    by (rule skip_no_trivia [of _ _ r]) (insert assms, simp_all)
  ultimately show ?thesis by (subst skip_trivia.simps) simp
qed

section \<open>One token\<close>

lemma char_classes:
  "is_ident_start c \<Longrightarrow> \<not> is_digit c" "is_digit c \<Longrightarrow> \<not> is_ident_start c"
  "is_ident_start c \<Longrightarrow> c \<noteq> CHR '' '' \<and> c \<noteq> CHR 0x09 \<and> c \<noteq> LF \<and> c \<noteq> CR \<and> c \<noteq> CHR ''/'' \<and> c \<noteq> QUOTE"
  "is_digit c \<Longrightarrow> c \<noteq> CHR '' '' \<and> c \<noteq> CHR 0x09 \<and> c \<noteq> LF \<and> c \<noteq> CR \<and> c \<noteq> CHR ''/'' \<and> c \<noteq> QUOTE \<and> c \<noteq> CHR ''_''"
  by (auto simp: is_ident_start_def is_digit_def in_range_def)

lemma space_classes: "\<not> is_ident_cont (CHR '' '')" "\<not> is_digit (CHR '' '')"
  by (simp_all add: is_ident_cont_def is_ident_start_def is_digit_def in_range_def)

text \<open>What one lexeme followed by a space makes of the scanner.\<close>

definition reads_as :: "lex_scan \<Rightarrow> nat \<Rightarrow> nat \<Rightarrow> lex_val \<Rightarrow> bool" where
  "reads_as s pos n v \<longleftrightarrow>
     scan_one s pos = (scan_emit s (make_token v (lx_src s) pos (pos + n)), pos + n)"

lemma kKeywords_find: "(w, k) \<in> set kKeywords \<Longrightarrow> find_keyword w = k"
  by (simp add: kKeywords_def find_keyword_def, elim disjE) simp_all

lemma kKeywords_ident: "(w, k) \<in> set kKeywords \<Longrightarrow> w \<noteq> [] \<and> is_ident_start (hd w) \<and> list_all is_ident_cont w"
  by (simp add: kKeywords_def, elim disjE)
    (simp_all add: is_ident_cont_def is_ident_start_def is_digit_def in_range_def)

lemma keyword_entry: "k \<noteq> KW_NONE \<Longrightarrow> (the (lex_keyword_text k), k) \<in> set kKeywords"
  by (cases k) (simp_all add: lex_keyword_text_def kKeywords_def)

lemma punct_entry: "p \<noteq> PUNCT_NONE \<Longrightarrow> (the (lex_punct_text p), p) \<in> set kPuncts"
  by (cases p) (simp_all add: lex_punct_text_def kPuncts_def)

lemma ident_reads:
  assumes "lx_text s = p @ w @ '' '' @ r" and "w \<noteq> []" and "is_ident_start (hd w)" and "list_all is_ident_cont w"
  shows "reads_as s (length p) (length w) (if find_keyword w \<noteq> KW_NONE then V_KEYWORD (find_keyword w) else V_IDENT w)"
proof -
  have e: "scan_while is_ident_cont (lx_text s) (length p) = length p + length w"
    unfolding assms(1) by (rule scan_while_suffix [OF assms(4)]) (simp add: space_classes)
  have hd: "lx_text s ! length p = hd w"
    using assms(1,2) by (cases w) (simp_all add: nth_append)
  have sl: "slice (lx_text s) (length p) (length p + length w) = w"
    using assms(1) by simp
  show ?thesis
    unfolding reads_as_def scan_one_def Let_def hd scan_ident_def e sl using assms(3) by simp
qed

lemma punct_match_entry: "(w, p) \<in> set kPuncts \<Longrightarrow> punct_match (w @ CHR '' '' # r) = Some (w, p)"
  by (simp add: kPuncts_def, elim disjE) (simp_all add: punct_match_def kPuncts_def)

lemma kPuncts_head: "(w, p) \<in> set kPuncts \<Longrightarrow>
    w \<noteq> [] \<and> \<not> is_ident_start (hd w) \<and> \<not> is_digit (hd w) \<and> hd w \<noteq> QUOTE \<and> no_trivia (w @ CHR '' '' # r)"
  by (simp add: kPuncts_def, elim disjE)
    (simp_all add: is_ident_start_def is_digit_def in_range_def no_trivia_def)

lemma punct_reads:
  assumes "lx_text s = q @ w @ '' '' @ r" and "(w, p) \<in> set kPuncts"
  shows "reads_as s (length q) (length w) (V_PUNCT p)"
proof -
  note h = kPuncts_head [OF assms(2), of r]
  have hd: "lx_text s ! length q = hd w"
    using assms(1) h by (cases w) (simp_all add: nth_append)
  have "lx_text s = q @ (w @ CHR '' '' # r)" using assms(1) by simp
  from scan_punct_match [OF this] punct_match_entry [OF assms(2)]
  show ?thesis using h by (simp add: reads_as_def scan_one_def hd Let_def)
qed

lemma dec_text_digits: "c \<in> set (dec_text v) \<Longrightarrow> is_digit c"
  using u64_digits_digit [of c v]
  by (auto simp: dec_text_def is_digit_def in_range_def split: if_split_asm)

lemma dec_text_ne: "dec_text v \<noteq> []"
  by (simp add: dec_text_def)

lemma dec_text_lead: "hd (dec_text v) = CHR ''0'' \<Longrightarrow> dec_text v = ''0''"
  using u64_digits_last [of v] by (auto simp: dec_text_def hd_rev split: if_split_asm)

lemma dec_text_num: "digits_num 10 (dec_text v) = v"
proof -
  have "\<forall>c \<in> set cs. is_digit c \<Longrightarrow> foldl (\<lambda>a c. a * 10 + digit_value c) z (filter (\<lambda>c. c \<noteq> CHR ''_'') cs)
      = foldl (\<lambda>a c. a * 10 + (ub c - 48)) z cs" for cs z
  proof (induction cs arbitrary: z)
    case (Cons c cs)
    then have "is_digit c" by simp
    then have "c \<noteq> CHR ''_''" "digit_value c = ub c - 48"
      using char_classes(4) [of c] by (auto simp: digit_value_def)
    with Cons show ?case by simp
  qed simp
  then have "digits_num 10 (dec_text v) = digits_val (dec_text v)"
    using dec_text_digits unfolding digits_num_def digits_val_def by blast
  also have "\<dots> = v" by (simp add: dec_text_def digits_val_u64_digits) (simp add: digits_val_def)
  finally show ?thesis .
qed

lemma suffix_reads: "match_suffix (q @ the (lex_int_type_text ty) @ '' '' @ r) (length q) = Some (int_type_info ty)"
  by (cases ty)
    (simp_all add: match_suffix_def Let_def lex_int_type_text_def int_type_info_def kSuffixes_def int_sfx_def
      nth_append space_classes)

lemma suffix_head: "\<exists>c w. the (lex_int_type_text ty) = c # w \<and> (c = CHR ''i'' \<or> c = CHR ''u'')"
  by (cases ty) (simp_all add: lex_int_type_text_def kSuffixes_def int_sfx_def)

lemma suffix_name: "sfx_name (int_type_info ty) = the (lex_int_type_text ty)" "sfx_type (int_type_info ty) = ty"
  by (cases ty; simp add: lex_int_type_text_def int_type_info_def kSuffixes_def int_sfx_def)+

lemma int_type_info_mem: "int_type_info ty \<in> set kSuffixes"
  by (cases ty) (simp_all add: int_type_info_def kSuffixes_def int_sfx_def)

lemma int_fits_U64: "int_fits ty v False \<Longrightarrow> v \<le> U64_MAX"
  using kSuffixes_cases [OF int_type_info_mem [of ty]]
  by (auto simp: int_fits_def Let_def split: if_split_asm)

lemma fits_emit:
  assumes "int_fits ty v False" and "sx = int_type_info ty"
  shows "(if sfx_signed sx then signed_magnitude_fits sx v um else unsigned_magnitude_fits sx v)
    \<and> \<not> (sfx_signed sx \<and> (if 64 \<le> sfx_width sx then v = 9223372036854775808 else v = 2 ^ (sfx_width sx - 1)))"
  using kSuffixes_cases [OF int_type_info_mem [of ty]] assms
  by (auto simp: int_fits_def Let_def signed_magnitude_fits_def unsigned_magnitude_fits_def)

lemma int_reads:
  assumes tx: "lx_text s = p @ dec_text v @ the (lex_int_type_text ty) @ '' '' @ r" and fits: "int_fits ty v False"
  shows "reads_as s (length p) (length (lexeme (V_INT ty v False))) (V_INT ty v False)"
proof -
  let ?t = "lx_text s" and ?d = "dec_text v" and ?n = "the (lex_int_type_text ty)"
  let ?de = "length p + length ?d"
  obtain c w where c: "?n = c # w" "c = CHR ''i'' \<or> c = CHR ''u''" using suffix_head [of ty] by blast
  have cd: "\<not> is_digit c" "c \<noteq> CHR ''_''" "c \<noteq> CHR ''x'' \<and> c \<noteq> CHR ''X'' \<and> c \<noteq> CHR ''b'' \<and> c \<noteq> CHR ''B'' \<and> c \<noteq> CHR ''o'' \<and> c \<noteq> CHR ''O''"
    using c(2) by (auto simp: is_digit_def in_range_def)
  have dig: "is_digit (?d ! k)" if "k < length ?d" for k using dec_text_digits [of "?d ! k" v] nth_mem [OF that] by simp
  have at: "?t ! (length p + k) = ?d ! k" if "k < length ?d" for k
    using that tx by (simp add: nth_append)
  have at_de: "?t ! ?de = c" using tx c(1) nth_append_length [of "p @ ?d"] by simp
  have hd: "?t ! length p = hd ?d" using at [of 0] dec_text_ne [of v] by (simp add: hd_conv_nth)
  have hd_dig: "is_digit (hd ?d)" using dec_text_digits hd_in_set [OF dec_text_ne] by blast
  have pre: "int_prefix ?t (length p) = (10, length p)"
  proof (cases "hd ?d = CHR ''0''")
    case True
    then have "?de = length p + 1" using dec_text_lead [of v] by simp
    with at_de have "?t ! (length p + 1) = c" by simp
    with cd show ?thesis by (simp add: int_prefix_def Let_def)
  qed (simp add: int_prefix_def hd)
  have de: "scan_while (\<lambda>c. is_base_digit c 10 \<or> c = CHR ''_'') ?t (length p) = ?de"
    unfolding tx
    by (rule scan_while_suffix) (insert dec_text_digits cd c, auto simp: list_all_iff is_base_digit_def)
  have some: "list_ex (\<lambda>k. ?t ! k \<noteq> CHR ''_'') [length p..<?de]"
    using hd hd_dig char_classes(4) [of "hd ?d"] dec_text_ne [of v]
    by (auto simp: list_ex_iff intro!: bexI [of _ "length p"])
  have lead: "\<not> (?t ! length p = CHR ''0'' \<and> 1 < ?de - length p)"
    using dec_text_lead [of v] hd by auto
  have us: "\<not> underscore_error ?t 10 (length p) ?de"
  proof -
    have "?t ! k \<noteq> CHR ''_''" if "k \<in> set [length p..<?de]" for k
    proof -
      have "k - length p < length ?d" "length p + (k - length p) = k" using that by auto
      with at [of "k - length p"] dig [of "k - length p"] char_classes(4) [of "?d ! (k - length p)"]
      show ?thesis by simp
    qed
    then show ?thesis by (auto simp: underscore_error_def list_ex_iff)
  qed
  have sfx: "match_suffix ?t ?de = Some (int_type_info ty)"
    using suffix_reads [of "p @ ?d" ty r] tx by simp
  have len: "?de < length ?t" using tx c(1) by simp
  have sl: "slice ?t (length p) ?de = ?d" using tx by simp
  have val: "int_value 10 ?d 0 = Some v"
    using int_value_spec [of 10 ?d] int_fits_U64 [OF fits] by (simp add: dec_text_num)
  note fe = fits_emit [OF fits refl, of "lx_prev_minus_unary s"]
  have "scan_integer s (length p) =
      (emit_suffixed s (length p) ?de (?de + length ?n) (int_type_info ty) (Some v), ?de + length ?n)"
    unfolding scan_integer_def Let_def pre prod.case de using some lead us sfx len at_de c(2) sl val
    by (auto simp: suffix_name)
  moreover have "emit_suffixed s (length p) ?de (?de + length ?n) (int_type_info ty) (Some v) =
      scan_emit s (make_token (V_INT ty v False) (lx_src s) (length p) (?de + length ?n))"
    using fe by (auto simp: emit_suffixed_def Let_def suffix_name)
  ultimately show ?thesis
    using hd hd_dig char_classes(2) [OF hd_dig] by (simp add: reads_as_def scan_one_def Let_def add.assoc)
qed

lemma string_step_byte:
  assumes "lx_text s = q @ esc_byte c @ r" and "r \<noteq> []"
  shows "string_step s start (length q) False False bs =
    Inl (s, length q + length (esc_byte c), False, False, bs @ [c])"
  using assms
  by (cases r) (auto simp: string_step_def Let_def esc_byte_def escape_byte_def nth_append)

lemma string_loop_bytes:
  "lx_text s = q @ concat (map esc_byte cs) @ [QUOTE] @ r \<Longrightarrow>
    string_loop s start (length q) False False bs =
      (s, bs @ cs, length q + length (concat (map esc_byte cs)) + 1, True)"
proof (induction cs arbitrary: q bs)
  case Nil
  then have "string_step s start (length q) False False bs = Inr (s, bs, length q + 1, True)"
    by (simp add: string_step_def Let_def nth_append)
  then show ?case by (simp add: string_loop.simps)
next
  case (Cons c cs)
  have "string_step s start (length q) False False bs =
      Inl (s, length q + length (esc_byte c), False, False, bs @ [c])"
    using Cons.prems by (intro string_step_byte [where r = "concat (map esc_byte cs) @ [QUOTE] @ r"]) simp_all
  moreover have "string_loop s start (length (q @ esc_byte c)) False False (bs @ [c]) =
      (s, (bs @ [c]) @ cs, length (q @ esc_byte c) + length (concat (map esc_byte cs)) + 1, True)"
    using Cons.prems by (intro Cons.IH) simp
  ultimately show ?case by (subst string_loop.simps) simp
qed

lemma string_reads:
  assumes tx: "lx_text s = p @ lexeme (V_STR bytes) @ '' '' @ r" and "utf8_text bytes"
    and r: "no_trivia r" "r = [] \<or> hd r \<noteq> QUOTE"
  shows "reads_as s (length p) (length (lexeme (V_STR bytes))) (V_STR bytes)"
proof -
  let ?w = "lexeme (V_STR bytes)"
  let ?e = "length p + length ?w"
  have hd: "lx_text s ! length p = QUOTE" using tx by (simp add: nth_append)
  have "lx_text s = (p @ [QUOTE]) @ concat (map esc_byte bytes) @ [QUOTE] @ '' '' @ r" using tx by simp
  from string_loop_bytes [OF this, of "length p" "[]"]
  have one: "scan_string_one s (length p) = (s, bytes, ?e, True)"
    by (simp add: scan_string_one_def)
  have tx': "lx_text s = (p @ ?w) @ '' '' @ r" using tx by simp
  have sk: "skip_trivia s ?e = (s, ?e + 1)"
    using skip_space [OF tx' r(1)] by simp
  have "length (lx_text s) \<le> ?e + 1 \<or> lx_text s ! (?e + 1) \<noteq> QUOTE"
  proof (cases r)
    case Nil
    then show ?thesis by (simp add: tx')
  next
    case (Cons c r')
    have "(p @ ?w @ '' '') @ r = lx_text s" using tx' by simp
    then have "lx_text s ! (?e + 1) = c"
      using nth_append_length [of "p @ ?w @ '' ''" c r'] Cons by simp
    with r(2) Cons show ?thesis by simp
  qed
  then have more: "string_more s ?e bytes = (s, Inr (bytes, ?e))"
    using sk by (subst string_more.simps) auto
  have "scan_string s (length p) = (scan_emit s (make_token (V_STR bytes) (lx_src s) (length p) ?e), ?e)"
    using one more assms(2) lex_utf8.valid_iff by (simp add: scan_string_def)
  then show ?thesis
    using hd by (simp add: reads_as_def scan_one_def is_ident_start_def is_digit_def in_range_def)
qed

text \<open>Every lexeme followed by a space is read back as its token.\<close>

lemma lexeme_head:
  assumes "renderable v"
  shows "lexeme v \<noteq> [] \<and> no_trivia (lexeme v @ CHR '' '' # r) \<and> (hd (lexeme v) = QUOTE \<longrightarrow> is_str v)"
proof (cases v)
  case (V_IDENT n)
  then show ?thesis using assms char_classes(3) [of "hd n"] by (cases n) (auto simp: no_trivia_def)
next
  case (V_KEYWORD k)
  then have "(lexeme v, k) \<in> set kKeywords" using assms keyword_entry by simp
  from kKeywords_ident [OF this] show ?thesis
    using char_classes(3) [of "hd (lexeme v)"] by (cases "lexeme v") (auto simp: no_trivia_def)
next
  case (V_PUNCT p)
  then have "(lexeme v, p) \<in> set kPuncts" using assms punct_entry by simp
  from kPuncts_head [OF this, of r] show ?thesis by simp
next
  case (V_INT ty n m)
  have "is_digit (hd (dec_text n))" using dec_text_digits hd_in_set [OF dec_text_ne] by blast
  from char_classes(4) [OF this] show ?thesis
    using dec_text_ne [of n] V_INT by (cases "dec_text n") (auto simp: no_trivia_def)
qed (insert assms, auto simp: no_trivia_def)

lemma lexeme_reads:
  assumes "renderable v" and "lx_text s = p @ lexeme v @ '' '' @ r" and "no_trivia r"
    and "is_str v \<Longrightarrow> r = [] \<or> hd r \<noteq> QUOTE"
  shows "reads_as s (length p) (length (lexeme v)) v"
proof (cases v)
  case (V_IDENT n)
  then show ?thesis using assms ident_reads [of s p n r] by simp
next
  case (V_KEYWORD k)
  then have e: "(lexeme v, k) \<in> set kKeywords" using assms keyword_entry by simp
  then have "find_keyword (lexeme v) = k" "k \<noteq> KW_NONE" using kKeywords_find kKeywords_text by blast+
  then show ?thesis using ident_reads [OF assms(2)] kKeywords_ident [OF e] V_KEYWORD by auto
next
  case (V_PUNCT q)
  then have "(lexeme v, q) \<in> set kPuncts" using assms punct_entry by simp
  from punct_reads [OF assms(2) this] V_PUNCT show ?thesis by simp
next
  case (V_INT ty n m)
  then show ?thesis using assms int_reads [of s p n ty r] by simp
next
  case (V_STR bytes)
  then show ?thesis using assms string_reads [of s p bytes r] by simp
qed (insert assms, simp)

section \<open>The round trip\<close>

lemma render_Cons: "render_tokens (v # vs) = lexeme v @ '' '' @ render_tokens vs"
  by (simp add: render_tokens_def)

lemma renderable_list_Cons:
  "renderable_list (v # vs) \<Longrightarrow> renderable v \<and> renderable_list vs \<and> (is_str v \<longrightarrow> vs = [] \<or> \<not> is_str (hd vs))"
  by (cases vs) auto

lemma render_tokens_head:
  "renderable_list vs \<Longrightarrow> no_trivia (render_tokens vs) \<and>
    (vs = [] \<or> \<not> is_str (hd vs) \<longrightarrow> render_tokens vs = [] \<or> hd (render_tokens vs) \<noteq> QUOTE)"
  using lexeme_head [of "hd vs" "render_tokens (tl vs)"]
  by (cases vs) (auto simp: render_Cons no_trivia_def render_tokens_def dest: renderable_list_Cons)

lemma lex_run_render:
  assumes "renderable_list vs" and "\<not> lx_oom s"
    and "lx_text s = p @ sp @ render_tokens vs" and "sp = [] \<or> sp = '' ''"
  shows "\<not> lx_oom (lex_run s (length p)) \<and> lx_records (lex_run s (length p)) = lx_records s \<and>
     map tok_val (lx_tokens (lex_run s (length p))) = map tok_val (lx_tokens s) @ vs @ [V_EOF]"
  using assms
proof (induction vs arbitrary: s p sp)
  case Nil
  have sk: "skip_trivia s (length p) = (s, length (lx_text s))"
    using Nil.prems skip_no_trivia [of s p sp] skip_space [of s p "[]"]
    by (auto simp: render_tokens_def no_trivia_def)
  show ?case
    using sk Nil.prems(2) by (subst (1 2 3) lex_run.simps) (simp add: scan_emit_def make_token_def)
next
  case (Cons v vs)
  note rl = renderable_list_Cons [OF Cons.prems(1)]
  let ?q = "p @ sp"
  have tx: "lx_text s = ?q @ lexeme v @ '' '' @ render_tokens vs"
    using Cons.prems(3) by (simp add: render_Cons)
  have nt: "no_trivia (lexeme v @ '' '' @ render_tokens vs)"
    using lexeme_head rl by simp
  have sk: "skip_trivia s (length p) = (s, length ?q)"
    using Cons.prems(4) skip_no_trivia [OF _ nt, of s p] skip_space [OF _ nt, of s p] tx by auto
  have rd: "reads_as s (length ?q) (length (lexeme v)) v"
    by (rule lexeme_reads [OF _ tx]) (insert rl render_tokens_head [of vs], auto)
  let ?tok = "make_token v (lx_src s) (length ?q) (length ?q + length (lexeme v))"
  let ?s = "scan_emit s ?tok"
  have one: "scan_one s (length ?q) = (?s, length (?q @ lexeme v))"
    using rd by (simp add: reads_as_def add.assoc)
  have s': "\<not> lx_oom ?s" "lx_records ?s = lx_records s" "lx_src ?s = lx_src s"
    "map tok_val (lx_tokens ?s) = map tok_val (lx_tokens s) @ [v]"
    using Cons.prems(2) by (simp_all add: scan_emit_def make_token_def)
  have lt: "\<not> length (lx_text s) \<le> length ?q" using tx by simp
  have run: "lex_run s (length p) = lex_run ?s (length (?q @ lexeme v))"
    using sk one lt s'(1) Cons.prems(2) by (subst lex_run.simps) simp
  have "lx_text ?s = (?q @ lexeme v) @ '' '' @ render_tokens vs" using tx s'(3) by simp
  from Cons.IH [OF _ s'(1) this] rl s' show ?case unfolding run by simp
qed

text \<open>C2: the round trip of the lexer. For every list of tokens with a rendering (identifiers,
  keywords, punctuation, typed integers in range, strings of well-formed UTF-8, no two strings in a
  row), lexing the rendered text succeeds without diagnostics and gives back exactly these values,
  followed by the end-of-file token.\<close>

theorem lex_render_roundtrip:
  assumes "renderable_list vs" and "src_text src = render_tokens vs"
  shows "\<exists>toks. lex_tokenize qs src = LEX_OK toks \<and> map tok_val toks = vs @ [V_EOF]"
  using lex_run_render [of vs "lex_start src" "[]" "[]"] assms
  by (auto simp: lex_tokenize_def Let_def lex_start_def)

lemma lex_render_roundtrip_witness:
  "\<exists>toks. lex_tokenize insertion_sort \<lparr>src_file = ''m'', src_text = ''x += 300u16 \"q\" ; '', src_line_starts = [0]\<rparr> = LEX_OK toks
     \<and> map tok_val toks = [V_IDENT ''x'', V_PUNCT PUNCT_PLUS_ASSIGN, V_INT LEX_INT_U16 300 False, V_STR ''q'', V_PUNCT PUNCT_SEMI, V_EOF]"
proof -
  let ?vs = "[V_IDENT ''x'', V_PUNCT PUNCT_PLUS_ASSIGN, V_INT LEX_INT_U16 300 False, V_STR ''q'', V_PUNCT PUNCT_SEMI]"
  have "utf8_text ''q''" by (simp add: utf8_text_ascii utf8_text_Nil)
  then have "renderable_list ?vs"
    by (simp add: is_ident_start_def is_ident_cont_def in_range_def find_keyword_def kKeywords_def
        int_fits_def int_type_info_def kSuffixes_def int_sfx_def)
  moreover have d: "char_of (51 :: nat) = CHR ''3''" "char_of (48 :: nat) = CHR ''0''"
    using char_of_char [of "CHR ''3''"] char_of_char [of "CHR ''0''"] by simp_all
  moreover have "render_tokens ?vs = ''x += 300u16 \"q\" ; ''"
    by (simp add: render_tokens_def lex_punct_text_def kPuncts_def dec_text_def u64_digits.simps
        lex_int_type_text_def kSuffixes_def int_sfx_def esc_byte_def d)
  ultimately show ?thesis
    using lex_render_roundtrip [of ?vs "\<lparr>src_file = ''m'', src_text = ''x += 300u16 \"q\" ; '', src_line_starts = [0]\<rparr>"]
    by simp
qed

text \<open>C35: punctuation is matched longest first: the token emitted is spelled by a prefix of the rest of
  the text, and no longer entry of the punctuation table is a prefix of it; when no entry is one, a
  diagnostic is reported and no token emitted.\<close>

theorem scan_punct_longest:
  assumes "lx_text s = p @ r" and "r \<noteq> []" and "\<not> lx_oom s"
  shows "(\<exists>w q. prefix w r \<and> lex_punct_text q = Some w \<and> (\<forall>(w', q') \<in> set kPuncts. prefix w' r \<longrightarrow> length w' \<le> length w) \<and>
           scan_punct s (length p) =
             (scan_emit s (make_token (V_PUNCT q) (lx_src s) (length p) (length p + length w)), length p + length w))
    \<or> ((\<forall>(w', q') \<in> set kPuncts. \<not> prefix w' r) \<and> lx_tokens (fst (scan_punct s (length p))) = lx_tokens s \<and>
       length (lx_records (fst (scan_punct s (length p)))) = length (lx_records s) + 1)"
proof (cases "punct_match r")
  case (Some e)
  obtain w q where e: "e = (w, q)" by (cases e)
  from punct_match_longest [of r w q] scan_punct_match [OF assms(1)] Some e show ?thesis by auto
next
  case None
  then have np: "\<forall>(w', q') \<in> set kPuncts. \<not> prefix w' r"
    by (auto simp: punct_match_def find_None_iff)
  then have "find (\<lambda>e. length p + length (fst e) \<le> length (lx_text s) \<and>
      take (length (fst e)) (drop (length p) (lx_text s)) = fst e) kPuncts = None"
    by (auto simp: find_None_iff assms(1) take_prefix)
  moreover have "0 < length r" using assms(2) by simp
  ultimately show ?thesis using np assms(1,3)
    by (auto simp: scan_punct_def Let_def scan_add_record_eq)
qed

lemma scan_punct_longest_witness:
  "\<exists>w q. prefix w ''>>=1'' \<and> lex_punct_text q = Some w \<and> 3 \<le> length w"
proof -
  let ?s = "lex_start \<lparr>src_file = ''m'', src_text = ''>>=1'', src_line_starts = [0]\<rparr>"
  have "lx_text ?s = [] @ ''>>=1''" "\<not> lx_oom ?s" by (simp_all add: lex_start_def)
  note long = scan_punct_longest [OF this(1) _ this(2)]
  have e: "(''>>='', PUNCT_SHR_ASSIGN) \<in> set kPuncts" "prefix ''>>='' ''>>=1''" by (simp_all add: kPuncts_def)
  then have "\<not> (\<forall>(w', q') \<in> set kPuncts. \<not> prefix w' ''>>=1'')" by blast
  with long obtain w q where w: "prefix w ''>>=1''" "lex_punct_text q = Some w"
    "\<forall>(w', q') \<in> set kPuncts. prefix w' ''>>=1'' \<longrightarrow> length w' \<le> length w" by auto
  from bspec [OF w(3) e(1)] e(2) have "3 \<le> length w" by simp
  with w(1,2) show ?thesis by blast
qed

text \<open>An unterminated block comment after a string literal is reported twice: the look-ahead for an
  adjacent string reports it, and the main loop, which goes on behind the string, reports it again.\<close>

theorem unterminated_comment_twice:
  "\<exists>toks r. lex_tokenize qs \<lparr>src_file = ''m'', src_text = ''\"a\"/*'', src_line_starts = [0]\<rparr> =
     LEX_DIAG_ERROR toks (the (diag_sort_records qs (Some [Some r, Some r]))) \<and> rec_code r = Some ''AIC-L0004''"
proof -
  let ?src = "\<lparr>src_file = ''m'', src_text = ''\"a\"/*'', src_line_starts = [0]\<rparr>"
  let ?msg = "''unterminated block comment''"
  let ?r = "lex_record ?src ''AIC-L0004'' ?msg 3 5"
  define s0 where "s0 = lex_start ?src"
  have s0: "\<not> lx_oom s0" "lx_src s0 = ?src" "lx_records s0 = []" by (simp_all add: s0_def lex_start_def)
  define s1 where "s1 = scan_add_record s0 ''AIC-L0004'' ?msg 3 5"
  have s1: "\<not> lx_oom s1" "lx_src s1 = ?src" "lx_records s1 = [?r]"
    using scan_add_record_eq [of s0 "''AIC-L0004''" 3 5 ?msg] s0 by (simp_all add: s1_def)
  define s2 where "s2 = scan_emit s1 (make_token (V_STR ''a'') ?src 0 3)"
  have s2: "\<not> lx_oom s2" "lx_src s2 = ?src" "lx_records s2 = [?r]"
    using s1 by (simp_all add: s2_def scan_emit_def)
  define s3 where "s3 = scan_add_record s2 ''AIC-L0004'' ?msg 3 5"
  have s3: "\<not> lx_oom s3" "lx_src s3 = ?src" "lx_records s3 = [?r, ?r]"
    using scan_add_record_eq [of s2 "''AIC-L0004''" 3 5 ?msg] s2 by (simp_all add: s3_def)
  have tr0: "skip_trivia s0 0 = (s0, 0)" and tr5: "skip_trivia s1 5 = (s1, 5)" "skip_trivia s3 5 = (s3, 5)"
    by (simp_all add: skip_trivia.simps trivia_step_def Let_def s0 s1 s3)
  have be: "block_end ''\"a\"/*'' 5 = 5" by (simp add: block_end.simps)
  have five: "5 = Suc (Suc (Suc (Suc (Suc 0))))" by simp
  note add5 = s1_def [symmetric] s3_def [symmetric]
  have tr3: "skip_trivia s0 3 = (s1, 5)" "skip_trivia s2 3 = (s3, 5)"
    using tr5 by (subst skip_trivia.simps, simp add: trivia_step_def Let_def s0 s2 be add5 five [symmetric])+
  have one: "scan_string_one s0 0 = (s0, ''a'', 3, True)"
    by (simp add: scan_string_one_def string_loop.simps string_step_def Let_def s0)
  have more: "string_more s0 3 ''a'' = (s1, Inr (''a'', 3))"
    by (subst string_more.simps) (simp add: tr3 s1)
  have "utf8_valid ''a''" by (simp add: utf8_valid_def utf8_valid_loop.simps)
  then have sc: "scan_one s0 0 = (s2, 3)"
    by (simp add: scan_one_def Let_def scan_string_def one more s0 s1 s2_def is_ident_start_def is_digit_def in_range_def)
  have "lex_run s0 0 = lex_run s2 3"
    by (subst lex_run.simps) (simp add: tr0 sc s0 s2)
  also have "\<dots> = scan_emit s3 (make_token V_EOF ?src 5 5)"
    by (subst lex_run.simps) (simp add: tr3 s3)
  finally have run: "lex_run (lex_start ?src) 0 = scan_emit s3 (make_token V_EOF ?src 5 5)"
    by (simp add: s0_def)
  then have "\<not> lx_oom (lex_run (lex_start ?src) 0)" "lx_records (lex_run (lex_start ?src) 0) = [?r, ?r]"
    using s3 by (simp_all add: scan_emit_def)
  moreover have "rec_code ?r = Some ''AIC-L0004''" by (simp add: lex_record_def)
  ultimately show ?thesis unfolding lex_tokenize_def Let_def by auto
qed

end
