(* ===== verification/LexStream.thy ===== *)
theory LexStream
  imports LexRound
begin

text \<open>
  What a text without lexical errors is, as a relation that does not mention the scanner: tokens with
  trivia between them, each token with its bytes, value and type (section 4 of the language
  specification), and the theorem that the lexer accepts exactly these texts, with exactly these
  tokens.
\<close>

section \<open>The lexical grammar\<close>

definition starts_at :: "string \<Rightarrow> nat \<Rightarrow> string \<Rightarrow> bool" where
  "starts_at t i w \<longleftrightarrow> i + length w \<le> length t \<and> slice t i (i + length w) = w"

text \<open>Whitespace, line comments up to the line feed or the end, and block comments up to the first
  terminator.\<close>

definition is_space :: "char \<Rightarrow> bool" where
  "is_space c \<longleftrightarrow> c = CHR '' '' \<or> c = CHR 0x09 \<or> c = LF \<or> c = CR"

inductive trivia :: "string \<Rightarrow> nat \<Rightarrow> nat \<Rightarrow> bool" for t where
  none: "trivia t i i"
| space: "i < length t \<Longrightarrow> is_space (t ! i) \<Longrightarrow> trivia t (i + 1) j \<Longrightarrow> trivia t i j"
| line: "starts_at t i ''//'' \<Longrightarrow> i + 2 \<le> k \<Longrightarrow> k \<le> length t \<Longrightarrow> \<forall>m. i + 2 \<le> m \<and> m < k \<longrightarrow> t ! m \<noteq> LF \<Longrightarrow>
    k = length t \<or> t ! k = LF \<Longrightarrow> trivia t k j \<Longrightarrow> trivia t i j"
| block: "starts_at t i ''/*'' \<Longrightarrow> i + 2 \<le> k \<Longrightarrow> starts_at t k ''*/'' \<Longrightarrow>
    \<forall>m. i + 2 \<le> m \<and> m < k \<longrightarrow> \<not> starts_at t m ''*/'' \<Longrightarrow> trivia t (k + 2) j \<Longrightarrow> trivia t i j"

text \<open>Where trivia end: nothing that is skipped begins here.\<close>

definition no_trivia_at :: "string \<Rightarrow> nat \<Rightarrow> bool" where
  "no_trivia_at t i \<longleftrightarrow>
     i < length t \<longrightarrow> \<not> is_space (t ! i) \<and> \<not> starts_at t i ''//'' \<and> \<not> starts_at t i ''/*''"

definition word_at :: "string \<Rightarrow> nat \<Rightarrow> nat \<Rightarrow> bool" where
  "word_at t b e \<longleftrightarrow>
     b < e \<and> e \<le> length t \<and> is_ident_start (t ! b) \<and> (\<forall>k. b \<le> k \<and> k < e \<longrightarrow> is_ident_cont (t ! k)) \<and>
     (e < length t \<longrightarrow> \<not> is_ident_cont (t ! e))"

text \<open>Integers: a prefix for the base, the longest run of digits and separators, each separator between
  two digits, a suffix that no identifier character follows.\<close>

definition radix_at :: "string \<Rightarrow> nat \<Rightarrow> nat \<Rightarrow> nat \<Rightarrow> bool" where
  "radix_at t b base ds \<longleftrightarrow>
     (if starts_at t b ''0x'' \<or> starts_at t b ''0X'' then base = 16 \<and> ds = b + 2
      else if starts_at t b ''0b'' \<or> starts_at t b ''0B'' then base = 2 \<and> ds = b + 2
      else if starts_at t b ''0o'' \<or> starts_at t b ''0O'' then base = 8 \<and> ds = b + 2
      else base = 10 \<and> ds = b)"

definition digits_at :: "string \<Rightarrow> nat \<Rightarrow> nat \<Rightarrow> nat \<Rightarrow> bool" where
  "digits_at t base ds de \<longleftrightarrow>
     ds < de \<and> de \<le> length t \<and>
     (\<forall>k. ds \<le> k \<and> k < de \<longrightarrow>
        is_base_digit (t ! k) base \<or>
        t ! k = CHR ''_'' \<and> ds < k \<and> is_base_digit (t ! (k - 1)) base \<and> k + 1 < de \<and> is_base_digit (t ! (k + 1)) base) \<and>
     (de < length t \<longrightarrow> \<not> is_base_digit (t ! de) base \<and> t ! de \<noteq> CHR ''_'')"

definition suffix_at :: "string \<Rightarrow> nat \<Rightarrow> int_suffix \<Rightarrow> bool" where
  "suffix_at t i sx \<longleftrightarrow>
     sx \<in> set kSuffixes \<and> starts_at t i (sfx_name sx) \<and>
     (i + length (sfx_name sx) < length t \<longrightarrow> \<not> is_ident_cont (t ! (i + length (sfx_name sx))))"

text \<open>The value and type of an integer: without a suffix the first of \<open>i32\<close>, \<open>i64\<close> and \<open>u64\<close> that holds the
  value; with a suffix its type, whose range the value must be in, or be the magnitude of the
  least value directly behind a unary minus.\<close>

definition int_at :: "string \<Rightarrow> nat \<Rightarrow> nat \<Rightarrow> bool \<Rightarrow> lex_int_type \<Rightarrow> nat \<Rightarrow> bool \<Rightarrow> bool" where
  "int_at t b e negated ty v is_min \<longleftrightarrow>
     b < length t \<and> is_digit (t ! b) \<and>
     (\<exists>base ds de. radix_at t b base ds \<and> digits_at t base ds de \<and>
        (base = 10 \<and> t ! b = CHR ''0'' \<longrightarrow> de = b + 1) \<and> v = digits_num base (slice t ds de) \<and>
        ((\<forall>sx. \<not> suffix_at t de sx) \<and> e = de \<and> \<not> is_min \<and>
           (v < 2 ^ 31 \<and> ty = LEX_INT_I32 \<or> 2 ^ 31 \<le> v \<and> v < 2 ^ 63 \<and> ty = LEX_INT_I64 \<or>
            2 ^ 63 \<le> v \<and> v < 2 ^ 64 \<and> ty = LEX_INT_U64) \<or>
         (\<exists>sx. suffix_at t de sx \<and> e = de + length (sfx_name sx) \<and> ty = sfx_type sx \<and>
            (is_min \<longleftrightarrow> sfx_signed sx \<and> negated \<and> v = 2 ^ (sfx_width sx - 1)) \<and>
            (is_min \<or> v < 2 ^ (if sfx_signed sx then sfx_width sx - 1 else sfx_width sx)))))"

text \<open>Strings: the characters and escapes up to the closing quote; adjacent strings are one.\<close>

definition escapes :: "(char \<times> char) list" where
  "escapes = [(CHR ''0'', CHR 0x00), (CHR ''n'', LF), (CHR ''r'', CR), (CHR ''t'', CHR 0x09), (BSLASH, BSLASH), (QUOTE, QUOTE)]"

inductive str_body :: "string \<Rightarrow> nat \<Rightarrow> nat \<Rightarrow> string \<Rightarrow> bool" for t where
  close: "i < length t \<Longrightarrow> t ! i = QUOTE \<Longrightarrow> str_body t i (i + 1) []"
| plain: "i < length t \<Longrightarrow> t ! i \<noteq> QUOTE \<Longrightarrow> t ! i \<noteq> LF \<Longrightarrow> t ! i \<noteq> BSLASH \<Longrightarrow> str_body t (i + 1) e bs \<Longrightarrow>
    str_body t i e (t ! i # bs)"
| escape: "i + 1 < length t \<Longrightarrow> t ! i = BSLASH \<Longrightarrow> (t ! (i + 1), c) \<in> set escapes \<Longrightarrow> str_body t (i + 2) e bs \<Longrightarrow>
    str_body t i e (c # bs)"
| hex: "i + 3 < length t \<Longrightarrow> t ! i = BSLASH \<Longrightarrow> t ! (i + 1) = CHR ''x'' \<Longrightarrow> is_hex (t ! (i + 2)) \<Longrightarrow> is_hex (t ! (i + 3)) \<Longrightarrow>
    str_body t (i + 4) e bs \<Longrightarrow> str_body t i e (char_of (hex_value (t ! (i + 2)) * 16 + hex_value (t ! (i + 3))) # bs)"

definition quote_follows :: "string \<Rightarrow> nat \<Rightarrow> bool" where
  "quote_follows t e \<longleftrightarrow> (\<exists>p. trivia t e p \<and> p < length t \<and> t ! p = QUOTE)"

inductive str_at :: "string \<Rightarrow> nat \<Rightarrow> nat \<Rightarrow> string \<Rightarrow> bool" for t where
  last: "b < length t \<Longrightarrow> t ! b = QUOTE \<Longrightarrow> str_body t (b + 1) e bs \<Longrightarrow> \<not> quote_follows t e \<Longrightarrow> str_at t b e bs"
| more: "b < length t \<Longrightarrow> t ! b = QUOTE \<Longrightarrow> str_body t (b + 1) k bs \<Longrightarrow> trivia t k p \<Longrightarrow> str_at t p e bs' \<Longrightarrow>
    str_at t b e (bs @ bs')"

text \<open>A token, given whether it stands directly behind a unary minus.\<close>

fun token_at :: "string \<Rightarrow> nat \<Rightarrow> nat \<Rightarrow> bool \<Rightarrow> lex_val \<Rightarrow> bool" where
  "token_at t b e negated (V_IDENT n) \<longleftrightarrow> word_at t b e \<and> n = slice t b e \<and> n \<notin> fst ` set kKeywords"
| "token_at t b e negated (V_KEYWORD k) \<longleftrightarrow> word_at t b e \<and> (slice t b e, k) \<in> set kKeywords"
| "token_at t b e negated (V_PUNCT p) \<longleftrightarrow>
     (\<exists>w. (w, p) \<in> set kPuncts \<and> starts_at t b w \<and> e = b + length w \<and>
        (\<forall>(w', p') \<in> set kPuncts. starts_at t b w' \<longrightarrow> length w' \<le> length w))"
| "token_at t b e negated (V_INT ty v is_min) \<longleftrightarrow> int_at t b e negated ty v is_min"
| "token_at t b e negated (V_STR bs) \<longleftrightarrow> str_at t b e bs \<and> utf8_text bs"
| "token_at t b e negated V_EOF \<longleftrightarrow> False"

text \<open>A minus is unary unless the token before it ends an expression. The tokens before a position are
  listed from the last one.\<close>

fun ends_expr :: "lex_val \<Rightarrow> bool" where
  "ends_expr (V_IDENT n) = True"
| "ends_expr (V_INT ty v m) = True"
| "ends_expr (V_STR bs) = True"
| "ends_expr (V_KEYWORD k) = (k \<in> {KW_TRUE, KW_FALSE, KW_NULL})"
| "ends_expr (V_PUNCT p) = (p \<in> {PUNCT_RPAREN, PUNCT_RBRACKET})"
| "ends_expr V_EOF = False"

definition behind_unary_minus :: "lex_val list \<Rightarrow> bool" where
  "behind_unary_minus before =
     (case before of
        v # vs \<Rightarrow> v = V_PUNCT PUNCT_MINUS \<and> (case vs of [] \<Rightarrow> True | u # _ \<Rightarrow> \<not> ends_expr u)
      | [] \<Rightarrow> False)"

fun lexed :: "load_source \<Rightarrow> lex_val list \<Rightarrow> nat \<Rightarrow> lex_token list \<Rightarrow> bool" where
  "lexed src before lo [] \<longleftrightarrow> trivia (src_text src) lo (length (src_text src))"
| "lexed src before lo (tok # toks) \<longleftrightarrow>
     (\<exists>b e. trivia (src_text src) lo b \<and> no_trivia_at (src_text src) b \<and> b < e \<and> e \<le> length (src_text src) \<and>
        token_at (src_text src) b e (behind_unary_minus before) (tok_val tok) \<and>
        tok_span tok = load_span_range src (int b) (int e) \<and> lexed src (tok_val tok # before) e toks)"

section \<open>Trivia\<close>

lemma starts_at_2: "starts_at t i [c, d] \<longleftrightarrow> i + 1 < length t \<and> t ! i = c \<and> t ! (i + 1) = d"
proof (cases "i + 1 < length t")
  case True
  then have "slice t i (i + 2) = [t ! i, t ! (i + 1)]"
    by (simp add: numeral_2_eq_2 Cons_nth_drop_Suc [symmetric])
  with True show ?thesis by (auto simp: starts_at_def numeral_2_eq_2)
qed (simp add: starts_at_def)

lemma scan_while_stop:
  assumes "i \<le> k" and "k \<le> length t" and "\<forall>m. i \<le> m \<and> m < k \<longrightarrow> P (t ! m)" and "k < length t \<longrightarrow> \<not> P (t ! k)"
  shows "scan_while P t i = k"
  using assms
proof (induction P t i rule: scan_while.induct)
  case (1 P t i)
  show ?case
  proof (cases "i < k")
    case True
    then show ?thesis using 1 by (subst scan_while.simps) auto
  next
    case False
    then show ?thesis using "1.prems" by (subst scan_while.simps) auto
  qed
qed

lemma scan_while_run: "i \<le> m \<Longrightarrow> m < scan_while P t i \<Longrightarrow> P (t ! m)"
proof -
  assume m: "i \<le> m" "m < scan_while P t i"
  let ?w = "takeWhile P (drop i t)"
  have l: "m - i < length ?w" using m by (simp add: scan_while_eq)
  then have "?w ! (m - i) = drop i t ! (m - i)" by (rule takeWhile_nth)
  moreover have "length ?w \<le> length t - i" using length_takeWhile_le [of P "drop i t"] by simp
  ultimately show "P (t ! m)" using nth_mem [OF l] l m by (auto dest: set_takeWhileD)
qed

lemma scan_while_end: "scan_while P t i < length t \<Longrightarrow> \<not> P (t ! scan_while P t i)"
proof (induction P t i rule: scan_while.induct)
  case (1 P t i)
  show ?case
  proof (cases "i < length t \<and> P (t ! i)")
    case True
    then have "scan_while P t i = scan_while P t (i + 1)" by (subst scan_while.simps) simp
    with 1 True show ?thesis by simp
  next
    case False
    then have "scan_while P t i = i" by (subst scan_while.simps) auto
    with "1.prems" False show ?thesis by simp
  qed
qed

lemma block_end_stop:
  assumes "i \<le> k" and "starts_at t k ''*/''" and "\<forall>m. i \<le> m \<and> m < k \<longrightarrow> \<not> starts_at t m ''*/''"
  shows "block_end t i = k"
  using assms
proof (induction t i rule: block_end.induct)
  case (1 t i)
  show ?case
  proof (cases "i < k")
    case True
    then show ?thesis using 1 by (subst block_end.simps) (auto simp: starts_at_2)
  next
    case False
    then show ?thesis using "1.prems" by (subst block_end.simps) (auto simp: starts_at_2)
  qed
qed

lemma block_end_found:
  "m < block_end t i \<and> i \<le> m \<longrightarrow> \<not> starts_at t m ''*/''"
  "block_end t i + 1 < length t \<Longrightarrow> starts_at t (block_end t i) ''*/''"
proof (induction t i rule: block_end.induct)
  case (1 t i)
  show "m < block_end t i \<and> i \<le> m \<longrightarrow> \<not> starts_at t m ''*/''"
    "block_end t i + 1 < length t \<Longrightarrow> starts_at t (block_end t i) ''*/''"
  proof -
    have s: "block_end t i = (if i + 1 < length t \<and> \<not> starts_at t i ''*/'' then block_end t (i + 1) else i)"
      by (subst block_end.simps) (auto simp: starts_at_2)
    show "m < block_end t i \<and> i \<le> m \<longrightarrow> \<not> starts_at t m ''*/''"
    proof (cases "m = i")
      case False
      then show ?thesis using 1(1) s by (auto simp: starts_at_2 split: if_split_asm)
    qed (use s in \<open>auto split: if_split_asm\<close>)
    show "block_end t i + 1 < length t \<Longrightarrow> starts_at t (block_end t i) ''*/''"
      using 1(2) s by (auto simp: starts_at_2 split: if_split_asm)
  qed
qed

text \<open>One step over trivia.\<close>

lemma trivia_step_grammar:
  assumes "trivia t i j" and "i \<noteq> j" and "t = lx_text s"
  obtains k where "trivia_step s i = Some (s, k)" and "trivia t k j"
  using assms(1)
proof (cases rule: trivia.cases)
  case space
  then show thesis using assms(3) by (intro that [of "i + 1"]) (auto simp: trivia_step_def Let_def is_space_def)
next
  case (line k)
  have "scan_while (\<lambda>c. c \<noteq> LF) t (i + 2) = k"
    using line by (intro scan_while_stop) auto
  with line show thesis using assms(3) by (intro that [of k]) (auto simp: trivia_step_def Let_def starts_at_2)
next
  case (block k)
  have "block_end t (i + 2) = k" using block by (intro block_end_stop) auto
  with block show thesis using assms(3) by (intro that [of "k + 2"]) (auto simp: trivia_step_def Let_def starts_at_2)
qed (use assms in simp)

lemma no_trivia_step: "no_trivia_at (lx_text s) i \<Longrightarrow> trivia_step s i = None"
  by (auto simp: no_trivia_at_def trivia_step_def starts_at_2 is_space_def Let_def)

lemma skip_trivia_grammar:
  "trivia (lx_text s) i j \<Longrightarrow> no_trivia_at (lx_text s) j \<Longrightarrow> skip_trivia s i = (s, j)"
proof (induction s i rule: skip_trivia.induct)
  case (1 s i)
  show ?case
  proof (cases "i = j")
    case True
    with "1.prems" show ?thesis by (subst skip_trivia.simps) (simp add: no_trivia_step)
  next
    case False
    obtain k where k: "trivia_step s i = Some (s, k)" "trivia (lx_text s) k j"
      by (rule trivia_step_grammar [OF "1.prems"(1) False refl])
    from "1.IH" [OF k(1) refl k(2) "1.prems"(2)] k(1) show ?thesis by (subst skip_trivia.simps) simp
  qed
qed

text \<open>A part of the run that makes no record.\<close>

abbreviation quiet :: "lex_scan \<Rightarrow> lex_scan \<Rightarrow> bool" where
  "quiet s s' \<equiv> length (lx_records s') = length (lx_records s)"

lemma reports_quiet: "reports s s' \<Longrightarrow> quiet s s' \<Longrightarrow> s' = s"
  by (auto simp: reports_def)

lemma reports_length: "reports s s' \<Longrightarrow> length (lx_records s) \<le> length (lx_records s')"
  by (auto simp: reports_def)

lemma add_record_loud:
  "\<not> lx_oom s \<Longrightarrow> code \<in> lex_codes \<Longrightarrow> b < e \<Longrightarrow> e \<le> length (lx_text s) \<Longrightarrow>
    length (lx_records (scan_add_record s code m b e)) = length (lx_records s) + 1"
  by (simp add: scan_add_record_eq)

lemma trivia_step_sound:
  assumes "\<not> lx_oom s" and "trivia_step s i = Some (s', k)" and "quiet s s'" and "trivia (lx_text s) k j"
  shows "s' = s \<and> trivia (lx_text s) i j"
proof -
  let ?t = "lx_text s"
  have eq: "s' = s" using reports_quiet [OF trivia_step_reports [OF assms(1,2)] assms(3)] .
  have i: "i < length ?t" using trivia_step_bounds [OF assms(2)] by simp
  have loud: "\<not> quiet s (scan_add_record s ''AIC-L0004'' m i (length ?t))" for m
    using add_record_loud [OF assms(1), of "''AIC-L0004''" i "length ?t" m] i by simp
  have "is_space (?t ! i) \<and> k = i + 1 \<or>
      starts_at ?t i ''//'' \<and> k = scan_while (\<lambda>c. c \<noteq> LF) ?t (i + 2) \<or>
      starts_at ?t i ''/*'' \<and> k = block_end ?t (i + 2) + 2 \<and> block_end ?t (i + 2) + 1 < length ?t"
  proof (cases "is_space (?t ! i)")
    case True
    then show ?thesis using assms(2) i by (simp add: trivia_step_def is_space_def)
  next
    case False
    then show ?thesis
      using assms(2,3) i loud unfolding trivia_step_def Let_def is_space_def starts_at_2
      by (auto split: if_split_asm)
  qed
  then consider "is_space (?t ! i)" "k = i + 1"
    | "starts_at ?t i ''//''" "k = scan_while (\<lambda>c. c \<noteq> LF) ?t (i + 2)"
    | "starts_at ?t i ''/*''" "k = block_end ?t (i + 2) + 2" "block_end ?t (i + 2) + 1 < length ?t"
    by blast
  then have "trivia ?t i j"
  proof cases
    case 1
    with assms(4) i show ?thesis by (auto intro: trivia.space)
  next
    case 2
    have "k \<le> length ?t" using trivia_step_bounds [OF assms(2)] by simp
    with 2 show ?thesis
      using scan_while_run [of "i + 2" _ "\<lambda>c. c \<noteq> LF" ?t] scan_while_end [of "\<lambda>c. c \<noteq> LF" ?t "i + 2"]
        scan_while_ge [of "i + 2" "\<lambda>c. c \<noteq> LF" ?t]
      by (intro trivia.line [OF _ _ _ _ _ assms(4)]) (auto simp: le_less)
  next
    case 3
    show ?thesis
    proof (rule trivia.block [OF 3(1)])
      show "i + 2 \<le> block_end ?t (i + 2)" by (rule block_end_ge)
      show "starts_at ?t (block_end ?t (i + 2)) ''*/''" by (rule block_end_found(2) [OF 3(3)])
      show "\<forall>m. i + 2 \<le> m \<and> m < block_end ?t (i + 2) \<longrightarrow> \<not> starts_at ?t m ''*/''"
        using block_end_found(1) by blast
      show "trivia ?t (block_end ?t (i + 2) + 2) j" using assms(4) 3(2) by simp
    qed
  qed
  with eq show ?thesis by simp
qed

lemma trivia_step_None: "trivia_step s i = None \<Longrightarrow> no_trivia_at (lx_text s) i"
  by (auto simp: no_trivia_at_def trivia_step_def starts_at_2 is_space_def Let_def split: if_split_asm)

lemma skip_trivia_sound:
  "\<not> lx_oom s \<Longrightarrow> skip_trivia s i = (s', j) \<Longrightarrow> quiet s s' \<Longrightarrow>
    s' = s \<and> trivia (lx_text s) i j \<and> no_trivia_at (lx_text s) j"
proof (induction s i rule: skip_trivia.induct)
  case (1 s i)
  show ?case
  proof (cases "trivia_step s i")
    case None
    with "1.prems" show ?thesis
      by (subst (asm) skip_trivia.simps) (auto intro: trivia.none trivia_step_None)
  next
    case (Some r)
    obtain s1 k where r: "r = (s1, k)" by (cases r)
    note st = Some [unfolded r]
    have rest: "skip_trivia s1 k = (s', j)" using "1.prems"(2) st by (subst (asm) skip_trivia.simps) simp
    have rep: "reports s s1" using trivia_step_reports "1.prems"(1) st by blast
    have o: "\<not> lx_oom s1" using reportsD [OF rep] "1.prems"(1) by simp
    have "length (lx_records s1) \<le> length (lx_records s')"
      by (rule reports_length [OF skip_trivia_reports [OF o rest]])
    with "1.prems"(3) reports_length [OF rep] have q: "quiet s s1" "quiet s1 s'" by simp_all
    have "s1 = s" by (rule reports_quiet [OF rep q(1)])
    with "1.IH" [OF st refl o rest q(2)] trivia_step_sound [OF "1.prems"(1) st q(1)] show ?thesis by simp
  qed
qed

section \<open>Words and punctuation\<close>

definition emits_at :: "lex_scan \<Rightarrow> nat \<Rightarrow> nat \<Rightarrow> lex_val \<Rightarrow> bool" where
  "emits_at s b e v \<longleftrightarrow> scan_one s b = (scan_emit s (make_token v (lx_src s) b e), e)"

lemma word_scan: "word_at t b e \<Longrightarrow> scan_while is_ident_cont t b = e"
  unfolding word_at_def by (rule scan_while_stop) auto

lemma word_at_scan:
  assumes "b < length t" and "is_ident_start (t ! b)"
  shows "word_at t b (scan_while is_ident_cont t b)"
proof -
  have "is_ident_cont (t ! b)" using assms(2) by (simp add: is_ident_cont_def)
  with assms show ?thesis
    unfolding word_at_def using scan_while_gt [of b t is_ident_cont] scan_while_le [of b t is_ident_cont]
      scan_while_run [of b _ is_ident_cont t] scan_while_end [of is_ident_cont t b] by simp
qed

lemma find_keyword_none: "find_keyword w = KW_NONE \<longleftrightarrow> w \<notin> fst ` set kKeywords"
proof
  show "w \<notin> fst ` set kKeywords" if "find_keyword w = KW_NONE"
    using that kKeywords_find kKeywords_text by fastforce
  show "find_keyword w = KW_NONE" if "w \<notin> fst ` set kKeywords"
    using that by (auto simp: find_keyword_def find_None_iff split: option.split dest!: find_SomeD)
qed

lemma find_keyword_mem: "find_keyword w \<noteq> KW_NONE \<Longrightarrow> (w, find_keyword w) \<in> set kKeywords"
  by (auto simp: find_keyword_def dest!: find_SomeD split: option.splits)

lemma word_val:
  "word_at t b e \<Longrightarrow>
    token_at t b e neg v \<and> (\<exists>n k. v = V_IDENT n \<or> v = V_KEYWORD k) \<longleftrightarrow>
    v = (if find_keyword (slice t b e) \<noteq> KW_NONE then V_KEYWORD (find_keyword (slice t b e)) else V_IDENT (slice t b e))"
  using find_keyword_none [of "slice t b e"] find_keyword_mem [of "slice t b e"] kKeywords_find [of "slice t b e"]
    kKeywords_text [of "slice t b e"]
  by (cases v) (auto simp del: take_eq_Nil drop_eq_Nil)

lemma word_emits:
  assumes "word_at (lx_text s) b e" and "token_at (lx_text s) b e neg v" and "\<exists>n k. v = V_IDENT n \<or> v = V_KEYWORD k"
  shows "emits_at s b e v"
  using word_scan [OF assms(1)] word_val [OF assms(1), of neg v] assms
  by (simp add: emits_at_def scan_one_def scan_ident_def Let_def word_at_def)

lemma punct_pred: "(i + length w \<le> length t \<and> take (length w) (drop i t) = w) \<longleftrightarrow> starts_at t i w"
  by (simp add: starts_at_def)

lemma starts_at_prefix: "i \<le> length t \<Longrightarrow> starts_at t i w \<longleftrightarrow> prefix w (drop i t)"
  by (auto simp: starts_at_def prefix_def take_is_prefix) (metis append_take_drop_id, metis append_eq_conv_conj length_append length_drop le_add1 nat_add_left_cancel_le ordered_cancel_comm_monoid_diff_class.add_diff_inverse)

lemma kPuncts_unique: "(w, p) \<in> set kPuncts \<Longrightarrow> (w, p') \<in> set kPuncts \<Longrightarrow> p = p'"
proof -
  have "distinct (map fst kPuncts)" by (simp add: kPuncts_def)
  then show "(w, p) \<in> set kPuncts \<Longrightarrow> (w, p') \<in> set kPuncts \<Longrightarrow> p = p'"
    by (rule eq_key_imp_eq_value)
qed

lemma punct_match_mem: "punct_match r = Some (w, p) \<Longrightarrow> (w, p) \<in> set kPuncts"
  by (auto simp: punct_match_def dest!: find_SomeD)

lemma punct_iff:
  assumes "b \<le> length t"
  shows "token_at t b e neg (V_PUNCT p) \<longleftrightarrow> (\<exists>w. punct_match (drop b t) = Some (w, p) \<and> e = b + length w)"
proof
  assume "token_at t b e neg (V_PUNCT p)"
  then obtain w where w: "(w, p) \<in> set kPuncts" "prefix w (drop b t)" "e = b + length w"
    "\<forall>(w', p') \<in> set kPuncts. prefix w' (drop b t) \<longrightarrow> length w' \<le> length w"
    by (auto simp: starts_at_prefix [OF assms])
  obtain w' p' where f: "punct_match (drop b t) = Some (w', p')"
    using w(1,2) by (cases "punct_match (drop b t)") (auto simp: punct_match_def find_None_iff)
  note l = punct_match_longest [OF f]
  have "length w' = length w" using l w(1,2,4) punct_match_mem [OF f] by (intro antisym) auto
  with l w(2) have "w' = w" by (metis prefix_length_prefix prefix_order.antisym order_refl)
  with f w(1,3) kPuncts_unique punct_match_mem [OF f] show "\<exists>w. punct_match (drop b t) = Some (w, p) \<and> e = b + length w" by blast
next
  assume "\<exists>w. punct_match (drop b t) = Some (w, p) \<and> e = b + length w"
  then obtain w where w: "punct_match (drop b t) = Some (w, p)" "e = b + length w" by blast
  with punct_match_longest [OF w(1)] punct_match_mem [OF w(1)] show "token_at t b e neg (V_PUNCT p)"
    by (auto simp: starts_at_prefix [OF assms] intro!: exI [of _ w])
qed

lemma punct_head: "(w, p) \<in> set kPuncts \<Longrightarrow>
    w \<noteq> [] \<and> \<not> is_ident_start (hd w) \<and> \<not> is_digit (hd w) \<and> hd w \<noteq> QUOTE"
  using kPuncts_head [of w p "[]"] by simp

lemma punct_start:
  "b \<le> length t \<Longrightarrow> (w, p) \<in> set kPuncts \<Longrightarrow> prefix w (drop b t) \<Longrightarrow>
    b < length t \<and> \<not> is_ident_start (t ! b) \<and> \<not> is_digit (t ! b) \<and> t ! b \<noteq> QUOTE"
  using punct_head [of w p] hd_drop_conv_nth [of b t]
  by (cases w; cases "b = length t") (auto simp: prefix_def le_less)

lemma punct_scan:
  assumes "b \<le> length (lx_text s)" and "punct_match (drop b (lx_text s)) = Some (w, p)"
  shows "scan_punct s b = (scan_emit s (make_token (V_PUNCT p) (lx_src s) b (b + length w)), b + length w)"
  using scan_punct_match [of s "take b (lx_text s)" "drop b (lx_text s)"] assms by simp

lemma punct_emits:
  assumes "b \<le> length (lx_text s)" and "token_at (lx_text s) b e neg (V_PUNCT p)"
  shows "emits_at s b e (V_PUNCT p)"
proof -
  obtain w where w: "punct_match (drop b (lx_text s)) = Some (w, p)" "e = b + length w"
    using punct_iff [OF assms(1)] assms(2) by blast
  from punct_start [OF assms(1) punct_match_mem [OF w(1)]] punct_match_longest [OF w(1)] punct_scan [OF assms(1) w(1)] w(2)
  show ?thesis by (simp add: emits_at_def scan_one_def Let_def)
qed

lemma punct_sound:
  assumes "\<not> lx_oom s" and "b < length (lx_text s)" and "quiet s (fst (scan_punct s b))"
  shows "\<exists>p e. scan_punct s b = (scan_emit s (make_token (V_PUNCT p) (lx_src s) b e), e) \<and>
    token_at (lx_text s) b e neg (V_PUNCT p)"
proof (cases "punct_match (drop b (lx_text s))")
  case (Some e)
  obtain w p where e: "e = (w, p)" by (cases e)
  from assms(2) have "b \<le> length (lx_text s)" by simp
  from punct_scan [OF this Some [unfolded e]] punct_iff [OF this, of "b + length w" neg p] Some e
  show ?thesis by (intro exI [of _ p] exI [of _ "b + length w"] conjI) (simp_all del: token_at.simps)
next
  case None
  let ?t = "lx_text s"
  have "find (\<lambda>e. b + length (fst e) \<le> length ?t \<and> take (length (fst e)) (drop b ?t) = fst e) kPuncts = None"
    using None assms(2) unfolding punct_match_def find_None_iff punct_pred
    by (simp add: starts_at_prefix)
  then have "\<not> quiet s (fst (scan_punct s b))"
    using assms(1,2) add_record_loud [OF assms(1), of "''AIC-L0001''" b]
    by (simp add: scan_punct_def Let_def)
  with assms(3) show ?thesis by simp
qed

section \<open>Strings\<close>

lemma escape_byte_iff: "escape_byte e = Some c \<longleftrightarrow> (e, c) \<in> set escapes"
  by (auto simp: escape_byte_def escapes_def)

lemma escape_byte_x: "escape_byte (CHR ''x'') = None"
  by (simp add: escape_byte_def)

lemma body_step:
  assumes "str_body t i e bs" and "t = lx_text s"
  shows "bs = [] \<and> string_step s st i False False acc = Inr (s, acc, e, True) \<or>
    (\<exists>c bs' i'. bs = c # bs' \<and> string_step s st i False False acc = Inl (s, i', False, False, acc @ [c]) \<and>
       str_body t i' e bs')"
  using assms(1)
proof (cases rule: str_body.cases)
  case close
  then show ?thesis using assms(2) by (simp add: string_step_def Let_def)
next
  case (plain bs')
  then show ?thesis using assms(2)
    by (intro disjI2 exI [of _ "t ! i"] exI [of _ bs'] exI [of _ "i + 1"]) (simp add: string_step_def Let_def)
next
  case (escape c bs')
  then show ?thesis using assms(2)
    by (intro disjI2 exI [of _ c] exI [of _ bs'] exI [of _ "i + 2"])
      (simp add: string_step_def Let_def escape_byte_iff [symmetric])
next
  case (hex bs')
  then show ?thesis using assms(2)
    by (intro disjI2 exI [of _ "char_of (hex_value (t ! (i + 2)) * 16 + hex_value (t ! (i + 3)))"] exI [of _ bs'] exI [of _ "i + 4"])
      (simp add: string_step_def Let_def escape_byte_x)
qed

lemma body_loop:
  "str_body (lx_text s) i e bs \<Longrightarrow> string_loop s st i False False acc = (s, acc @ bs, e, True)"
proof (induction bs arbitrary: i acc)
  case Nil
  from body_step [OF Nil refl, of st acc] show ?case by (subst string_loop.simps) auto
next
  case (Cons c bs)
  from body_step [OF Cons.prems refl, of st acc] obtain i' where
    "string_step s st i False False acc = Inl (s, i', False, False, acc @ [c])" "str_body (lx_text s) i' e bs"
    by auto
  with Cons.IH [of i' "acc @ [c]"] show ?case by (subst string_loop.simps) simp
qed

lemma string_step_quiet_Inr:
  assumes "\<not> lx_oom s" and "st < length (lx_text s)" and "string_step s st i False False acc = Inr (s', bs', e, ok)"
    and "quiet s s'"
  shows "s' = s \<and> bs' = acc \<and> ok \<and> str_body (lx_text s) i e []"
proof -
  have "\<not> quiet s (scan_add_record s ''AIC-L0001'' m st (length (lx_text s)))" for m
    using add_record_loud [OF assms(1), of "''AIC-L0001''" st "length (lx_text s)" m] assms(2) by simp
  then show ?thesis using assms(3,4)
    by (auto simp: string_step_def Let_def intro: str_body.close [simplified] split: if_split_asm option.split_asm)
qed

lemma string_step_quiet_Inl:
  assumes "\<not> lx_oom s" and "string_step s st i False False acc = Inl (s', i', iv', d', bs')" and "quiet s s'"
  shows "s' = s \<and> \<not> iv' \<and> \<not> d' \<and> (\<exists>c. bs' = acc @ [c] \<and> (\<forall>e bs. str_body (lx_text s) i' e bs \<longrightarrow> str_body (lx_text s) i e (c # bs)))"
proof -
  let ?t = "lx_text s"
  note b = string_step_Inl [OF assms(2)]
  have loud: "\<not> quiet s (scan_add_record s code m i e)" if "code \<in> lex_codes" "i < e" "e \<le> length ?t" for code m e
    using add_record_loud [OF assms(1) that] by simp
  have i: "i < length ?t" using b by simp
  have nq: "?t ! i \<noteq> QUOTE" using assms(2) i by (auto simp: string_step_def Let_def split: if_split_asm)
  have nl: "?t ! i \<noteq> LF" using assms(2,3) i nq loud [of "''AIC-L0007''" "i + 1"]
    by (auto simp: string_step_def Let_def split: if_split_asm)
  show ?thesis
  proof (cases "?t ! i = BSLASH")
    case False
    then show ?thesis using assms(2) i nq nl
      by (auto simp: string_step_def Let_def intro: str_body.plain [simplified])
  next
    case bs: True
    have i1: "i + 1 < length ?t" using assms(2) i bs nq nl by (auto simp: string_step_def Let_def split: if_split_asm)
    show ?thesis
    proof (cases "escape_byte (?t ! (i + 1))")
      case (Some c)
      then have "s' = s \<and> i' = i + 2 \<and> \<not> iv' \<and> \<not> d' \<and> bs' = acc @ [c]"
        using assms(2) i bs nq nl i1 by (auto simp: string_step_def Let_def)
      with str_body.escape [OF i1 bs] Some show ?thesis by (auto simp: escape_byte_iff)
    next
      case None
      let ?n = "length (takeWhile is_hex (take 2 (drop (i + 2) ?t)))"
      have "i + 2 + ?n \<le> length ?t" using hex_run_le [of "i + 2" ?t is_hex 2] i1 by simp
      then have "?t ! (i + 1) = CHR ''x'' \<and> i + 3 < length ?t \<and> is_hex (?t ! (i + 2)) \<and> is_hex (?t ! (i + 3))"
        using assms(2,3) None i bs nq nl i1 loud [of "''AIC-L0008''" "i + 2"] loud [of "''AIC-L0008''" "i + 2 + ?n"]
        by (auto simp: string_step_def Let_def split: if_split_asm)
      then show ?thesis using assms(2) None i bs nq nl i1
        by (auto simp: string_step_def Let_def intro: str_body.hex [simplified])
    qed
  qed
qed

lemma string_loop_sound:
  "\<not> lx_oom s \<Longrightarrow> st < length (lx_text s) \<Longrightarrow> \<not> iv \<Longrightarrow> \<not> d \<Longrightarrow> string_loop s st i iv d acc = (s', bs', e, ok) \<Longrightarrow> quiet s s' \<Longrightarrow>
    s' = s \<and> ok \<and> (\<exists>bs. bs' = acc @ bs \<and> str_body (lx_text s) i e bs)"
proof (induction s st i iv d acc rule: string_loop.induct)
  case (1 s st i iv d acc)
  show ?case
  proof (cases "string_step s st i iv d acc")
    case (Inr r)
    with "1.prems" string_step_quiet_Inr [of s st i acc s' bs' e ok] show ?thesis
      by (auto simp: string_loop.simps)
  next
    case (Inl x)
    obtain s1 i1 iv1 d1 bs1 where x: "x = (s1, i1, iv1, d1, bs1)" by (cases x)
    note st = Inl [unfolded x]
    have rep: "reports s s1" by (rule string_step_Inl_reports [OF "1.prems"(1) st])
    have o: "\<not> lx_oom s1" "st < length (lx_text s1)" using reportsD [OF rep] "1.prems"(1,2) by simp_all
    have rest: "string_loop s1 st i1 iv1 d1 bs1 = (s', bs', e, ok)"
      using "1.prems"(5) Inl x by (simp add: string_loop.simps [of s])
    have "reports s1 s'" using string_loop_reports [OF o rest] by simp
    with "1.prems"(6) reports_length [OF rep] have q: "quiet s s1" "quiet s1 s'"
      using reports_length [of s1 s'] by simp_all
    have ne: "\<not> iv" "\<not> d" using "1.prems" by simp_all
    from string_step_quiet_Inl [OF "1.prems"(1) _ q(1), of st i acc i1 iv1 d1 bs1] st ne
    obtain c where c: "s1 = s" "\<not> iv1" "\<not> d1" "bs1 = acc @ [c]"
      "\<And>e bs. str_body (lx_text s) i1 e bs \<Longrightarrow> str_body (lx_text s) i e (c # bs)" by auto
    from "1.IH" [OF st refl refl refl refl o c(2,3) rest q(2)] c show ?thesis by auto
  qed
qed

lemma quote_no_trivia: "t ! p = QUOTE \<Longrightarrow> no_trivia_at t p"
  by (simp add: no_trivia_at_def is_space_def starts_at_2)

lemma scan_one_body:
  "str_body (lx_text s) (b + 1) e bs \<Longrightarrow> scan_string_one s b = (s, bs, e, True)"
  using body_loop [of s "b + 1" e bs b "[]"] by (simp add: scan_string_one_def)

text \<open>Behind a string come trivia and then something that is not a quote.\<close>

definition string_ends :: "string \<Rightarrow> nat \<Rightarrow> bool" where
  "string_ends t e \<longleftrightarrow> (\<exists>j. trivia t e j \<and> no_trivia_at t j \<and> (length t \<le> j \<or> t ! j \<noteq> QUOTE))"

lemma more_ends: "string_ends (lx_text s) e \<Longrightarrow> string_more s e acc = (s, Inr (acc, e))"
  unfolding string_ends_def
  by (elim exE conjE) (subst string_more.simps, auto simp: skip_trivia_grammar)

lemma more_grammar:
  assumes "str_at t p e bs" and "string_ends t e" and "t = lx_text s" and "trivia t k p"
  shows "string_more s k acc = (s, Inr (acc @ bs, e))"
  using assms
proof (induction arbitrary: k acc rule: str_at.induct)
  case (last b e bs)
  have "skip_trivia s k = (s, b)" using last quote_no_trivia by (intro skip_trivia_grammar) auto
  with last scan_one_body [of s b e bs] more_ends [of s e "acc @ bs"] show ?case
    by (subst string_more.simps) simp
next
  case (more b k' bs p e bs')
  have "skip_trivia s k = (s, b)" using more quote_no_trivia by (intro skip_trivia_grammar) auto
  with more scan_one_body [of s b k' bs] more.IH [OF more.prems(1,2) more.hyps(4), of "acc @ bs"] show ?case
    by (subst string_more.simps) simp
qed

lemma string_emits:
  assumes "str_at (lx_text s) b e bs" and "utf8_text bs" and "string_ends (lx_text s) e"
  shows "emits_at s b e (V_STR bs)"
proof -
  have "scan_string s b = (scan_emit s (make_token (V_STR bs) (lx_src s) b e), e)"
    using assms(1)
  proof (cases rule: str_at.cases)
    case last
    with scan_one_body [of s b e bs] more_ends [OF assms(3), of bs] assms(2) lex_utf8.valid_iff [of bs]
    show ?thesis by (simp add: scan_string_def)
  next
    case (more k bs1 p bs2)
    with scan_one_body [of s b k bs1] more_grammar [OF more(6) assms(3) refl more(5), of bs1] assms(2)
      lex_utf8.valid_iff [of bs]
    show ?thesis by (simp add: scan_string_def)
  qed
  moreover have "lx_text s ! b = QUOTE" using assms(1) by (cases rule: str_at.cases) auto
  ultimately show ?thesis
    by (simp add: emits_at_def scan_one_def is_ident_start_def is_digit_def in_range_def)
qed

lemma no_quote_follows:
  assumes "trivia t e p" and "no_trivia_at t p" and "length t \<le> p \<or> t ! p \<noteq> QUOTE"
  shows "\<not> quote_follows t e"
proof
  assume "quote_follows t e"
  then obtain q where q: "trivia t e q" "q < length t" "t ! q = QUOTE" by (auto simp: quote_follows_def)
  let ?s = "lex_start \<lparr>src_file = [], src_text = t, src_line_starts = []\<rparr>"
  have "lx_text ?s = t" by (simp add: lex_start_def)
  with skip_trivia_grammar [of ?s e p] skip_trivia_grammar [of ?s e q] assms q quote_no_trivia [OF q(3)]
  show False by auto
qed

lemma scan_string_one_sound:
  assumes "\<not> lx_oom s" and "b < length (lx_text s)" and "scan_string_one s b = (s', bs, e, ok)" and "quiet s s'"
  shows "s' = s \<and> ok \<and> str_body (lx_text s) (b + 1) e bs"
  using string_loop_sound [of s b False False "b + 1" "[]" s' bs e ok] assms by (simp add: scan_string_one_def)

lemma scan_string_one_reports:
  "\<not> lx_oom s \<Longrightarrow> b < length (lx_text s) \<Longrightarrow> scan_string_one s b = (s', bs, e, ok) \<Longrightarrow> reports s s'"
  using string_loop_reports [of s b "b + 1" False False "[]" s' bs e ok] by (simp add: scan_string_one_def)

lemma string_more_sound:
  "\<not> lx_oom s \<Longrightarrow> string_more s k acc = (s', r) \<Longrightarrow> 0 < k \<Longrightarrow> k \<le> length (lx_text s) \<Longrightarrow> lx_text s ! (k - 1) = QUOTE \<Longrightarrow>
    quiet s s' \<Longrightarrow>
    s' = s \<and> (\<exists>bs e. r = Inr (acc @ bs, e) \<and>
      (bs = [] \<and> e = k \<and> \<not> quote_follows (lx_text s) k \<or> (\<exists>p. trivia (lx_text s) k p \<and> str_at (lx_text s) p e bs)))"
proof (induction s k acc rule: string_more.induct)
  case (1 s k acc)
  let ?t = "lx_text s"
  obtain s1 p where st: "skip_trivia s k = (s1, p)" by (cases "skip_trivia s k")
  have rep: "reports s s'" using string_more_reports [OF "1.prems"(1-5)] by simp
  have rep1: "reports s s1" by (rule skip_trivia_reports [OF "1.prems"(1) st])
  note rd1 = reportsD [OF rep1]
  show ?case
  proof (cases "length (lx_text s1) \<le> p \<or> lx_text s1 ! p \<noteq> QUOTE")
    case True
    then have "s1 = s'" "r = Inr (acc, k)" using "1.prems"(2) st by (subst (asm) string_more.simps, auto)+
    with skip_trivia_sound [OF "1.prems"(1) st] "1.prems"(6) True no_quote_follows [of ?t k p] show ?thesis by auto
  next
    case False
    obtain s2 cb e2 ok where one: "scan_string_one s1 p = (s2, cb, e2, ok)" by (cases "scan_string_one s1 p")
    have p: "p < length (lx_text s1)" using False by simp
    have o1: "\<not> lx_oom s1" using rd1 "1.prems"(1) by simp
    have rep2: "reports s1 s2" by (rule scan_string_one_reports [OF o1 p one])
    have f: "p < e2" "e2 \<le> length ?t" using scan_string_one_facts [OF one p] rd1 by simp_all
    have last: "ok \<Longrightarrow> lx_text s2 ! (e2 - 1) = QUOTE"
      using string_loop_reports [of s1 p "p + 1" False False "[]" s2 cb e2 ok] one o1 p reportsD [OF rep2]
      by (simp add: scan_string_one_def)
    have o2: "\<not> lx_oom s2" using reportsD [OF rep2] o1 by simp
    have rest: "(if \<not> ok then (s2, Inl e2) else string_more s2 e2 (acc @ cb)) = (s', r)"
      using "1.prems"(2) st False one by (subst (asm) string_more.simps) simp
    have "length (lx_records s2) \<le> length (lx_records s')"
    proof (cases ok)
      case True
      with rest have "string_more s2 e2 (acc @ cb) = (s', r)" by simp
      with string_more_reports [OF o2 this] f last True reportsD [OF rep2] rd1 show ?thesis
        by (auto dest: reports_length)
    qed (use rest in simp)
    with "1.prems"(6) reports_length [OF rep1] reports_length [OF rep2]
    have q: "quiet s s1" "quiet s1 s2" "quiet s2 s'" by simp_all
    note tr = skip_trivia_sound [OF "1.prems"(1) st q(1)]
    note bd = scan_string_one_sound [OF o1 p one q(2)]
    have eq: "s1 = s" "s2 = s" "ok" using tr bd by simp_all
    have run: "string_more s e2 (acc @ cb) = (s', r)" using rest eq by simp
    have "0 < e2" "lx_text s ! (e2 - 1) = QUOTE" using f last eq by simp_all
    from "1.IH" [OF st [symmetric] False one [symmetric] refl refl _ _ _ _ _ _ _] eq run this f "1.prems"(1) q
    have ih: "s' = s \<and> (\<exists>bs e. r = Inr ((acc @ cb) @ bs, e) \<and>
      (bs = [] \<and> e = e2 \<and> \<not> quote_follows ?t e2 \<or> (\<exists>p. trivia ?t e2 p \<and> str_at ?t p e bs)))"
      by simp
    then obtain bs e where r: "r = Inr (acc @ cb @ bs, e)"
      and c: "bs = [] \<and> e = e2 \<and> \<not> quote_follows ?t e2 \<or> (\<exists>p. trivia ?t e2 p \<and> str_at ?t p e bs)" by auto
    have b: "p < length ?t" "?t ! p = QUOTE" "str_body ?t (p + 1) e2 cb" using False bd eq by simp_all
    from c have "str_at ?t p e (cb @ bs)"
      using str_at.last [OF b(1,2)] str_at.more [OF b(1-3)] b(3) by auto
    with r tr ih eq show ?thesis by auto
  qed
qed

lemma string_sound:
  assumes "\<not> lx_oom s" and "b < length (lx_text s)" and "lx_text s ! b = QUOTE" and "scan_string s b = (s', e)" and "quiet s s'"
  shows "\<exists>bs. s' = scan_emit s (make_token (V_STR bs) (lx_src s) b e) \<and> token_at (lx_text s) b e neg (V_STR bs)"
proof -
  let ?t = "lx_text s"
  obtain s1 b1 e1 ok where one: "scan_string_one s b = (s1, b1, e1, ok)" by (cases "scan_string_one s b")
  have rep1: "reports s s1" by (rule scan_string_one_reports [OF assms(1,2) one])
  note f = scan_string_one_facts [OF one assms(2)] and rd1 = reportsD [OF rep1]
  have last: "ok \<Longrightarrow> ?t ! (e1 - 1) = QUOTE"
    using string_loop_reports [of s b "b + 1" False False "[]" s1 b1 e1 ok] one assms(1,2)
    by (simp add: scan_string_one_def)
  obtain s2 r where more: "string_more s1 e1 b1 = (s2, r)" by (cases "string_more s1 e1 b1")
  have o1: "\<not> lx_oom s1" using rd1 assms(1) by simp
  have rep2: "ok \<Longrightarrow> reports s1 s2" using string_more_reports [OF o1 more] f last rd1 by simp
  have q: "quiet s s1" "ok \<Longrightarrow> quiet s1 s2"
  proof -
    have l: "ok \<Longrightarrow> length (lx_records s2) \<le> length (lx_records s')"
    proof -
      assume ok: ok
      have o2: "\<not> lx_oom s2" using reportsD [OF rep2 [OF ok]] o1 by simp
      show ?thesis
      proof (cases r)
        case (Inl p)
        with assms(4) one more ok show ?thesis by (auto simp: scan_string_def)
      next
        case (Inr x)
        obtain bytes e' where x: "x = (bytes, e')" by (cases x)
        have "e1 \<le> e'" "e' \<le> length (lx_text s2)"
          using string_more_facts [OF more] f rd1 reportsD [OF rep2 [OF ok]] Inr x by auto
        then have "reports s2 (scan_add_record s2 ''AIC-L0009''
            ''string literal bytes not valid UTF-8 after escape expansion'' b e')"
          using o2 f by (intro reports_add) auto
        from reports_length [OF this] assms(4) one more ok Inr x show ?thesis
          by (auto simp: scan_string_def scan_emit_def split: if_split_asm)
      qed
    qed
    have "\<not> ok \<Longrightarrow> s' = s1" using assms(4) one by (auto simp: scan_string_def)
    with l rep2 reports_length [OF rep1] assms(5) show "quiet s s1" "ok \<Longrightarrow> quiet s1 s2"
      by (cases ok; force dest: reports_length)+
  qed
  note bd = scan_string_one_sound [OF assms(1,2) one q(1)]
  have eq: "s1 = s" ok using bd by simp_all
  have "0 < e1" using f by simp
  from string_more_sound [OF o1 more this _ _ q(2) [OF eq(2)]] f last [OF eq(2)] eq(1)
  obtain bs e' where m: "s2 = s" "r = Inr (b1 @ bs, e')"
    "bs = [] \<and> e' = e1 \<and> \<not> quote_follows ?t e1 \<or> (\<exists>p. trivia ?t e1 p \<and> str_at ?t p e' bs)" by auto
  have b: "str_body ?t (b + 1) e1 b1" using bd by simp
  from m(3) have at: "str_at ?t b e' (b1 @ bs)"
    using str_at.last [OF assms(2,3)] str_at.more [OF assms(2,3) b] b by auto
  have "e1 \<le> e'" "e' \<le> length ?t" using string_more_facts [OF more] f m(2) eq(1) by auto
  then have "\<not> quiet s (scan_add_record s ''AIC-L0009''
      ''string literal bytes not valid UTF-8 after escape expansion'' b e')"
    using add_record_loud [OF assms(1), of "''AIC-L0009''" b e'] f by simp
  with assms(4,5) one more eq m(1,2) have "utf8_valid (b1 @ bs)" "e = e'"
    "s' = scan_emit s (make_token (V_STR (b1 @ bs)) (lx_src s) b e')"
    by (auto simp: scan_string_def split: if_split_asm)
  with at lex_utf8.valid_iff [of "b1 @ bs"] show ?thesis by auto
qed

section \<open>Integers\<close>

lemma radix_prefix: "radix_at t b base ds \<longleftrightarrow> int_prefix t b = (base, ds)"
  by (auto simp: radix_at_def int_prefix_def starts_at_2 Let_def)

definition base_run :: "string \<Rightarrow> nat \<Rightarrow> nat \<Rightarrow> nat" where
  "base_run t base ds = scan_while (\<lambda>c. is_base_digit c base \<or> c = CHR ''_'') t ds"

lemma underscore_no_digit: "\<not> is_base_digit (CHR ''_'') base"
  by (simp add: is_base_digit_def is_hex_def is_digit_def in_range_def)

lemma digits_at_run:
  "digits_at t base ds de \<longleftrightarrow>
     ds < de \<and> de = base_run t base ds \<and> de \<le> length t \<and> \<not> underscore_error t base ds de"
proof
  assume d: "digits_at t base ds de"
  then have "base_run t base ds = de"
    unfolding base_run_def digits_at_def by (intro scan_while_stop) auto
  moreover have "ds < k \<and> is_base_digit (t ! (k - 1)) base \<and> k + 1 < de \<and> is_base_digit (t ! (k + 1)) base"
    if "ds \<le> k" "k < de" "t ! k = CHR ''_''" for k
    using d that underscore_no_digit unfolding digits_at_def by metis
  then have "\<not> underscore_error t base ds de" unfolding underscore_error_def list_ex_iff set_upt by auto
  ultimately show "ds < de \<and> de = base_run t base ds \<and> de \<le> length t \<and> \<not> underscore_error t base ds de"
    using d by (auto simp: digits_at_def)
next
  let ?P = "\<lambda>c. is_base_digit c base \<or> c = CHR ''_''"
  assume d: "ds < de \<and> de = base_run t base ds \<and> de \<le> length t \<and> \<not> underscore_error t base ds de"
  have run: "?P (t ! k)" if "ds \<le> k" "k < de" for k
    using scan_while_run [of ds k ?P t] that d by (simp add: base_run_def)
  have stop: "de < length t \<Longrightarrow> \<not> ?P (t ! de)"
    using scan_while_end [of ?P t ds] d by (simp add: base_run_def)
  have "\<not> (t ! k = CHR ''_'' \<and> \<not> (ds < k \<and> is_base_digit (t ! (k - 1)) base \<and> k + 1 < de \<and> is_base_digit (t ! (k + 1)) base))"
    if "ds \<le> k" "k < de" for k
    using d that unfolding underscore_error_def list_ex_iff set_upt by (metis atLeastLessThan_iff)
  with run stop d show "digits_at t base ds de" unfolding digits_at_def by blast
qed

text \<open>The suffix behind the digits, as the scanner looks for it.\<close>

definition scan_suffix :: "string \<Rightarrow> nat \<Rightarrow> int_suffix option" where
  "scan_suffix t de =
     (if de < length t \<and> (t ! de = CHR ''i'' \<or> t ! de = CHR ''u'') then match_suffix t de else None)"

lemma suffix_names: "sx \<in> set kSuffixes \<Longrightarrow>
    list_all is_ident_cont (sfx_name sx) \<and> (\<exists>c w. sfx_name sx = c # w \<and> (c = CHR ''i'' \<or> c = CHR ''u''))"
  by (simp add: kSuffixes_def int_sfx_def, elim disjE)
    (simp_all add: is_ident_cont_def is_ident_start_def is_digit_def in_range_def)

lemma suffix_name_inj: "sx \<in> set kSuffixes \<Longrightarrow> sx' \<in> set kSuffixes \<Longrightarrow> sfx_name sx = sfx_name sx' \<Longrightarrow> sx = sx'"
proof -
  have "inj_on sfx_name (set kSuffixes)" by (simp add: kSuffixes_def int_sfx_def)
  then show "sx \<in> set kSuffixes \<Longrightarrow> sx' \<in> set kSuffixes \<Longrightarrow> sfx_name sx = sfx_name sx' \<Longrightarrow> sx = sx'"
    by (auto dest: inj_onD)
qed

lemma starts_at_nth: "starts_at t i w \<Longrightarrow> k < length w \<Longrightarrow> t ! (i + k) = w ! k"
proof -
  assume s: "starts_at t i w" and k: "k < length w"
  then have w: "take (length w) (drop i t) = w" "i + length w \<le> length t" by (simp_all add: starts_at_def)
  from w(2) k have "take (length w) (drop i t) ! k = t ! (i + k)" by simp
  then show "t ! (i + k) = w ! k" unfolding w(1) by simp
qed

lemma suffix_unique:
  assumes "suffix_at t i sx" and "suffix_at t i sx'"
  shows "sx = sx'"
proof -
  have le: "length (sfx_name y) \<le> length (sfx_name x)" if "suffix_at t i x" "suffix_at t i y" for x y
  proof (rule ccontr)
    assume "\<not> length (sfx_name y) \<le> length (sfx_name x)"
    then have l: "length (sfx_name x) < length (sfx_name y)" by simp
    have "is_ident_cont (sfx_name y ! length (sfx_name x))"
      using suffix_names [of y] that(2) l by (auto simp: suffix_at_def list_all_length)
    moreover have "t ! (i + length (sfx_name x)) = sfx_name y ! length (sfx_name x)"
      using that(2) l by (intro starts_at_nth) (simp_all add: suffix_at_def)
    moreover have "i + length (sfx_name x) < length t" using that(2) l by (simp add: suffix_at_def starts_at_def)
    ultimately show False using that(1) by (simp add: suffix_at_def)
  qed
  have "length (sfx_name sx) = length (sfx_name sx')" using le [OF assms] le [OF assms(2,1)] by simp
  then have "sfx_name sx = sfx_name sx'" using assms by (simp add: suffix_at_def starts_at_def)
  with assms suffix_name_inj show ?thesis by (simp add: suffix_at_def)
qed

lemma match_suffix_at: "match_suffix t i = find (suffix_at t i) kSuffixes"
proof -
  have "find P xs = find (\<lambda>x. x \<in> set xs \<and> P x) xs" for P and xs :: "int_suffix list"
    by (rule find_cong) simp_all
  from this [of _ kSuffixes] show ?thesis
    by (simp add: match_suffix_def suffix_at_def [abs_def] starts_at_def Let_def conj_assoc)
qed

lemma scan_suffix_iff: "scan_suffix t de = Some sx \<longleftrightarrow> suffix_at t de sx"
proof
  assume "scan_suffix t de = Some sx"
  then show "suffix_at t de sx"
    by (auto simp: scan_suffix_def match_suffix_at dest: find_SomeD split: if_split_asm)
next
  assume s: "suffix_at t de sx"
  then have "sx \<in> set kSuffixes" by (simp add: suffix_at_def)
  then obtain sx' where f: "find (suffix_at t de) kSuffixes = Some sx'"
    using s by (cases "find (suffix_at t de) kSuffixes") (auto simp: find_None_iff)
  then have "sx' = sx" using suffix_unique [OF _ s] find_SomeD by metis
  moreover obtain c w where n: "sfx_name sx = c # w" "c = CHR ''i'' \<or> c = CHR ''u''"
    using suffix_names [of sx] s by (auto simp: suffix_at_def)
  moreover have "t ! de = c" "de < length t"
    using starts_at_nth [of t de "sfx_name sx" 0] s n by (simp_all add: suffix_at_def starts_at_def)
  ultimately show "scan_suffix t de = Some sx" using f by (simp add: scan_suffix_def match_suffix_at)
qed

lemma scan_suffix_None: "scan_suffix t de = None \<longleftrightarrow> (\<forall>sx. \<not> suffix_at t de sx)"
  using scan_suffix_iff [of t de] by (cases "scan_suffix t de") auto

lemma scan_integer_eq:
  assumes "int_prefix (lx_text s) b = (base, ds)"
  shows "scan_integer s b =
     (let t = lx_text s; de = base_run t base ds; value = int_value base (slice t ds de) 0 in
      if \<not> list_ex (\<lambda>k. t ! k \<noteq> CHR ''_'') [ds..<de] then
        (scan_add_record s ''AIC-L0001'' ''malformed integer literal'' b de, de)
      else if base = 10 \<and> t ! b = CHR ''0'' \<and> 1 < de - ds then
        (scan_add_record s ''AIC-L0001'' ''malformed integer literal'' b de, de)
      else
        (let i = de + (case scan_suffix t de of None \<Rightarrow> 0 | Some x \<Rightarrow> length (sfx_name x)) in
         if underscore_error t base ds de then
           (scan_add_record s ''AIC-L0005'' (''misplaced '' @ [CHR 0x27, CHR ''_'', CHR 0x27] @ '' in integer literal'') b i, i)
         else (case scan_suffix t de of
                 None \<Rightarrow> (emit_unsuffixed s b de i value, i)
               | Some x \<Rightarrow> (emit_suffixed s b de i x value, i))))"
  unfolding scan_integer_def Let_def assms prod.case base_run_def [symmetric] scan_suffix_def [symmetric] ..

text \<open>The range of a suffix, as the scanner tests it.\<close>

lemma suffix_range:
  assumes "sx \<in> set kSuffixes"
  shows "(v \<le> U64_MAX \<and> (if sfx_signed sx then signed_magnitude_fits sx v um else unsigned_magnitude_fits sx v)) \<longleftrightarrow>
    (sfx_signed sx \<and> um \<and> v = 2 ^ (sfx_width sx - 1) \<or> v < 2 ^ (if sfx_signed sx then sfx_width sx - 1 else sfx_width sx))"
  using kSuffixes_cases [OF assms]
  by (elim disjE; cases um; cases "sfx_signed sx";
      simp add: signed_magnitude_fits_def unsigned_magnitude_fits_def; linarith?)

lemma suffix_min:
  assumes "sx \<in> set kSuffixes"
  shows "(if 64 \<le> sfx_width sx then v = 9223372036854775808 else v = 2 ^ (sfx_width sx - 1)) \<longleftrightarrow> (v::nat) = 2 ^ (sfx_width sx - 1)"
  using kSuffixes_cases [OF assms] by auto

lemma int_emits:
  assumes "int_at (lx_text s) b e (lx_prev_minus_unary s) ty v is_min"
  shows "emits_at s b e (V_INT ty v is_min)"
proof -
  let ?t = "lx_text s"
  obtain base ds de where b: "b < length ?t" "is_digit (?t ! b)" and r: "int_prefix ?t b = (base, ds)"
    and d: "ds < de" "de = base_run ?t base ds" "de \<le> length ?t" "\<not> underscore_error ?t base ds de" "digits_at ?t base ds de"
    and z: "base = 10 \<and> ?t ! b = CHR ''0'' \<longrightarrow> de = b + 1" and v: "v = digits_num base (slice ?t ds de)"
    and c: "(\<forall>sx. \<not> suffix_at ?t de sx) \<and> e = de \<and> \<not> is_min \<and>
           (v < 2 ^ 31 \<and> ty = LEX_INT_I32 \<or> 2 ^ 31 \<le> v \<and> v < 2 ^ 63 \<and> ty = LEX_INT_I64 \<or>
            2 ^ 63 \<le> v \<and> v < 2 ^ 64 \<and> ty = LEX_INT_U64) \<or>
         (\<exists>sx. suffix_at ?t de sx \<and> e = de + length (sfx_name sx) \<and> ty = sfx_type sx \<and>
            (is_min \<longleftrightarrow> sfx_signed sx \<and> lx_prev_minus_unary s \<and> v = 2 ^ (sfx_width sx - 1)) \<and>
            (is_min \<or> v < 2 ^ (if sfx_signed sx then sfx_width sx - 1 else sfx_width sx)))"
    using assms unfolding int_at_def radix_prefix using digits_at_run by blast
  have "is_base_digit (?t ! ds) base" using d(1,5) by (auto simp: digits_at_def)
  then have first: "list_ex (\<lambda>k. ?t ! k \<noteq> CHR ''_'') [ds..<de]"
    using d(1) underscore_no_digit by (auto simp: list_ex_iff intro!: bexI [of _ ds])
  have base: "1 \<le> base" "base = 10 \<longrightarrow> ds = b" using r by (auto simp: int_prefix_def Let_def split: if_split_asm)
  have nz: "\<not> (base = 10 \<and> ?t ! b = CHR ''0'' \<and> 1 < de - ds)" using z base by auto
  have run: "scan_integer s b =
      (let i = de + (case scan_suffix ?t de of None \<Rightarrow> 0 | Some x \<Rightarrow> length (sfx_name x)); value = int_value base (slice ?t ds de) 0 in
       case scan_suffix ?t de of None \<Rightarrow> (emit_unsuffixed s b de i value, i) | Some x \<Rightarrow> (emit_suffixed s b de i x value, i))"
    unfolding scan_integer_eq [OF r] Let_def d(2) [symmetric] by (simp only: first nz d(4) simp_thms if_False if_True)
  have val: "int_value base (slice ?t ds de) 0 = (if v \<le> U64_MAX then Some v else None)"
    unfolding v by (rule int_value_spec [OF base(1)])
  have "scan_integer s b = (scan_emit s (make_token (V_INT ty v is_min) (lx_src s) b e), e)"
    using c
  proof (elim disjE [of "_ \<and> _ \<and> _ \<and> _"])
    assume "\<exists>sx. suffix_at ?t de sx \<and> e = de + length (sfx_name sx) \<and> ty = sfx_type sx \<and>
            (is_min \<longleftrightarrow> sfx_signed sx \<and> lx_prev_minus_unary s \<and> v = 2 ^ (sfx_width sx - 1)) \<and>
            (is_min \<or> v < 2 ^ (if sfx_signed sx then sfx_width sx - 1 else sfx_width sx))"
    then obtain sx where sx: "suffix_at ?t de sx" "e = de + length (sfx_name sx)" "ty = sfx_type sx"
      and m: "is_min \<longleftrightarrow> sfx_signed sx \<and> lx_prev_minus_unary s \<and> v = 2 ^ (sfx_width sx - 1)"
      and f: "is_min \<or> v < 2 ^ (if sfx_signed sx then sfx_width sx - 1 else sfx_width sx)" by blast
    have mem: "sx \<in> set kSuffixes" using sx(1) by (simp add: suffix_at_def)
    have "scan_suffix ?t de = Some sx" using sx(1) scan_suffix_iff by simp
    moreover have "v \<le> U64_MAX \<and> (if sfx_signed sx then signed_magnitude_fits sx v (lx_prev_minus_unary s) else unsigned_magnitude_fits sx v)"
      unfolding suffix_range [OF mem] using m f by auto
    ultimately show ?thesis
      unfolding run val using sx(2,3) m suffix_min [OF mem, of v] by (simp add: emit_suffixed_def Let_def)
  qed (use run val scan_suffix_None [of ?t de] in \<open>auto simp: emit_unsuffixed_def Let_def\<close>)
  with b show ?thesis
    using char_classes(2) [of "?t ! b"] char_classes(4) [of "?t ! b"]
    by (simp add: emits_at_def scan_one_def Let_def)
qed

lemma int_sound:
  assumes "\<not> lx_oom s" and "b < length (lx_text s)" and "is_digit (lx_text s ! b)" and "scan_integer s b = (s', e)"
    and "quiet s s'"
  shows "\<exists>v. s' = scan_emit s (make_token v (lx_src s) b e) \<and> token_at (lx_text s) b e (lx_prev_minus_unary s) v"
proof -
  let ?t = "lx_text s"
  obtain base ds where r: "int_prefix ?t b = (base, ds)" by (cases "int_prefix ?t b")
  define de where "de = base_run ?t base ds"
  note pb = int_prefix_bounds [OF r assms(2)]
  have base: "1 \<le> base" "base = 10 \<longrightarrow> ds = b" using r by (auto simp: int_prefix_def Let_def split: if_split_asm)
  have de: "ds \<le> de" "de \<le> length ?t" using pb by (simp_all add: de_def base_run_def scan_while_ge scan_while_le)
  have gt: "b < de"
  proof (cases "base = 10")
    case True
    then show ?thesis using pb assms by (simp add: de_def base_run_def scan_while_gt is_base_digit_def)
  next
    case False
    then have "b < ds" using r by (auto simp: int_prefix_def Let_def split: if_split_asm)
    with de show ?thesis by simp
  qed
  have loud: "\<not> quiet s (scan_add_record s code m b i)" if "code \<in> lex_codes" "b < i" "i \<le> length ?t" for code m i
    using add_record_loud [OF assms(1) that] by simp
  have first: "list_ex (\<lambda>k. ?t ! k \<noteq> CHR ''_'') [ds..<de]"
  proof (rule ccontr)
    assume "\<not> ?thesis"
    then have "s' = scan_add_record s ''AIC-L0001'' ''malformed integer literal'' b de"
      using assms(4) unfolding scan_integer_eq [OF r] Let_def de_def [symmetric] by auto
    with loud [of "''AIC-L0001''" de] gt de(2) assms(5) show False by simp
  qed
  have nz: "\<not> (base = 10 \<and> ?t ! b = CHR ''0'' \<and> 1 < de - ds)"
  proof
    assume "base = 10 \<and> ?t ! b = CHR ''0'' \<and> 1 < de - ds"
    then have "s' = scan_add_record s ''AIC-L0001'' ''malformed integer literal'' b de"
      using assms(4) first unfolding scan_integer_eq [OF r] Let_def de_def [symmetric] by auto
    with loud [of "''AIC-L0001''" de] gt de(2) assms(5) show False by simp
  qed
  define i where "i = de + (case scan_suffix ?t de of None \<Rightarrow> 0 | Some x \<Rightarrow> length (sfx_name x))"
  have i: "b < i" "i \<le> length ?t"
    using gt de(2) scan_suffix_iff [of ?t de] by (auto simp: i_def suffix_at_def starts_at_def split: option.split)
  have under: "\<not> underscore_error ?t base ds de"
  proof
    assume "underscore_error ?t base ds de"
    then have "s' = scan_add_record s ''AIC-L0005'' (''misplaced '' @ [CHR 0x27, CHR ''_'', CHR 0x27] @ '' in integer literal'') b i"
      using assms(4) unfolding scan_integer_eq [OF r] Let_def de_def [symmetric] i_def [symmetric]
      by (simp only: first nz simp_thms if_False if_True) auto
    with loud [of "''AIC-L0005''" i] i assms(5) show False by simp
  qed
  define v where "v = digits_num base (slice ?t ds de)"
  have val: "int_value base (slice ?t ds de) 0 = (if v \<le> U64_MAX then Some v else None)"
    unfolding v_def by (rule int_value_spec [OF base(1)])
  have run: "(case scan_suffix ?t de of None \<Rightarrow> (emit_unsuffixed s b de i (if v \<le> U64_MAX then Some v else None), i)
      | Some x \<Rightarrow> (emit_suffixed s b de i x (if v \<le> U64_MAX then Some v else None), i)) = (s', e)"
    using assms(4) unfolding scan_integer_eq [OF r] Let_def de_def [symmetric] i_def [symmetric] val
    by (simp only: first nz under simp_thms if_False if_True)
  have e: "e = i" using run by (auto split: option.splits)
  have "ds < de" using first by (auto simp: list_ex_iff)
  then have dig: "radix_at ?t b base ds" "digits_at ?t base ds de" "base = 10 \<and> ?t ! b = CHR ''0'' \<longrightarrow> de = b + 1"
    using r de under nz base gt unfolding digits_at_run radix_prefix by (auto simp: de_def)
  show ?thesis
  proof (cases "scan_suffix ?t de")
    case None
    have small: "v \<le> U64_MAX"
      using run None assms(5) loud [of "''AIC-L0006''" i] i by (auto simp: emit_unsuffixed_def split: if_split_asm)
    let ?ty = "if v \<le> 2147483647 then LEX_INT_I32 else if v \<le> 9223372036854775807 then LEX_INT_I64 else LEX_INT_U64"
    have s': "s' = scan_emit s (make_token (V_INT ?ty v False) (lx_src s) b i)"
      using run None small by (auto simp: emit_unsuffixed_def Let_def)
    have "i = de" using None by (simp add: i_def)
    moreover have "v < 2 ^ 31 \<and> ?ty = LEX_INT_I32 \<or> 2 ^ 31 \<le> v \<and> v < 2 ^ 63 \<and> ?ty = LEX_INT_I64 \<or>
        2 ^ 63 \<le> v \<and> v < 2 ^ 64 \<and> ?ty = LEX_INT_U64" using small by auto
    ultimately have "int_at ?t b i (lx_prev_minus_unary s) ?ty v False"
      using assms(2,3) dig None scan_suffix_None [of ?t de] unfolding int_at_def v_def by blast
    with s' e show ?thesis by (intro exI [of _ "V_INT ?ty v False"]) simp
  next
    case (Some sx)
    then have sx: "suffix_at ?t de sx" using scan_suffix_iff by simp
    then have mem: "sx \<in> set kSuffixes" by (simp add: suffix_at_def)
    let ?um = "lx_prev_minus_unary s"
    let ?m = "sfx_signed sx \<and> ?um \<and> v = 2 ^ (sfx_width sx - 1)"
    have fits: "v \<le> U64_MAX \<and> (if sfx_signed sx then signed_magnitude_fits sx v ?um else unsigned_magnitude_fits sx v)"
      using run Some assms(5) loud [of "''AIC-L0006''" i] i
      by (auto simp: emit_suffixed_def Let_def split: if_split_asm)
    have "s' = scan_emit s (make_token (V_INT (sfx_type sx) v (sfx_signed sx \<and> ?um \<and>
        (if 64 \<le> sfx_width sx then v = 9223372036854775808 else v = 2 ^ (sfx_width sx - 1)))) (lx_src s) b i)"
      using run Some fits by (auto simp: emit_suffixed_def Let_def)
    then have s': "s' = scan_emit s (make_token (V_INT (sfx_type sx) v ?m) (lx_src s) b i)"
      unfolding suffix_min [OF mem] .
    have "i = de + length (sfx_name sx)" using Some by (simp add: i_def)
    with assms(2,3) dig sx fits [unfolded suffix_range [OF mem]] have "int_at ?t b i ?um (sfx_type sx) v ?m"
      unfolding int_at_def v_def by blast
    with s' e show ?thesis by (intro exI [of _ "V_INT (sfx_type sx) v ?m"]) simp
  qed
qed

section \<open>One token\<close>

lemma token_emits:
  assumes "token_at (lx_text s) b e (lx_prev_minus_unary s) v" and "b < length (lx_text s)"
    and "\<And>bs. v = V_STR bs \<Longrightarrow> string_ends (lx_text s) e"
  shows "emits_at s b e v"
proof (cases v)
  case (V_IDENT n)
  with assms(1) show ?thesis by (intro word_emits [OF _ assms(1)]) auto
next
  case (V_KEYWORD k)
  with assms(1) show ?thesis by (intro word_emits [OF _ assms(1)]) auto
next
  case (V_PUNCT p)
  from punct_emits [OF _ assms(1) [unfolded V_PUNCT]] assms(2) V_PUNCT show ?thesis by simp
next
  case (V_INT ty n m)
  with assms(1) show ?thesis by (simp add: int_emits)
next
  case (V_STR bs)
  with assms(1) assms(3) [OF V_STR] show ?thesis by (simp add: string_emits)
qed (use assms in simp)

lemma token_sound:
  assumes "\<not> lx_oom s" and "b < length (lx_text s)" and "scan_one s b = (s', e)" and "quiet s s'"
  shows "\<exists>v. s' = scan_emit s (make_token v (lx_src s) b e) \<and> token_at (lx_text s) b e (lx_prev_minus_unary s) v"
proof -
  let ?t = "lx_text s"
  consider "is_ident_start (?t ! b)" "scan_ident s b = (s', e)" | "is_digit (?t ! b)" "scan_integer s b = (s', e)"
    | "?t ! b = QUOTE" "scan_string s b = (s', e)" | "scan_punct s b = (s', e)"
    using assms(3) by (auto simp: scan_one_def Let_def split: if_split_asm)
  then show ?thesis
  proof cases
    case 1
    from word_at_scan [OF assms(2) 1(1)] have w: "word_at ?t b (scan_while is_ident_cont ?t b)" .
    let ?w = "slice ?t b e"
    let ?v = "if find_keyword ?w \<noteq> KW_NONE then V_KEYWORD (find_keyword ?w) else V_IDENT ?w"
    from 1(2) have "s' = scan_emit s (make_token ?v (lx_src s) b e)" "e = scan_while is_ident_cont ?t b"
      by (auto simp: scan_ident_def Let_def)
    with word_val [OF w, of "lx_prev_minus_unary s" ?v] show ?thesis by blast
  next
    case 2
    from int_sound [OF assms(1,2) 2 assms(4)] show ?thesis .
  next
    case 3
    from string_sound [OF assms(1,2) 3 assms(4), of "lx_prev_minus_unary s"] show ?thesis by blast
  next
    case 4
    from punct_sound [OF assms(1,2), of "lx_prev_minus_unary s"] 4 assms(4)
    show ?thesis by (auto simp del: token_at.simps)
  qed
qed

section \<open>The run\<close>

text \<open>What the scanner remembers of the tokens so far.\<close>

definition remembers :: "lex_scan \<Rightarrow> lex_val list \<Rightarrow> bool" where
  "remembers s vs \<longleftrightarrow>
     lx_prev_minus_unary s = behind_unary_minus vs \<and>
     is_expr_ending (lx_prev_kind s) (lx_prev_punct s) (lx_prev_kw s) = (case vs of [] \<Rightarrow> False | v # _ \<Rightarrow> ends_expr v)"

lemma remembers_start: "remembers (lex_start src) []"
  by (simp add: remembers_def lex_start_def behind_unary_minus_def)

lemma remembers_emit:
  "\<not> lx_oom s \<Longrightarrow> remembers s vs \<Longrightarrow> remembers (scan_emit s (make_token v src b e)) (v # vs)"
  by (cases v; cases vs) (simp_all add: remembers_def scan_emit_def make_token_def behind_unary_minus_def)

lemma emit_fields:
  "\<not> lx_oom s \<Longrightarrow> lx_oom (scan_emit s tok) = False"
  "lx_records (scan_emit s tok) = lx_records s"
  "\<not> lx_oom s \<Longrightarrow> lx_tokens (scan_emit s tok) = lx_tokens s @ [tok]"
  by (simp_all add: scan_emit_def)

lemma str_at_no_quote: "str_at t b e bs \<Longrightarrow> \<not> quote_follows t e"
  by (induction rule: str_at.induct)

lemma lexed_ends:
  assumes "lexed src vs e toks" and "\<not> quote_follows (src_text src) e"
  shows "string_ends (src_text src) e"
proof (cases toks)
  case Nil
  with assms(1) show ?thesis
    unfolding string_ends_def by (intro exI [of _ "length (src_text src)"]) (simp add: no_trivia_at_def)
next
  case (Cons tok rest)
  with assms(1) obtain b e' where "trivia (src_text src) e b" "no_trivia_at (src_text src) b" "b < e'" "e' \<le> length (src_text src)"
    by auto
  with assms(2) show ?thesis unfolding string_ends_def quote_follows_def by (intro exI [of _ b]) auto
qed

text \<open>A text of the grammar is scanned without a record.\<close>

lemma lexed_run:
  "lexed src vs lo toks \<Longrightarrow> \<not> lx_oom s \<Longrightarrow> lx_src s = src \<Longrightarrow> remembers s vs \<Longrightarrow>
    lx_records (lex_run s lo) = lx_records s \<and> lx_tokens (lex_run s lo) = lx_tokens s @ toks @ [eof_token src]"
proof (induction toks arbitrary: vs lo s)
  case Nil
  have "skip_trivia s lo = (s, length (src_text src))"
    using Nil by (intro skip_trivia_grammar) (simp_all add: no_trivia_at_def)
  with Nil show ?case by (subst (1 2) lex_run.simps) (simp add: eof_token_def emit_fields)
next
  case (Cons tok toks)
  let ?t = "src_text src"
  obtain b e where tr: "trivia ?t lo b" "no_trivia_at ?t b" and be: "b < e" "e \<le> length ?t"
    and tok: "token_at ?t b e (behind_unary_minus vs) (tok_val tok)" "tok_span tok = load_span_range src (int b) (int e)"
    and rest: "lexed src (tok_val tok # vs) e toks" using Cons.prems(1) by auto
  have skip: "skip_trivia s lo = (s, b)" using tr Cons.prems by (intro skip_trivia_grammar) auto
  have make: "make_token (tok_val tok) src b e = tok" using tok(2) by (simp add: make_token_def)
  have ends: "string_ends ?t e" if "tok_val tok = V_STR bs" for bs
    using lexed_ends [OF rest] str_at_no_quote [of ?t b e bs] tok(1) that by simp
  have "emits_at s b e (tok_val tok)"
    using token_emits [of s b e "tok_val tok"] ends tok(1) be Cons.prems by (simp add: remembers_def)
  then have one: "scan_one s b = (scan_emit s tok, e)" using make Cons.prems(3) by (simp add: emits_at_def)
  have run: "lex_run s lo = lex_run (scan_emit s tok) e"
    using skip one be Cons.prems by (subst lex_run.simps) (simp add: emit_fields)
  have "remembers (scan_emit s tok) (tok_val tok # vs)"
    using remembers_emit [OF Cons.prems(2,4), of "tok_val tok" src b e] make by simp
  from Cons.IH [OF rest _ _ this] Cons.prems show ?case by (simp add: run emit_fields)
qed

lemma scan_one_records:
  assumes "\<not> lx_oom s" and "b < length (lx_text s)" and "scan_one s b = (s', e)"
  shows "length (lx_records s) \<le> length (lx_records s')" and "\<not> lx_oom s'"
proof -
  from scan_one_good [OF assms(1,2)] assms(3) obtain s1 where
    "reports s s1" "s' = s1 \<or> (\<exists>tok. s' = scan_emit s1 tok)" by (auto simp: lex_good_def)
  then show "length (lx_records s) \<le> length (lx_records s')" "\<not> lx_oom s'"
    using reports_length [of s s1] reportsD [of s s1] assms(1) by (auto simp: emit_fields)
qed

lemma lex_run_records:
  "\<not> lx_oom s \<Longrightarrow> length (lx_records s) \<le> length (lx_records (lex_run s lo))"
proof (induction s lo rule: lex_run.induct)
  case (1 s lo)
  obtain s1 b where tr: "skip_trivia s lo = (s1, b)" by (cases "skip_trivia s lo")
  have rep: "reports s s1" by (rule skip_trivia_reports [OF "1.prems" tr])
  have o1: "\<not> lx_oom s1" using reportsD [OF rep] "1.prems" by simp
  show ?case
  proof (cases "length (lx_text s1) \<le> b")
    case True
    with tr o1 reports_length [OF rep] show ?thesis by (subst lex_run.simps) (simp add: emit_fields)
  next
    case False
    obtain s2 e where one: "scan_one s1 b = (s2, e)" by (cases "scan_one s1 b")
    note r = scan_one_records [OF o1 _ one]
    with "1.IH" [OF tr [symmetric] o1 False one [symmetric]] tr o1 one False reports_length [OF rep] show ?thesis
      by (subst lex_run.simps) simp
  qed
qed

text \<open>A text that is scanned without a record is of the grammar, with the tokens of the stream.\<close>

lemma run_lexed:
  "\<not> lx_oom s \<Longrightarrow> lo \<le> length (lx_text s) \<Longrightarrow> remembers s vs \<Longrightarrow> quiet s (lex_run s lo) \<Longrightarrow>
    \<exists>toks. lx_tokens (lex_run s lo) = lx_tokens s @ toks @ [eof_token (lx_src s)] \<and> lexed (lx_src s) vs lo toks"
proof (induction s lo arbitrary: vs rule: lex_run.induct)
  case (1 s lo)
  let ?t = "lx_text s"
  obtain s1 b where tr: "skip_trivia s lo = (s1, b)" by (cases "skip_trivia s lo")
  note rep = skip_trivia_reports [OF "1.prems"(1) tr]
  have o1: "\<not> lx_oom s1" using reportsD [OF rep] "1.prems" by simp
  have b: "b \<le> length ?t" using skip_trivia_bounds [OF tr] "1.prems"(2) by simp
  show ?case
  proof (cases "length (lx_text s1) \<le> b")
    case True
    then have run: "lex_run s lo = scan_emit s1 (make_token V_EOF (lx_src s1) b b)"
      using tr o1 by (subst lex_run.simps) simp
    then have q: "quiet s s1" using "1.prems"(4) by (simp add: emit_fields)
    from skip_trivia_sound [OF "1.prems"(1) tr q] True b run o1 show ?thesis
      by (intro exI [of _ "[]"]) (simp add: emit_fields eof_token_def)
  next
    case False
    obtain s2 e where one: "scan_one s1 b = (s2, e)" by (cases "scan_one s1 b")
    have b1: "b < length (lx_text s1)" using False by simp
    note r = scan_one_records [OF o1 b1 one]
    have run: "lex_run s lo = lex_run s2 e"
      using tr False one r o1 by (subst lex_run.simps) simp
    from lex_run_records [OF r(2), of e] r(1) reports_length [OF rep] "1.prems"(4)
    have q: "quiet s s1" "quiet s1 s2" "quiet s2 (lex_run s2 e)" by (simp_all add: run)
    from skip_trivia_sound [OF "1.prems"(1) tr q(1)] have s1: "s1 = s" "trivia ?t lo b" "no_trivia_at ?t b" by simp_all
    from scan_one_step [OF b1] one s1 have be: "b < e" "e \<le> length ?t" by (simp_all add: step_ok_def)
    from token_sound [OF o1 b1 one q(2)] s1 obtain v where v: "s2 = scan_emit s (make_token v (lx_src s) b e)"
      "token_at ?t b e (lx_prev_minus_unary s) v" by auto
    have rm: "remembers s2 (v # vs)" unfolding v(1) by (rule remembers_emit [OF "1.prems"(1,3)])
    from "1.IH" [OF tr [symmetric] o1 False one [symmetric] r(2) r(2) _ rm q(3)] be v(1)
    obtain toks where toks: "lx_tokens (lex_run s2 e) = lx_tokens s2 @ toks @ [eof_token (lx_src s)]"
      "lexed (lx_src s) (v # vs) e toks" by auto
    have "lexed (lx_src s) vs lo (make_token v (lx_src s) b e # toks)"
      unfolding lexed.simps using s1 be v(2) toks(2) "1.prems"(3)
      by (intro exI [of _ b] exI [of _ e]) (simp add: make_token_def remembers_def)
    with toks(1) v(1) "1.prems"(1) show ?thesis
      by (intro exI [of _ "make_token v (lx_src s) b e # toks"]) (simp add: run emit_fields)
  qed
qed

lemma lex_ok_lexed:
  "lex_tokenize qs src = LEX_OK toks \<longleftrightarrow> (\<exists>ts. toks = ts @ [eof_token src] \<and> lexed src [] 0 ts)"
proof
  let ?s = "lex_start src"
  have s: "\<not> lx_oom ?s" "lx_src ?s = src" "lx_records ?s = []" "lx_tokens ?s = []" by (simp_all add: lex_start_def)
  show "\<exists>ts. toks = ts @ [eof_token src] \<and> lexed src [] 0 ts" if "lex_tokenize qs src = LEX_OK toks"
    using run_lexed [OF s(1) _ remembers_start, of 0] that s
    by (auto simp: lex_tokenize_def Let_def split: if_split_asm)
  show "lex_tokenize qs src = LEX_OK toks" if "\<exists>ts. toks = ts @ [eof_token src] \<and> lexed src [] 0 ts"
    using that lexed_run [OF _ s(1,2) remembers_start] s lex_tokenize_run(2) [of src]
    by (auto simp: lex_tokenize_def Let_def)
qed

text \<open>C6: the lexer accepts exactly the texts of the lexical grammar and yields exactly their tokens, and it
  always terminates. It succeeds with a stream if and only if the text is whitespace, comments and
  tokens of the grammar up to its end (\<open>lexed\<close>) and the stream is these tokens, none left out, with
  one end-of-file token at the end of the text. There a word is a keyword of the table or else an
  identifier; punctuation is the longest that matches; an integer has the value of its digits in
  the base of its prefix and the type of its suffix (without one the first of \<open>i32\<close>, \<open>i64\<close>, \<open>u64\<close>
  that holds it), with the magnitude of the least value allowed only with a signed suffix and a unary
  minus as the token before; a string is the concatenation of adjacent literals, each byte plain or the
  one its escape stands for, and well-formed UTF-8; every token carries the span of its bytes. On
  any other text the result is a lexical error, with a stream that still has that end-of-file
  token, and before it tokens in the order of the text, without overlap, each with a value
  that its bytes can have.\<close>

theorem lex_token_stream:
  "(\<forall>toks. lex_tokenize qs src = LEX_OK toks \<longleftrightarrow> (\<exists>ts. toks = ts @ [eof_token src] \<and> lexed src [] 0 ts)) \<and>
   ((\<exists>ts. lex_tokenize qs src = LEX_OK (ts @ [eof_token src])) \<or>
    (\<exists>ts recs. lex_tokenize qs src = LEX_DIAG_ERROR (ts @ [eof_token src]) recs \<and>
       token_chain src 0 ts (length (src_text src))))"
proof
  show "\<forall>toks. lex_tokenize qs src = LEX_OK toks \<longleftrightarrow> (\<exists>ts. toks = ts @ [eof_token src] \<and> lexed src [] 0 ts)"
    by (simp add: lex_ok_lexed)
  show "(\<exists>ts. lex_tokenize qs src = LEX_OK (ts @ [eof_token src])) \<or>
    (\<exists>ts recs. lex_tokenize qs src = LEX_DIAG_ERROR (ts @ [eof_token src]) recs \<and>
       token_chain src 0 ts (length (src_text src)))"
    using lex_tokenize_run [of src] by (auto simp: lex_tokenize_def Let_def)
qed

end
