(* ===== verification/Ast.thy ===== *)
theory Ast
  imports Lex
begin

text \<open>
  The abstract syntax of \<open>bootstrap/src/ast/ast.h\<close>. A node has an identity (the address of the C
  object, which the name tables refer to), a source span and a body; the body has one constructor
  per node kind, with the members of the kind's struct in the C union. A pointer that may be NULL is
  an option, an array with its count is a list.
\<close>

datatype ast_prim =
    AST_PRIM_VOID | AST_PRIM_BOOL | AST_PRIM_STR
  | AST_PRIM_I8 | AST_PRIM_I16 | AST_PRIM_I32 | AST_PRIM_I64
  | AST_PRIM_U8 | AST_PRIM_U16 | AST_PRIM_U32 | AST_PRIM_U64 | AST_PRIM_ISIZE | AST_PRIM_USIZE

datatype ast_unary_op =
    AST_UN_NEG | AST_UN_PLUS | AST_UN_NOT | AST_UN_BNOT | AST_UN_DEREF | AST_UN_ADDR

datatype ast_binary_op =
    AST_BIN_MUL | AST_BIN_DIV | AST_BIN_MOD | AST_BIN_ADD | AST_BIN_SUB | AST_BIN_SHL | AST_BIN_SHR
  | AST_BIN_LT | AST_BIN_LE | AST_BIN_GT | AST_BIN_GE | AST_BIN_EQ | AST_BIN_NE
  | AST_BIN_BAND | AST_BIN_BXOR | AST_BIN_BOR | AST_BIN_LAND | AST_BIN_LOR

datatype ast_assign_op =
    AST_ASGN_ASSIGN | AST_ASGN_ADD | AST_ASGN_SUB | AST_ASGN_MUL | AST_ASGN_DIV | AST_ASGN_MOD
  | AST_ASGN_SHL | AST_ASGN_SHR | AST_ASGN_BAND | AST_ASGN_BOR | AST_ASGN_BXOR

type_synonym ast_name = "string list"

datatype (plugins only: size) ast_node = AstNode (nid: nat) (nspan: diag_span) (nbody: ast_body)
and ast_body =
    AST_PROGRAM "ast_node option" "ast_node list" "ast_node list"
  | AST_MODULE_DECL ast_name
  | AST_IMPORT_DECL ast_name
  | AST_STRUCT_DECL string "ast_node list" bool
  | AST_ENUM_DECL string ast_node "ast_node list" bool
  | AST_FN_DECL string "ast_node list" ast_node ast_node bool
  | AST_GLOBAL_VAR_DECL string ast_node "ast_node option" bool
  | AST_GLOBAL_CONST_DECL string ast_node ast_node bool
  | AST_FIELD_DECL string ast_node
  | AST_ENUM_MEMBER string "ast_node option"
  | AST_PARAM string ast_node
  | AST_BLOCK "ast_node list"
  | AST_VAR_DECL string ast_node "ast_node option"
  | AST_CONST_DECL string ast_node ast_node
  | AST_IF ast_node ast_node "ast_node option"
  | AST_WHILE ast_node ast_node
  | AST_FOR "ast_node option" "ast_node option" "ast_node option" ast_node
  | AST_SWITCH ast_node "ast_node list"
  | AST_CASE_CLAUSE ast_node ast_node
  | AST_DEFAULT_CLAUSE ast_node
  | AST_BREAK
  | AST_CONTINUE
  | AST_RETURN "ast_node option"
  | AST_EXPR_STMT ast_node
  | AST_EMPTY_STMT
  | AST_TYPE_PRIM ast_prim
  | AST_TYPE_NAMED ast_name
  | AST_TYPE_PTR ast_node
  | AST_TYPE_ARRAY ast_node ast_node
  | AST_TYPE_SLICE ast_node
  | AST_EXPR_INT_LITERAL lex_int_type nat bool
  | AST_EXPR_STR_LITERAL string
  | AST_EXPR_BOOL_LITERAL bool
  | AST_EXPR_NULL_LITERAL
  | AST_EXPR_IDENT string
  | AST_EXPR_ARRAY_LITERAL "ast_node list" "ast_node option"
  | AST_EXPR_PAREN ast_node
  | AST_EXPR_UNARY ast_unary_op ast_node
  | AST_EXPR_BINARY ast_binary_op ast_node ast_node
  | AST_EXPR_ASSIGN ast_assign_op ast_node ast_node
  | AST_EXPR_TERNARY ast_node ast_node ast_node
  | AST_EXPR_INDEX ast_node ast_node
  | AST_EXPR_SLICE ast_node "ast_node option" "ast_node option"
  | AST_EXPR_CALL ast_node "ast_node list"
  | AST_EXPR_MEMBER ast_node string
  | AST_EXPR_ARROW ast_node string
  | AST_EXPR_STRUCT_INIT ast_node "ast_node list"
  | AST_FIELD_INIT string ast_node
  | AST_EXPR_SIZEOF_TYPE ast_node
  | AST_EXPR_SIZEOF_EXPR ast_node
  | AST_EXPR_ALIGNOF ast_node
  | AST_EXPR_CAST ast_node ast_node
  | AST_EXPR_WRAP ast_node ast_node
  | AST_EXPR_LEN ast_node
  | AST_EXPR_PTR ast_node

end
