(* ===== verification/ParseCore.thy ===== *)
theory ParseCore
  imports Ast
begin

text \<open>
  The parser's context (\<open>bootstrap/src/parse/parse.c\<close>): token access, spans, syntax records, the
  scope stack and type names that classify the operand of \<open>sizeof\<close>, token classes and the recovery
  loops. A pointer that may be \<open>NULL\<close> is an option. The innermost scope is the head of the list of
  scopes. Heap allocation succeeds, so the flag \<open>oom\<close> is never raised and the model has no such
  field. The identity of a node is a counter of the nodes made so far.
\<close>

section \<open>Context and token access\<close>

type_synonym scope = "(string \<times> nat) list"

record parse_ctx =
  px_tokens :: "lex_token list"
  px_pos :: nat
  px_file :: string
  px_records :: "diag_record list"
  px_seen :: bool
  px_type_names :: "string list"
  px_scopes :: "scope list"
  px_nodes :: nat

definition cur :: "parse_ctx \<Rightarrow> lex_val" where
  "cur c = tok_val (px_tokens c ! px_pos c)"

definition cur_is_eof :: "parse_ctx \<Rightarrow> bool" where
  "cur_is_eof c \<longleftrightarrow> tok_kind (cur c) = TOK_EOF"

definition cur_is_ident :: "parse_ctx \<Rightarrow> bool" where
  "cur_is_ident c \<longleftrightarrow> tok_kind (cur c) = TOK_IDENT"

definition cur_ident :: "parse_ctx \<Rightarrow> string" where
  "cur_ident c = (case cur c of V_IDENT s \<Rightarrow> s | _ \<Rightarrow> [])"

definition cur_is_kw :: "parse_ctx \<Rightarrow> lex_keyword \<Rightarrow> bool" where
  "cur_is_kw c kw \<longleftrightarrow> cur c = V_KEYWORD kw"

definition cur_is_punct :: "parse_ctx \<Rightarrow> lex_punct \<Rightarrow> bool" where
  "cur_is_punct c p \<longleftrightarrow> cur c = V_PUNCT p"

definition cur_is_int_kw :: "parse_ctx \<Rightarrow> bool" where
  "cur_is_int_kw c =
     (case cur c of
        V_KEYWORD k \<Rightarrow>
          k \<in> set [KW_I8, KW_I16, KW_I32, KW_I64, KW_U8, KW_U16, KW_U32, KW_U64, KW_ISIZE, KW_USIZE]
      | _ \<Rightarrow> False)"

definition advance :: "parse_ctx \<Rightarrow> parse_ctx" where
  "advance c =
     (if px_pos c + 1 < length (px_tokens c) then c\<lparr>px_pos := px_pos c + 1\<rparr>
      else c\<lparr>px_pos := length (px_tokens c) - 1\<rparr>)"

section \<open>Spans\<close>

definition tok_sp :: "lex_token list \<Rightarrow> nat \<Rightarrow> diag_span" where
  "tok_sp toks i = the (tok_span (toks ! i))"

definition toks_span :: "string \<Rightarrow> lex_token list \<Rightarrow> nat \<Rightarrow> nat \<Rightarrow> diag_span" where
  "toks_span file toks s e =
     (if s \<ge> e then tok_sp toks s
      else let a = tok_sp toks s; b = tok_sp toks (e - 1) in
        diag_span_new_range file
          (pos_line (span_start a)) (pos_col (span_start a)) (pos_offset (span_start a))
          (pos_line (span_end b)) (pos_col (span_end b)) (pos_offset (span_end b)))"

definition span_from :: "parse_ctx \<Rightarrow> nat \<Rightarrow> nat \<Rightarrow> diag_span" where
  "span_from c s e = toks_span (px_file c) (px_tokens c) s e"

definition err_span :: "parse_ctx \<Rightarrow> diag_span" where
  "err_span c =
     (let t = tok_sp (px_tokens c) (px_pos c) in
      if \<not> cur_is_eof c \<or> px_pos c = 0 then t
      else let prev = tok_sp (px_tokens c) (px_pos c - 1) in
        diag_span_new_range (px_file c)
          (pos_line (span_end prev)) (pos_col (span_end prev)) (pos_offset (span_end prev))
          (pos_line (span_end t)) (pos_col (span_end t)) (pos_offset (span_end t)))"

section \<open>Records\<close>

text \<open>The setters fail for lack of memory only: the codes below are registered.\<close>

definition report_syntax :: "parse_ctx \<Rightarrow> string \<Rightarrow> string \<Rightarrow> diag_span \<Rightarrow> parse_ctx" where
  "report_syntax c code message span =
     (case setters
        [\<lambda>r. diag_record_set_code r (Some code),
         \<lambda>r. diag_record_set_message r (Some message),
         \<lambda>r. diag_record_set_primary_span r (Some span),
         \<lambda>r. diag_record_set_recovery r
               (Some (if px_seen c then ''recovery_derived'' else ''authoritative''))]
        diag_record_new of
        None \<Rightarrow> c
      | Some rec \<Rightarrow> c\<lparr>px_seen := True, px_records := px_records c @ [rec]\<rparr>)"

definition err_expected :: "parse_ctx \<Rightarrow> string \<Rightarrow> parse_ctx" where
  "err_expected c what = report_syntax c ''AIC-S0101'' (''expected '' @ what) (err_span c)"

definition err_unexpected :: "parse_ctx \<Rightarrow> parse_ctx" where
  "err_unexpected c =
     report_syntax c ''AIC-S0102'' ''unexpected token'' (tok_sp (px_tokens c) (px_pos c))"

definition quoted :: "string \<Rightarrow> string" where
  "quoted s = [CHR 0x27] @ s @ [CHR 0x27]"

fun punct_expect_text :: "lex_punct \<Rightarrow> string" where
  "punct_expect_text PUNCT_LPAREN = quoted ''(''"
| "punct_expect_text PUNCT_RPAREN = quoted '')''"
| "punct_expect_text PUNCT_LBRACE = quoted ''{''"
| "punct_expect_text PUNCT_RBRACE = quoted ''}''"
| "punct_expect_text PUNCT_LBRACKET = quoted ''[''"
| "punct_expect_text PUNCT_RBRACKET = quoted '']''"
| "punct_expect_text PUNCT_SEMI = quoted '';''"
| "punct_expect_text PUNCT_COMMA = quoted '',''"
| "punct_expect_text PUNCT_COLON = quoted '':''"
| "punct_expect_text PUNCT_DOT = quoted ''.''"
| "punct_expect_text PUNCT_ARROW = quoted ''->''"
| "punct_expect_text PUNCT_STAR = quoted ''*''"
| "punct_expect_text PUNCT_ASSIGN = quoted ''=''"
| "punct_expect_text PUNCT_LT = quoted ''<''"
| "punct_expect_text PUNCT_GT = quoted ''>''"
| "punct_expect_text PUNCT_QUESTION = quoted ''?''"
| "punct_expect_text _ = ''token''"

section \<open>Parsers\<close>

text \<open>
  A parse function returns a pointer and leaves a context. The outer option is the outcome of the
  recursion: \<open>None\<close> would be a call that never returns. The inner option is the pointer that is
  returned, \<open>None\<close> for \<open>NULL\<close>. In \<open>pbind p f\<close> a \<open>NULL\<close> of \<open>p\<close> is returned at once, as the C code
  does after each call (\<open>if (!x) return NULL\<close>).
\<close>

type_synonym 'a parser = "parse_ctx \<Rightarrow> ('a option \<times> parse_ctx) option"
type_synonym node_parser = "ast_node parser"

definition p_return :: "'a \<Rightarrow> 'a parser" where
  "p_return x c = Some (Some x, c)"

definition p_null :: "'a parser" where
  "p_null c = Some (None, c)"

definition pbind :: "'a parser \<Rightarrow> ('a \<Rightarrow> 'b parser) \<Rightarrow> 'b parser" where
  "pbind p f c =
     Option.bind (p c) (\<lambda>(r, c'). case r of None \<Rightarrow> p_null c' | Some x \<Rightarrow> f x c')"

definition pseq :: "'a parser \<Rightarrow> 'b parser \<Rightarrow> 'b parser" where
  "pseq p q = pbind p (\<lambda>_. q)"

text \<open>An optional part: present when the test of the current token says so.\<close>

definition popt :: "(parse_ctx \<Rightarrow> bool) \<Rightarrow> 'a parser \<Rightarrow> 'a option parser" where
  "popt b p c = (if b c then pbind p (\<lambda>x. p_return (Some x)) c else p_return None c)"

definition expect_punct :: "lex_punct \<Rightarrow> unit parser" where
  "expect_punct p c =
     (if cur_is_punct c p then p_return () (advance c)
      else p_null (err_expected c (punct_expect_text p)))"

text \<open>\<open>node_new\<close>, the body's members and \<open>span_from(c, s, c->pos)\<close>.\<close>

definition node_new :: "nat \<Rightarrow> ast_body \<Rightarrow> node_parser" where
  "node_new s body c =
     p_return (AstNode (px_nodes c) (span_from c s (px_pos c)) body) (c\<lparr>px_nodes := Suc (px_nodes c)\<rparr>)"

section \<open>Scopes and type names\<close>

definition type_name_exists :: "parse_ctx \<Rightarrow> string \<Rightarrow> bool" where
  "type_name_exists c name \<longleftrightarrow> name \<in> set (px_type_names c)"

text \<open>The loop of \<open>prescan_type_names\<close> on the tokens from an index on, with the brace depth.\<close>

fun prescan_from :: "nat \<Rightarrow> lex_token list \<Rightarrow> string list" where
  "prescan_from depth [] = []"
| "prescan_from depth (t # ts) =
     (case tok_val t of
        V_PUNCT p \<Rightarrow>
          prescan_from
            (if p = PUNCT_LBRACE then depth + 1
             else if p = PUNCT_RBRACE then (if depth > 0 then depth - 1 else depth)
             else depth) ts
      | V_KEYWORD k \<Rightarrow>
          (if depth = 0 \<and> (k = KW_STRUCT \<or> k = KW_ENUM) then
             (case ts of
                t' # _ \<Rightarrow> (case tok_val t' of V_IDENT name \<Rightarrow> [name] | _ \<Rightarrow> [])
              | [] \<Rightarrow> [])
           else []) @ prescan_from depth ts
      | _ \<Rightarrow> prescan_from depth ts)"

definition prescan_type_names :: "parse_ctx \<Rightarrow> parse_ctx" where
  "prescan_type_names c =
     c\<lparr>px_type_names := px_type_names c @ prescan_from 0 (px_tokens c)\<rparr>"

definition scope_push :: "parse_ctx \<Rightarrow> parse_ctx" where
  "scope_push c = c\<lparr>px_scopes := [] # px_scopes c\<rparr>"

definition scope_pop :: "parse_ctx \<Rightarrow> parse_ctx" where
  "scope_pop c = (if px_scopes c = [] then c else c\<lparr>px_scopes := tl (px_scopes c)\<rparr>)"

definition scope_declare_value :: "string \<Rightarrow> nat \<Rightarrow> parse_ctx \<Rightarrow> parse_ctx" where
  "scope_declare_value name decl_index c =
     (case px_scopes c of
        [] \<Rightarrow> c
      | sc # rest \<Rightarrow> c\<lparr>px_scopes := (sc @ [(name, decl_index)]) # rest\<rparr>)"

definition scope_is_visible_value :: "parse_ctx \<Rightarrow> string \<Rightarrow> nat \<Rightarrow> bool" where
  "scope_is_visible_value c name pos_index \<longleftrightarrow>
     list_ex (list_ex (\<lambda>(n, i). i \<le> pos_index \<and> n = name)) (px_scopes c)"

section \<open>Token classes\<close>

definition starts_stmt :: "lex_val \<Rightarrow> bool" where
  "starts_stmt v =
     (case v of
        V_PUNCT p \<Rightarrow> p = PUNCT_LBRACE
      | V_KEYWORD k \<Rightarrow>
          k \<in> set [KW_VAR, KW_CONST, KW_IF, KW_WHILE, KW_FOR, KW_SWITCH, KW_BREAK, KW_CONTINUE, KW_RETURN]
      | _ \<Rightarrow> False)"

definition tok_starts_stmt :: "parse_ctx \<Rightarrow> bool" where
  "tok_starts_stmt c = starts_stmt (cur c)"

definition starts_top_level :: "lex_val \<Rightarrow> bool" where
  "starts_top_level v =
     (case v of
        V_KEYWORD k \<Rightarrow> k \<in> set [KW_PUB, KW_STRUCT, KW_ENUM, KW_FN, KW_VAR, KW_CONST]
      | _ \<Rightarrow> False)"

definition tok_starts_top_level :: "parse_ctx \<Rightarrow> bool" where
  "tok_starts_top_level c = starts_top_level (cur c)"

definition tok_starts_expr :: "parse_ctx \<Rightarrow> bool" where
  "tok_starts_expr c =
     (case cur c of
        V_IDENT _ \<Rightarrow> True
      | V_INT _ _ _ \<Rightarrow> True
      | V_STR _ \<Rightarrow> True
      | V_KEYWORD k \<Rightarrow>
          k \<in> set [KW_TRUE, KW_FALSE, KW_NULL, KW_SIZEOF, KW_ALIGNOF, KW_CAST, KW_WRAP, KW_LEN, KW_PTR]
      | V_PUNCT p \<Rightarrow>
          p \<in> set [PUNCT_LPAREN, PUNCT_LBRACKET, PUNCT_LBRACE, PUNCT_MINUS, PUNCT_PLUS, PUNCT_BANG,
                   PUNCT_TILDE, PUNCT_STAR, PUNCT_AMP]
      | V_EOF \<Rightarrow> False)"

section \<open>Loops\<close>

text \<open>\<open>while (!cur_is_eof(c) && !stop) advance(c);\<close>\<close>

partial_function (option) skip_until :: "(parse_ctx \<Rightarrow> bool) \<Rightarrow> parse_ctx \<Rightarrow> parse_ctx option" where
  "skip_until stop c = (if cur_is_eof c \<or> stop c then Some c else skip_until stop (advance c))"

definition skip_semi :: "parse_ctx \<Rightarrow> parse_ctx" where
  "skip_semi c = (if cur_is_punct c PUNCT_SEMI then advance c else c)"

text \<open>
  \<open>while (b) { x = body(x); if (!x) return NULL; }\<close>: the loops over postfixes, operators and list
  items. The loop is a \<open>partial_function\<close>, so that one that never ends is the value \<open>None\<close>.
\<close>

partial_function (option) ploop ::
  "(parse_ctx \<Rightarrow> bool) \<Rightarrow> ('a \<Rightarrow> 'a parser) \<Rightarrow> 'a \<Rightarrow> parse_ctx \<Rightarrow> ('a option \<times> parse_ctx) option" where
  "ploop b body acc c =
     (if b c then
        Option.bind (body acc c) (\<lambda>(r, c'). case r of None \<Rightarrow> p_null c' | Some y \<Rightarrow> ploop b body y c')
      else p_return acc c)"

declare skip_until.simps [code] ploop.simps [code]

section \<open>Recovery\<close>

definition recover_statement :: "parse_ctx \<Rightarrow> parse_ctx option" where
  "recover_statement c =
     map_option skip_semi
       (skip_until (\<lambda>c. cur_is_punct c PUNCT_SEMI \<or> cur_is_punct c PUNCT_RBRACE \<or> tok_starts_stmt c) c)"

definition recover_top_level :: "parse_ctx \<Rightarrow> parse_ctx option" where
  "recover_top_level c =
     map_option skip_semi
       (skip_until (\<lambda>c. cur_is_punct c PUNCT_SEMI \<or> cur_is_kw c KW_MODULE \<or> cur_is_kw c KW_IMPORT \<or>
                        tok_starts_top_level c) c)"

definition recover_field :: "parse_ctx \<Rightarrow> parse_ctx option" where
  "recover_field c =
     map_option skip_semi (skip_until (\<lambda>c. cur_is_punct c PUNCT_SEMI \<or> cur_is_punct c PUNCT_RBRACE) c)"

definition recover_list_sep :: "lex_punct \<Rightarrow> parse_ctx \<Rightarrow> parse_ctx option" where
  "recover_list_sep closer c = skip_until (\<lambda>c. cur_is_punct c PUNCT_COMMA \<or> cur_is_punct c closer) c"

definition recover_switch_clause :: "parse_ctx \<Rightarrow> parse_ctx option" where
  "recover_switch_clause c =
     map_option skip_semi
       (skip_until (\<lambda>c. cur_is_punct c PUNCT_SEMI \<or> cur_is_punct c PUNCT_RBRACE \<or>
                        cur_is_kw c KW_CASE \<or> cur_is_kw c KW_DEFAULT) c)"

section \<open>Monotonicity\<close>

text \<open>
  A recursion through these combinators is well defined because each is monotone in the parsers it
  is given: by its shape, or for the loop by induction on its computation.
\<close>

lemma pbind_mono [partial_function_mono]:
  fixes p :: "('x \<Rightarrow> 'y option) \<Rightarrow> 'a parser" and q :: "('x \<Rightarrow> 'y option) \<Rightarrow> 'a \<Rightarrow> 'b parser"
  assumes "\<And>c. mono_option (\<lambda>f. p f c)" and "\<And>x c. mono_option (\<lambda>f. q f x c)"
  shows "mono_option (\<lambda>f. pbind (p f) (q f) c)"
  unfolding pbind_def
proof (rule bind_mono [OF assms(1)])
  fix y :: "'a option \<times> parse_ctx"
  show "mono_option (\<lambda>f. case y of (r, c') \<Rightarrow> case r of None \<Rightarrow> p_null c' | Some x \<Rightarrow> q f x c')"
  proof (cases y)
    case (Pair r c')
    then show ?thesis by (cases r) (simp_all add: assms(2) option.const_mono)
  qed
qed

lemma pseq_mono [partial_function_mono]:
  fixes p :: "('x \<Rightarrow> 'y option) \<Rightarrow> 'a parser" and q :: "('x \<Rightarrow> 'y option) \<Rightarrow> 'b parser"
  assumes "\<And>c. mono_option (\<lambda>f. p f c)" and "\<And>c. mono_option (\<lambda>f. q f c)"
  shows "mono_option (\<lambda>f. pseq (p f) (q f) c)"
  unfolding pseq_def by (intro pbind_mono assms)

lemma popt_mono [partial_function_mono]:
  fixes p :: "('x \<Rightarrow> 'y option) \<Rightarrow> 'a parser"
  assumes "\<And>c. mono_option (\<lambda>f. p f c)"
  shows "mono_option (\<lambda>f. popt b (p f) c)"
  unfolding popt_def by (intro if_mono pbind_mono option.const_mono assms)

lemma mono_optionI:
  fixes F :: "('x \<Rightarrow> 'y option) \<Rightarrow> 'c option"
  assumes "\<And>f g r. fun_ord option_ord f g \<Longrightarrow> F f = Some r \<Longrightarrow> F g = Some r"
  shows "mono_option F"
proof (rule monotoneI)
  fix f g :: "'x \<Rightarrow> 'y option" assume "fun_ord option_ord f g"
  with assms show "option_ord (F f) (F g)" by (cases "F f") (auto simp: flat_ord_def)
qed

lemma mono_optionD:
  fixes F :: "('x \<Rightarrow> 'y option) \<Rightarrow> 'c option"
  assumes "mono_option F" and "fun_ord option_ord f g" and "F f = Some r"
  shows "F g = Some r"
  using monotoneD [OF assms(1), of f g] assms(2,3) by (auto simp: flat_ord_def)

lemma ploop_mono [partial_function_mono]:
  fixes body :: "('x \<Rightarrow> 'y option) \<Rightarrow> 'a \<Rightarrow> 'a parser"
  assumes body: "\<And>x c. mono_option (\<lambda>f. body f x c)"
  shows "mono_option (\<lambda>f. ploop b (body f) x c)"
proof (rule mono_optionI)
  fix f g :: "'x \<Rightarrow> 'y option" and r
  assume le: "fun_ord option_ord f g" and run: "ploop b (body f) x c = Some r"
  show "ploop b (body g) x c = Some r"
  proof (rule ploop.raw_induct [where P = "\<lambda>b' q x c r. q = body f \<longrightarrow> ploop b' (body g) x c = Some r"
        and b = b and body = "body f" and acc = x and c = c and y = r, rule_format], goal_cases)
    case (1 L b' q x c r)
    note IH = 1(1) and eq = 1(2) and q = 1(3)
    show ?case
    proof (cases "b' c")
      case False
      with eq show ?thesis by (subst ploop.simps) simp
    next
      case True
      with eq q obtain o' c' where b: "body f x c = Some (o', c')"
        and r: "(case o' of None \<Rightarrow> p_null c' | Some y \<Rightarrow> L b' q y c') = Some r"
        by (auto simp: bind_eq_Some_conv)
      have "body g x c = Some (o', c')" by (rule mono_optionD [OF body le b])
      with True r IH q show ?thesis by (subst ploop.simps) (auto split: option.splits)
    qed
  qed (use run in simp_all)
qed

end
