(* ===== verification/ParseExpr.thy ===== *)
theory ParseExpr
  imports ParseCore
begin

text \<open>
  Names, types and expressions of the parser. Each function of the code is a definition over the
  parsers it calls recursively (\<open>pe\<close> for \<open>parse_expr\<close>, \<open>pu\<close> for \<open>parse_unary\<close>, \<open>pc\<close> for
  \<open>parse_conditional\<close>); \<open>parse_expr_nt\<close> ties the recursion. That every call and loop ends is a theorem
  about the model, not part of it.
\<close>

section \<open>Operators\<close>

fun bin_op_of :: "lex_punct \<Rightarrow> ast_binary_op" where
  "bin_op_of PUNCT_STAR = AST_BIN_MUL"
| "bin_op_of PUNCT_SLASH = AST_BIN_DIV"
| "bin_op_of PUNCT_PERCENT = AST_BIN_MOD"
| "bin_op_of PUNCT_PLUS = AST_BIN_ADD"
| "bin_op_of PUNCT_MINUS = AST_BIN_SUB"
| "bin_op_of PUNCT_SHL = AST_BIN_SHL"
| "bin_op_of PUNCT_SHR = AST_BIN_SHR"
| "bin_op_of PUNCT_LT = AST_BIN_LT"
| "bin_op_of PUNCT_LE = AST_BIN_LE"
| "bin_op_of PUNCT_GT = AST_BIN_GT"
| "bin_op_of PUNCT_GE = AST_BIN_GE"
| "bin_op_of PUNCT_EQ = AST_BIN_EQ"
| "bin_op_of PUNCT_NE = AST_BIN_NE"
| "bin_op_of PUNCT_AMP = AST_BIN_BAND"
| "bin_op_of PUNCT_XOR = AST_BIN_BXOR"
| "bin_op_of PUNCT_OR = AST_BIN_BOR"
| "bin_op_of PUNCT_AND_AND = AST_BIN_LAND"
| "bin_op_of PUNCT_OR_OR = AST_BIN_LOR"
| "bin_op_of _ = AST_BIN_ADD"

fun unary_op_of :: "lex_punct \<Rightarrow> ast_unary_op" where
  "unary_op_of PUNCT_MINUS = AST_UN_NEG"
| "unary_op_of PUNCT_PLUS = AST_UN_PLUS"
| "unary_op_of PUNCT_BANG = AST_UN_NOT"
| "unary_op_of PUNCT_TILDE = AST_UN_BNOT"
| "unary_op_of PUNCT_STAR = AST_UN_DEREF"
| "unary_op_of _ = AST_UN_ADDR"

fun assign_op_of :: "lex_punct \<Rightarrow> ast_assign_op" where
  "assign_op_of PUNCT_ASSIGN = AST_ASGN_ASSIGN"
| "assign_op_of PUNCT_PLUS_ASSIGN = AST_ASGN_ADD"
| "assign_op_of PUNCT_MINUS_ASSIGN = AST_ASGN_SUB"
| "assign_op_of PUNCT_STAR_ASSIGN = AST_ASGN_MUL"
| "assign_op_of PUNCT_SLASH_ASSIGN = AST_ASGN_DIV"
| "assign_op_of PUNCT_PERCENT_ASSIGN = AST_ASGN_MOD"
| "assign_op_of PUNCT_SHL_ASSIGN = AST_ASGN_SHL"
| "assign_op_of PUNCT_SHR_ASSIGN = AST_ASGN_SHR"
| "assign_op_of PUNCT_AND_ASSIGN = AST_ASGN_BAND"
| "assign_op_of PUNCT_OR_ASSIGN = AST_ASGN_BOR"
| "assign_op_of _ = AST_ASGN_BXOR"

definition cur_punct :: "parse_ctx \<Rightarrow> lex_punct" where
  "cur_punct c = (case cur c of V_PUNCT p \<Rightarrow> p | _ \<Rightarrow> PUNCT_NONE)"

definition cur_is_punct_in :: "lex_punct list \<Rightarrow> parse_ctx \<Rightarrow> bool" where
  "cur_is_punct_in ps c \<longleftrightarrow> (case cur c of V_PUNCT p \<Rightarrow> p \<in> set ps | _ \<Rightarrow> False)"

definition PUNCTS_MULT :: "lex_punct list" where "PUNCTS_MULT = [PUNCT_STAR, PUNCT_SLASH, PUNCT_PERCENT]"
definition PUNCTS_ADD :: "lex_punct list" where "PUNCTS_ADD = [PUNCT_PLUS, PUNCT_MINUS]"
definition PUNCTS_SHIFT :: "lex_punct list" where "PUNCTS_SHIFT = [PUNCT_SHL, PUNCT_SHR]"
definition PUNCTS_REL :: "lex_punct list" where "PUNCTS_REL = [PUNCT_LT, PUNCT_LE, PUNCT_GT, PUNCT_GE]"
definition PUNCTS_EQ :: "lex_punct list" where "PUNCTS_EQ = [PUNCT_EQ, PUNCT_NE]"
definition PUNCTS_ASSIGN :: "lex_punct list" where
  "PUNCTS_ASSIGN =
    [PUNCT_ASSIGN, PUNCT_PLUS_ASSIGN, PUNCT_MINUS_ASSIGN, PUNCT_STAR_ASSIGN, PUNCT_SLASH_ASSIGN,
     PUNCT_PERCENT_ASSIGN, PUNCT_SHL_ASSIGN, PUNCT_SHR_ASSIGN, PUNCT_AND_ASSIGN, PUNCT_OR_ASSIGN,
     PUNCT_XOR_ASSIGN]"
definition PUNCTS_UNARY :: "lex_punct list" where
  "PUNCTS_UNARY = [PUNCT_MINUS, PUNCT_PLUS, PUNCT_BANG, PUNCT_TILDE, PUNCT_STAR, PUNCT_AMP]"

section \<open>Lists of items\<close>

text \<open>\<open>while (cur is ',') { advance; if (stop) break; x = p(c); if (!x) return NULL; push }\<close>: after
  the \<open>break\<close> the current token is the closer, which ends the loop here.\<close>

definition comma_item :: "(parse_ctx \<Rightarrow> bool) \<Rightarrow> 'a parser \<Rightarrow> 'a list \<Rightarrow> 'a list parser" where
  "comma_item stop p items c =
     (let c' = advance c in
      if stop c' then p_return items c' else pbind p (\<lambda>x. p_return (items @ [x])) c')"

definition comma_loop :: "(parse_ctx \<Rightarrow> bool) \<Rightarrow> 'a parser \<Rightarrow> 'a list \<Rightarrow> 'a list parser" where
  "comma_loop stop p = ploop (\<lambda>c. cur_is_punct c PUNCT_COMMA) (comma_item stop p)"

text \<open>A list that may be empty, up to its closing token (which is not consumed).\<close>

definition comma_list :: "lex_punct \<Rightarrow> (parse_ctx \<Rightarrow> bool) \<Rightarrow> 'a parser \<Rightarrow> 'a list parser" where
  "comma_list closer stop p c =
     (if cur_is_punct c closer then p_return [] c
      else pbind p (\<lambda>x. comma_loop stop p [x]) c)"

section \<open>Names and types\<close>

definition qualified_name_part :: "ast_name \<Rightarrow> ast_name parser" where
  "qualified_name_part parts c =
     (let c' = advance c in
      if \<not> cur_is_ident c' then p_null (err_expected c' ''identifier'')
      else p_return (parts @ [cur_ident c']) (advance c'))"

definition parse_qualified_name :: "ast_name parser" where
  "parse_qualified_name c =
     (if \<not> cur_is_ident c then p_null (err_expected c ''identifier'')
      else ploop (\<lambda>c. cur_is_punct c PUNCT_DOT) qualified_name_part [cur_ident c] (advance c))"

fun ast_prim_from_keyword :: "lex_keyword \<Rightarrow> ast_prim option" where
  "ast_prim_from_keyword KW_VOID = Some AST_PRIM_VOID"
| "ast_prim_from_keyword KW_BOOL = Some AST_PRIM_BOOL"
| "ast_prim_from_keyword KW_STR = Some AST_PRIM_STR"
| "ast_prim_from_keyword KW_I8 = Some AST_PRIM_I8"
| "ast_prim_from_keyword KW_I16 = Some AST_PRIM_I16"
| "ast_prim_from_keyword KW_I32 = Some AST_PRIM_I32"
| "ast_prim_from_keyword KW_I64 = Some AST_PRIM_I64"
| "ast_prim_from_keyword KW_U8 = Some AST_PRIM_U8"
| "ast_prim_from_keyword KW_U16 = Some AST_PRIM_U16"
| "ast_prim_from_keyword KW_U32 = Some AST_PRIM_U32"
| "ast_prim_from_keyword KW_U64 = Some AST_PRIM_U64"
| "ast_prim_from_keyword KW_ISIZE = Some AST_PRIM_ISIZE"
| "ast_prim_from_keyword KW_USIZE = Some AST_PRIM_USIZE"
| "ast_prim_from_keyword _ = None"

definition sizeof_operand_is_type :: "parse_ctx \<Rightarrow> bool" where
  "sizeof_operand_is_type c =
     (case cur c of
        V_KEYWORD k \<Rightarrow>
          k \<in> set [KW_VOID, KW_BOOL, KW_STR, KW_I8, KW_I16, KW_I32, KW_I64,
                   KW_U8, KW_U16, KW_U32, KW_U64, KW_ISIZE, KW_USIZE]
      | V_IDENT name \<Rightarrow>
          (if scope_is_visible_value c name (px_pos c) then False else type_name_exists c name)
      | _ \<Rightarrow> False)"

definition type_postfix :: "node_parser \<Rightarrow> nat \<Rightarrow> ast_node \<Rightarrow> node_parser" where
  "type_postfix pe s base c =
     (let c' = advance c in
      if cur_is_punct c PUNCT_STAR then node_new s (AST_TYPE_PTR base) c'
      else if cur_is_punct c' PUNCT_RBRACKET then node_new s (AST_TYPE_SLICE base) (advance c')
      else pbind pe (\<lambda>len. pseq (expect_punct PUNCT_RBRACKET) (node_new s (AST_TYPE_ARRAY base len))) c')"

definition type_postfix_loop :: "node_parser \<Rightarrow> nat \<Rightarrow> ast_node \<Rightarrow> node_parser" where
  "type_postfix_loop pe s = ploop (cur_is_punct_in [PUNCT_STAR, PUNCT_LBRACKET]) (type_postfix pe s)"

definition parse_type :: "node_parser \<Rightarrow> node_parser" where
  "parse_type pe c =
     (let s = px_pos c in
      case cur c of
        V_IDENT _ \<Rightarrow>
          pbind parse_qualified_name (\<lambda>name.
            pbind (node_new s (AST_TYPE_NAMED name)) (type_postfix_loop pe s)) c
      | V_KEYWORD k \<Rightarrow>
          (case ast_prim_from_keyword k of
             Some prim \<Rightarrow> pbind (node_new s (AST_TYPE_PRIM prim)) (type_postfix_loop pe s) (advance c)
           | None \<Rightarrow> p_null (err_expected c ''type''))
      | _ \<Rightarrow> p_null (err_expected c ''type''))"

section \<open>Primary expressions\<close>

partial_function (option) consume_balanced_braces ::
  "nat \<Rightarrow> int \<Rightarrow> parse_ctx \<Rightarrow> (diag_span \<times> parse_ctx) option" where
  "consume_balanced_braces s depth c =
     (if cur_is_eof c then Some (span_from c s (px_pos c), c)
      else if cur_is_punct c PUNCT_LBRACE then consume_balanced_braces s (depth + 1) (advance c)
      else if cur_is_punct c PUNCT_RBRACE then
        (let c' = advance c in
         if depth - 1 = 0 then Some (span_from c' s (px_pos c'), c')
         else consume_balanced_braces s (depth - 1) c')
      else consume_balanced_braces s depth (advance c))"

definition parse_array_literal :: "node_parser \<Rightarrow> node_parser" where
  "parse_array_literal pe c =
     (let s = px_pos c; c1 = advance c in
      if cur_is_punct c1 PUNCT_RBRACKET then node_new s (AST_EXPR_ARRAY_LITERAL [] None) (advance c1)
      else
        pbind pe (\<lambda>first c2.
          if cur_is_punct c2 PUNCT_SEMI then
            pbind pe (\<lambda>n.
              pseq (expect_punct PUNCT_RBRACKET) (node_new s (AST_EXPR_ARRAY_LITERAL [first] (Some n))))
              (advance c2)
          else
            pbind (comma_loop (\<lambda>c. cur_is_punct c PUNCT_RBRACKET) pe [first]) (\<lambda>elems.
              pseq (expect_punct PUNCT_RBRACKET) (node_new s (AST_EXPR_ARRAY_LITERAL elems None))) c2) c1)"

definition parse_paren :: "node_parser \<Rightarrow> node_parser" where
  "parse_paren pe c =
     pbind pe (\<lambda>e. pseq (expect_punct PUNCT_RPAREN) (node_new (px_pos c) (AST_EXPR_PAREN e))) (advance c)"

definition reject_braces :: "node_parser" where
  "reject_braces c =
     Option.bind (consume_balanced_braces (px_pos c) 0 c) (\<lambda>(sp, c').
       p_null (report_syntax c' ''AIC-S0101'' ''expected token'' sp))"

definition parse_primary :: "node_parser \<Rightarrow> node_parser" where
  "parse_primary pe c =
     (let s = px_pos c in
      case cur c of
        V_INT ty v is_min \<Rightarrow> node_new s (AST_EXPR_INT_LITERAL ty v is_min) (advance c)
      | V_STR bytes \<Rightarrow> node_new s (AST_EXPR_STR_LITERAL bytes) (advance c)
      | V_IDENT name \<Rightarrow> node_new s (AST_EXPR_IDENT name) (advance c)
      | V_KEYWORD k \<Rightarrow>
          (if k = KW_TRUE \<or> k = KW_FALSE then node_new s (AST_EXPR_BOOL_LITERAL (k = KW_TRUE)) (advance c)
           else if k = KW_NULL then node_new s AST_EXPR_NULL_LITERAL (advance c)
           else p_null (err_expected c ''expression''))
      | V_PUNCT p \<Rightarrow>
          (if p = PUNCT_LPAREN then parse_paren pe c
           else if p = PUNCT_LBRACKET then parse_array_literal pe c
           else if p = PUNCT_LBRACE then reject_braces c
           else p_null (err_expected c ''expression''))
      | V_EOF \<Rightarrow> p_null (err_expected c ''expression''))"

section \<open>Postfix expressions\<close>

text \<open>The part of a slice after \<open>..\<close>, up to and including the bracket.\<close>

definition slice_tail :: "node_parser \<Rightarrow> nat \<Rightarrow> ast_node \<Rightarrow> ast_node option \<Rightarrow> node_parser" where
  "slice_tail pe s0 base lo c =
     pbind (popt (\<lambda>c. \<not> cur_is_punct c PUNCT_RBRACKET) pe) (\<lambda>hi.
       pseq (expect_punct PUNCT_RBRACKET) (node_new s0 (AST_EXPR_SLICE base lo hi))) (advance c)"

definition parse_index_slice :: "node_parser \<Rightarrow> ast_node \<Rightarrow> nat \<Rightarrow> node_parser" where
  "parse_index_slice pe base s0 c =
     (let c1 = advance c in
      if cur_is_punct c1 PUNCT_DOT_DOT then slice_tail pe s0 base None c1
      else
        pbind pe (\<lambda>lo c2.
          if cur_is_punct c2 PUNCT_DOT_DOT then slice_tail pe s0 base (Some lo) c2
          else pseq (expect_punct PUNCT_RBRACKET) (node_new s0 (AST_EXPR_INDEX base lo)) c2) c1)"

definition parse_call :: "node_parser \<Rightarrow> ast_node \<Rightarrow> nat \<Rightarrow> node_parser" where
  "parse_call pe callee s0 c =
     pbind (comma_list PUNCT_RPAREN (\<lambda>_. False) pe) (\<lambda>args.
       pseq (expect_punct PUNCT_RPAREN) (node_new s0 (AST_EXPR_CALL callee args))) (advance c)"

definition parse_member :: "ast_node \<Rightarrow> nat \<Rightarrow> bool \<Rightarrow> node_parser" where
  "parse_member base s0 arrow c =
     (let c1 = advance c in
      if \<not> cur_is_ident c1 then p_null (err_expected c1 ''identifier'')
      else
        node_new s0 (if arrow then AST_EXPR_ARROW base (cur_ident c1) else AST_EXPR_MEMBER base (cur_ident c1))
          (advance c1))"

definition parse_field_init :: "node_parser \<Rightarrow> node_parser" where
  "parse_field_init pe c =
     (if \<not> cur_is_ident c then p_null (err_expected c ''identifier'')
      else
        pseq (expect_punct PUNCT_COLON)
          (pbind pe (\<lambda>v. node_new (px_pos c) (AST_FIELD_INIT (cur_ident c) v))) (advance c))"

definition parse_struct_init :: "node_parser \<Rightarrow> ast_node \<Rightarrow> nat \<Rightarrow> node_parser" where
  "parse_struct_init pe base s0 c =
     pbind (comma_list PUNCT_RBRACE (\<lambda>c. cur_is_punct c PUNCT_RBRACE) (parse_field_init pe)) (\<lambda>inits.
       pseq (expect_punct PUNCT_RBRACE) (node_new s0 (AST_EXPR_STRUCT_INIT base inits))) (advance c)"

text \<open>The loop of \<open>parse_postfix\<close>: its guard is that the \<open>switch\<close> does not return.\<close>

definition PUNCTS_POSTFIX :: "lex_punct list" where
  "PUNCTS_POSTFIX = [PUNCT_LBRACKET, PUNCT_LPAREN, PUNCT_DOT, PUNCT_ARROW, PUNCT_LBRACE]"

definition postfix_one :: "node_parser \<Rightarrow> nat \<Rightarrow> ast_node \<Rightarrow> node_parser" where
  "postfix_one pe s0 e c =
     (if cur_is_punct c PUNCT_LBRACKET then parse_index_slice pe e s0 c
      else if cur_is_punct c PUNCT_LPAREN then parse_call pe e s0 c
      else if cur_is_punct c PUNCT_DOT then parse_member e s0 False c
      else if cur_is_punct c PUNCT_ARROW then parse_member e s0 True c
      else parse_struct_init pe e s0 c)"

definition postfix_loop :: "node_parser \<Rightarrow> nat \<Rightarrow> ast_node \<Rightarrow> node_parser" where
  "postfix_loop pe s0 = ploop (cur_is_punct_in PUNCTS_POSTFIX) (postfix_one pe s0)"

definition parse_postfix :: "node_parser \<Rightarrow> node_parser" where
  "parse_postfix pe c = pbind (parse_primary pe) (postfix_loop pe (px_pos c)) c"

section \<open>Unary expressions\<close>

definition parse_sizeof :: "node_parser \<Rightarrow> node_parser" where
  "parse_sizeof pe c =
     pseq (expect_punct PUNCT_LPAREN) (\<lambda>c1.
       (if sizeof_operand_is_type c1 then
          pbind (parse_type pe) (\<lambda>t.
            pseq (expect_punct PUNCT_RPAREN) (node_new (px_pos c) (AST_EXPR_SIZEOF_TYPE t))) c1
        else
          pbind pe (\<lambda>e.
            pseq (expect_punct PUNCT_RPAREN) (node_new (px_pos c) (AST_EXPR_SIZEOF_EXPR e))) c1)) (advance c)"

definition parse_alignof :: "node_parser \<Rightarrow> node_parser" where
  "parse_alignof pe c =
     pseq (expect_punct PUNCT_LPAREN)
       (pbind (parse_type pe) (\<lambda>t.
          pseq (expect_punct PUNCT_RPAREN) (node_new (px_pos c) (AST_EXPR_ALIGNOF t)))) (advance c)"

definition parse_cast_wrap :: "node_parser \<Rightarrow> bool \<Rightarrow> node_parser" where
  "parse_cast_wrap pe is_cast c =
     pseq (expect_punct PUNCT_LT)
       (pbind (parse_type pe) (\<lambda>t.
          pseq (expect_punct PUNCT_GT)
            (pseq (expect_punct PUNCT_LPAREN)
              (pbind pe (\<lambda>e.
                 pseq (expect_punct PUNCT_RPAREN)
                   (node_new (px_pos c) (if is_cast then AST_EXPR_CAST t e else AST_EXPR_WRAP t e))))))) (advance c)"

definition parse_len_ptr :: "node_parser \<Rightarrow> bool \<Rightarrow> node_parser" where
  "parse_len_ptr pe is_len c =
     pseq (expect_punct PUNCT_LPAREN)
       (pbind pe (\<lambda>e.
          pseq (expect_punct PUNCT_RPAREN)
            (node_new (px_pos c) (if is_len then AST_EXPR_LEN e else AST_EXPR_PTR e)))) (advance c)"

definition make_unary :: "ast_unary_op \<Rightarrow> ast_node \<Rightarrow> nat \<Rightarrow> node_parser" where
  "make_unary op operand s = node_new s (AST_EXPR_UNARY op operand)"

definition parse_unary :: "node_parser \<Rightarrow> node_parser \<Rightarrow> node_parser" where
  "parse_unary pe pu c =
     (if cur_is_kw c KW_SIZEOF then parse_sizeof pe c
      else if cur_is_kw c KW_ALIGNOF then parse_alignof pe c
      else if cur_is_kw c KW_CAST then parse_cast_wrap pe True c
      else if cur_is_kw c KW_WRAP then parse_cast_wrap pe False c
      else if cur_is_kw c KW_LEN then parse_len_ptr pe True c
      else if cur_is_kw c KW_PTR then parse_len_ptr pe False c
      else if cur_is_punct_in PUNCTS_UNARY c then
        pbind pu (\<lambda>e. make_unary (unary_op_of (cur_punct c)) e (px_pos c)) (advance c)
      else parse_postfix pe c)"

section \<open>Binary levels\<close>

definition make_binary :: "ast_node \<Rightarrow> ast_node \<Rightarrow> ast_binary_op \<Rightarrow> nat \<Rightarrow> node_parser" where
  "make_binary lhs rhs op s = node_new s (AST_EXPR_BINARY op lhs rhs)"

text \<open>\<open>while (lhs && cur is one of ops) { advance; rhs = sub(c); lhs = make_binary(...) }\<close>.\<close>

definition binary_one :: "node_parser \<Rightarrow> nat \<Rightarrow> ast_node \<Rightarrow> node_parser" where
  "binary_one sub s lhs c =
     pbind sub (\<lambda>rhs. make_binary lhs rhs (bin_op_of (cur_punct c)) s) (advance c)"

definition binary_loop :: "lex_punct list \<Rightarrow> node_parser \<Rightarrow> nat \<Rightarrow> ast_node \<Rightarrow> node_parser" where
  "binary_loop ops sub s = ploop (cur_is_punct_in ops) (binary_one sub s)"

definition binary_level :: "lex_punct list \<Rightarrow> node_parser \<Rightarrow> node_parser" where
  "binary_level ops sub c = pbind sub (binary_loop ops sub (px_pos c)) c"

definition parse_multiplicative :: "node_parser \<Rightarrow> node_parser" where
  "parse_multiplicative pu = binary_level PUNCTS_MULT pu"

definition parse_additive :: "node_parser \<Rightarrow> node_parser" where
  "parse_additive pu = binary_level PUNCTS_ADD (parse_multiplicative pu)"

definition parse_shift :: "node_parser \<Rightarrow> node_parser" where
  "parse_shift pu = binary_level PUNCTS_SHIFT (parse_additive pu)"

definition parse_relational :: "node_parser \<Rightarrow> node_parser" where
  "parse_relational pu = binary_level PUNCTS_REL (parse_shift pu)"

definition parse_equality :: "node_parser \<Rightarrow> node_parser" where
  "parse_equality pu = binary_level PUNCTS_EQ (parse_relational pu)"

definition parse_bit_and :: "node_parser \<Rightarrow> node_parser" where
  "parse_bit_and pu = binary_level [PUNCT_AMP] (parse_equality pu)"

definition parse_bit_xor :: "node_parser \<Rightarrow> node_parser" where
  "parse_bit_xor pu = binary_level [PUNCT_XOR] (parse_bit_and pu)"

definition parse_bit_or :: "node_parser \<Rightarrow> node_parser" where
  "parse_bit_or pu = binary_level [PUNCT_OR] (parse_bit_xor pu)"

definition parse_logical_and :: "node_parser \<Rightarrow> node_parser" where
  "parse_logical_and pu = binary_level [PUNCT_AND_AND] (parse_bit_or pu)"

definition parse_logical_or :: "node_parser \<Rightarrow> node_parser" where
  "parse_logical_or pu = binary_level [PUNCT_OR_OR] (parse_logical_and pu)"

section \<open>Conditional and assignment expressions\<close>

definition parse_conditional :: "node_parser \<Rightarrow> node_parser \<Rightarrow> node_parser \<Rightarrow> node_parser" where
  "parse_conditional pe pu pc c =
     pbind (parse_logical_or pu) (\<lambda>cond c1.
       if \<not> cur_is_punct c1 PUNCT_QUESTION then p_return cond c1
       else
         pbind pe (\<lambda>a.
           pseq (expect_punct PUNCT_COLON)
             (pbind pc (\<lambda>b. node_new (px_pos c) (AST_EXPR_TERNARY cond a b)))) (advance c1)) c"

definition parse_assignment :: "node_parser \<Rightarrow> node_parser \<Rightarrow> node_parser" where
  "parse_assignment pe pc c =
     pbind pc (\<lambda>target c1.
       if \<not> cur_is_punct_in PUNCTS_ASSIGN c1 then p_return target c1
       else
         pbind pe (\<lambda>v.
           node_new (px_pos c) (AST_EXPR_ASSIGN (assign_op_of (cur_punct c1)) target v)) (advance c1)) c"

section \<open>The recursion\<close>

text \<open>Monotonicity of each function in the parsers it calls.\<close>

named_theorems parse_mono

lemma case_option_mono:
  fixes G :: "('x \<Rightarrow> 'y option) \<Rightarrow> 'a \<Rightarrow> 'c option"
  assumes "mono_option F" and "\<And>x. mono_option (\<lambda>f. G f x)"
  shows "mono_option (\<lambda>f. case y of None \<Rightarrow> F f | Some x \<Rightarrow> G f x)"
  using assms by (cases y) simp_all

lemmas parse_mono_base = option.const_mono case_option_mono call_mono if_mono let_mono pbind_mono pseq_mono popt_mono ploop_mono

lemma comma_mono [partial_function_mono, parse_mono]:
  fixes p :: "('x \<Rightarrow> 'y option) \<Rightarrow> 'a parser"
  assumes "\<And>c. mono_option (\<lambda>f. p f c)"
  shows "mono_option (\<lambda>f. comma_item stop (p f) items c)"
    and "mono_option (\<lambda>f. comma_loop stop (p f) items c)"
    and "mono_option (\<lambda>f. comma_list closer stop (p f) c)"
  unfolding comma_item_def comma_loop_def comma_list_def Let_def
  by (intro parse_mono_base assms)+

lemma parse_type_mono [partial_function_mono, parse_mono]:
  fixes pe :: "('x \<Rightarrow> 'y option) \<Rightarrow> node_parser"
  assumes "\<And>c. mono_option (\<lambda>f. pe f c)"
  shows "mono_option (\<lambda>f. parse_type (pe f) c)"
proof -
  have loop: "mono_option (\<lambda>f. type_postfix_loop (pe f) s base c)" for s base c
    unfolding type_postfix_loop_def type_postfix_def Let_def by (intro parse_mono_base assms)
  show ?thesis
    unfolding parse_type_def Let_def
    by (cases "cur c") (auto intro!: parse_mono_base loop)
qed

lemma parse_postfix_mono [partial_function_mono, parse_mono]:
  fixes pe :: "('x \<Rightarrow> 'y option) \<Rightarrow> node_parser"
  assumes "\<And>c. mono_option (\<lambda>f. pe f c)"
  shows "mono_option (\<lambda>f. parse_postfix (pe f) c)"
proof -
  have fi: "mono_option (\<lambda>f. parse_field_init (pe f) c)" for c
    unfolding parse_field_init_def by (intro parse_mono_base assms)
  have one: "mono_option (\<lambda>f. postfix_one (pe f) s0 e c)" for s0 e c
    unfolding postfix_one_def parse_index_slice_def slice_tail_def parse_call_def parse_struct_init_def Let_def
    by (intro parse_mono_base comma_mono assms fi)
  have prim: "mono_option (\<lambda>f. parse_primary (pe f) c)" for c
    unfolding parse_primary_def parse_paren_def parse_array_literal_def Let_def
    by (cases "cur c") (auto intro!: parse_mono_base comma_mono assms)
  show ?thesis
    unfolding parse_postfix_def postfix_loop_def by (intro parse_mono_base prim one)
qed

lemma parse_unary_mono [partial_function_mono]:
  fixes pe pu :: "('x \<Rightarrow> 'y option) \<Rightarrow> node_parser"
  assumes "\<And>c. mono_option (\<lambda>f. pe f c)" and "\<And>c. mono_option (\<lambda>f. pu f c)"
  shows "mono_option (\<lambda>f. parse_unary (pe f) (pu f) c)"
  unfolding parse_unary_def parse_sizeof_def parse_alignof_def parse_cast_wrap_def parse_len_ptr_def
  by (intro parse_mono_base parse_mono assms)

lemma binary_level_mono [parse_mono]:
  fixes sub :: "('x \<Rightarrow> 'y option) \<Rightarrow> node_parser"
  assumes "\<And>c. mono_option (\<lambda>f. sub f c)"
  shows "mono_option (\<lambda>f. binary_level ops (sub f) c)"
  unfolding binary_level_def binary_loop_def binary_one_def by (intro parse_mono_base assms)

lemma parse_logical_or_mono [parse_mono]:
  fixes pu :: "('x \<Rightarrow> 'y option) \<Rightarrow> node_parser"
  assumes "\<And>c. mono_option (\<lambda>f. pu f c)"
  shows "mono_option (\<lambda>f. parse_logical_or (pu f) c)"
  unfolding parse_logical_or_def parse_logical_and_def parse_bit_or_def parse_bit_xor_def parse_bit_and_def
    parse_equality_def parse_relational_def parse_shift_def parse_additive_def parse_multiplicative_def
  by (intro binary_level_mono assms)

lemma parse_conditional_mono [partial_function_mono]:
  fixes pe pu pc :: "('x \<Rightarrow> 'y option) \<Rightarrow> node_parser"
  assumes "\<And>c. mono_option (\<lambda>f. pe f c)" and "\<And>c. mono_option (\<lambda>f. pu f c)" and "\<And>c. mono_option (\<lambda>f. pc f c)"
  shows "mono_option (\<lambda>f. parse_conditional (pe f) (pu f) (pc f) c)"
  unfolding parse_conditional_def by (intro parse_mono_base parse_mono assms)

lemma parse_assignment_mono [partial_function_mono]:
  fixes pe pc :: "('x \<Rightarrow> 'y option) \<Rightarrow> node_parser"
  assumes "\<And>c. mono_option (\<lambda>f. pe f c)" and "\<And>c. mono_option (\<lambda>f. pc f c)"
  shows "mono_option (\<lambda>f. parse_assignment (pe f) (pc f) c)"
  unfolding parse_assignment_def by (intro parse_mono_base assms)

datatype expr_nt = NT_EXPR | NT_CONDITIONAL | NT_UNARY

partial_function (option) parse_expr_nt :: "expr_nt \<Rightarrow> parse_ctx \<Rightarrow> (ast_node option \<times> parse_ctx) option" where
  "parse_expr_nt nt c =
     (case nt of
        NT_EXPR \<Rightarrow> parse_assignment (parse_expr_nt NT_EXPR) (parse_expr_nt NT_CONDITIONAL) c
      | NT_CONDITIONAL \<Rightarrow>
          parse_conditional (parse_expr_nt NT_EXPR) (parse_expr_nt NT_UNARY) (parse_expr_nt NT_CONDITIONAL) c
      | NT_UNARY \<Rightarrow> parse_unary (parse_expr_nt NT_EXPR) (parse_expr_nt NT_UNARY) c)"

definition parse_expr :: node_parser where
  "parse_expr = parse_expr_nt NT_EXPR"

declare parse_expr_nt.simps [code] consume_balanced_braces.simps [code]

lemma parse_expr_eqs:
  "parse_expr_nt NT_EXPR c = parse_assignment parse_expr (parse_expr_nt NT_CONDITIONAL) c"
  "parse_expr_nt NT_CONDITIONAL c =
     parse_conditional parse_expr (parse_expr_nt NT_UNARY) (parse_expr_nt NT_CONDITIONAL) c"
  "parse_expr_nt NT_UNARY c = parse_unary parse_expr (parse_expr_nt NT_UNARY) c"
  by (simp_all only: parse_expr_nt.simps [of _ c] expr_nt.case parse_expr_def)

end
