(* ===== verification/Grammar.thy ===== *)
theory Grammar
  imports ParseExpr
begin

text \<open>
  The grammar that the parser accepts, as a relation between token positions: \<open>gram T S i j n\<close> says
  that the tokens from index \<open>i\<close> up to index \<open>j\<close> are an \<open>S\<close> with the syntax tree \<open>n\<close>, whose span runs
  from the start of token \<open>i\<close> to the end of token \<open>j - 1\<close>. It mentions neither the parser's context
  nor its functions. It is the grammar of the language specification (section 5.2) except in two
  places, where \<open>parse.c\<close> accepts more: the module declaration of a program may be absent (a comment
  in \<open>parse_program\<close> says so, the specification requires it) and an enum may have no members (the
  comment above \<open>parse_enum_decl\<close> requires one). \<open>ParseProps\<close> states the specification's grammar
  and when an accepted program is in it.
\<close>

section \<open>Tokens by position\<close>

text \<open>The file name of the spans, and the tokens.\<close>

type_synonym tape = "string \<times> lex_token list"

definition tokv :: "tape \<Rightarrow> nat \<Rightarrow> lex_val" where
  "tokv T i = (if i < length (snd T) then tok_val (snd T ! i) else V_EOF)"

definition gnode :: "tape \<Rightarrow> nat \<Rightarrow> nat \<Rightarrow> ast_body \<Rightarrow> ast_node \<Rightarrow> bool" where
  "gnode T i j b n \<longleftrightarrow> nspan n = toks_span (fst T) (snd T) i j \<and> nbody n = b"

section \<open>Sequences\<close>

text \<open>Items one after the other; items separated by commas; an optional item.\<close>

fun chain :: "(nat \<Rightarrow> nat \<Rightarrow> 'a \<Rightarrow> bool) \<Rightarrow> nat \<Rightarrow> nat \<Rightarrow> 'a list \<Rightarrow> bool" where
  "chain P i j [] = (i = j)"
| "chain P i j (x # xs) = (\<exists>m. P i m x \<and> chain P m j xs)"

fun commas :: "tape \<Rightarrow> (nat \<Rightarrow> nat \<Rightarrow> 'a \<Rightarrow> bool) \<Rightarrow> nat \<Rightarrow> nat \<Rightarrow> 'a list \<Rightarrow> bool" where
  "commas T P i j [] = False"
| "commas T P i j [x] = P i j x"
| "commas T P i j (x # y # xs) = (\<exists>m. P i m x \<and> tokv T m = V_PUNCT PUNCT_COMMA \<and> commas T P (Suc m) j (y # xs))"

fun gopt :: "(nat \<Rightarrow> nat \<Rightarrow> 'a \<Rightarrow> bool) \<Rightarrow> nat \<Rightarrow> nat \<Rightarrow> 'a option \<Rightarrow> bool" where
  "gopt P i j None = (i = j)"
| "gopt P i j (Some x) = P i j x"

definition opt_comma :: "tape \<Rightarrow> nat \<Rightarrow> nat \<Rightarrow> bool" where
  "opt_comma T i j \<longleftrightarrow> j = i \<or> tokv T i = V_PUNCT PUNCT_COMMA \<and> j = Suc i"

definition args :: "tape \<Rightarrow> (nat \<Rightarrow> nat \<Rightarrow> 'a \<Rightarrow> bool) \<Rightarrow> nat \<Rightarrow> nat \<Rightarrow> 'a list \<Rightarrow> bool" where
  "args T P i j xs \<longleftrightarrow> (if xs = [] then i = j else commas T P i j xs)"

text \<open>A list that may end in a comma.\<close>

definition items :: "tape \<Rightarrow> (nat \<Rightarrow> nat \<Rightarrow> 'a \<Rightarrow> bool) \<Rightarrow> nat \<Rightarrow> nat \<Rightarrow> 'a list \<Rightarrow> bool" where
  "items T P i j xs \<longleftrightarrow> (if xs = [] then i = j else \<exists>m. commas T P i m xs \<and> opt_comma T m j)"

lemma chain_mono [mono]: "(\<And>i j x. P i j x \<longrightarrow> Q i j x) \<Longrightarrow> chain P i j xs \<longrightarrow> chain Q i j xs"
proof (induction xs arbitrary: i)
  case (Cons x xs)
  then show ?case by (simp only: chain.simps) blast
qed simp

lemma commas_mono [mono]: "(\<And>i j x. P i j x \<longrightarrow> Q i j x) \<Longrightarrow> commas T P i j xs \<longrightarrow> commas T Q i j xs"
proof (induction T P i j xs rule: commas.induct)
  case (3 T P i j x y xs)
  then show ?case by (simp only: commas.simps) blast
qed simp_all

lemma gopt_mono [mono]: "(\<And>i j x. P i j x \<longrightarrow> Q i j x) \<Longrightarrow> gopt P i j x \<longrightarrow> gopt Q i j x"
  by (cases x) auto

lemma args_mono [mono]: "(\<And>i j x. P i j x \<longrightarrow> Q i j x) \<Longrightarrow> args T P i j xs \<longrightarrow> args T Q i j xs"
  unfolding args_def using commas_mono [of P Q T i j xs] by auto

lemma items_mono [mono]: "(\<And>i j x. P i j x \<longrightarrow> Q i j x) \<Longrightarrow> items T P i j xs \<longrightarrow> items T Q i j xs"
  unfolding items_def using commas_mono [of P Q T i _ xs] by (cases "xs = []") (simp_all, blast)

lemma chain_snoc: "chain P i m xs \<Longrightarrow> P m j x \<Longrightarrow> chain P i j (xs @ [x])"
  by (induction xs arbitrary: i) auto

lemma commas_snoc:
  "commas T P i m xs \<Longrightarrow> tokv T m = V_PUNCT PUNCT_COMMA \<Longrightarrow> P (Suc m) j x \<Longrightarrow> commas T P i j (xs @ [x])"
  by (induction T P i m xs rule: commas.induct) auto

fun dotted :: "tape \<Rightarrow> nat \<Rightarrow> nat \<Rightarrow> string list \<Rightarrow> bool" where
  "dotted T i j [] = False"
| "dotted T i j [x] = (tokv T i = V_IDENT x \<and> j = Suc i)"
| "dotted T i j (x # y # xs) =
     (tokv T i = V_IDENT x \<and> tokv T (Suc i) = V_PUNCT PUNCT_DOT \<and> dotted T (Suc (Suc i)) j (y # xs))"

lemma dotted_snoc:
  "dotted T i m xs \<Longrightarrow> tokv T m = V_PUNCT PUNCT_DOT \<Longrightarrow> tokv T (Suc m) = V_IDENT x \<Longrightarrow>
     dotted T i (Suc (Suc m)) (xs @ [x])"
  by (induction T i m xs rule: dotted.induct) auto

section \<open>The grammar\<close>

datatype gsym =
    G_PRIMARY | G_POSTFIX | G_FIELD_INIT | G_UNARY | G_BIN nat | G_COND | G_EXPR | G_TYPE
  | G_BLOCK | G_STMT | G_LOCAL_DECL | G_IF | G_CLAUSE
  | G_FIELD | G_MEMBER | G_PARAM | G_MODULE | G_IMPORT | G_DECL

text \<open>The binary levels, from the tightest.\<close>

definition bin_levels :: "lex_punct list list" where
  "bin_levels =
    [PUNCTS_MULT, PUNCTS_ADD, PUNCTS_SHIFT, PUNCTS_REL, PUNCTS_EQ,
     [PUNCT_AMP], [PUNCT_XOR], [PUNCT_OR], [PUNCT_AND_AND], [PUNCT_OR_OR]]"

text \<open>What the operand of \<open>sizeof\<close> must begin with to be a type: a keyword of a type, or the name of
  a struct or enum of the module.\<close>

definition type_operand :: "tape \<Rightarrow> nat \<Rightarrow> bool" where
  "type_operand T i \<longleftrightarrow>
     (case tokv T i of
        V_KEYWORD k \<Rightarrow> ast_prim_from_keyword k \<noteq> None
      | V_IDENT name \<Rightarrow> name \<in> set (prescan_from 0 (snd T))
      | _ \<Rightarrow> False)"

definition opt_pub :: "tape \<Rightarrow> nat \<Rightarrow> nat \<Rightarrow> bool \<Rightarrow> bool" where
  "opt_pub T i j is_pub \<longleftrightarrow> (if is_pub then tokv T i = V_KEYWORD KW_PUB \<and> j = Suc i else j = i)"

inductive gram :: "tape \<Rightarrow> gsym \<Rightarrow> nat \<Rightarrow> nat \<Rightarrow> ast_node \<Rightarrow> bool" for T where
  g_int: "tokv T i = V_INT ty v m \<Longrightarrow> gnode T i (Suc i) (AST_EXPR_INT_LITERAL ty v m) n \<Longrightarrow>
    gram T G_PRIMARY i (Suc i) n"
| g_str: "tokv T i = V_STR bs \<Longrightarrow> gnode T i (Suc i) (AST_EXPR_STR_LITERAL bs) n \<Longrightarrow>
    gram T G_PRIMARY i (Suc i) n"
| g_ident: "tokv T i = V_IDENT x \<Longrightarrow> gnode T i (Suc i) (AST_EXPR_IDENT x) n \<Longrightarrow>
    gram T G_PRIMARY i (Suc i) n"
| g_true: "tokv T i = V_KEYWORD KW_TRUE \<Longrightarrow> gnode T i (Suc i) (AST_EXPR_BOOL_LITERAL True) n \<Longrightarrow>
    gram T G_PRIMARY i (Suc i) n"
| g_false: "tokv T i = V_KEYWORD KW_FALSE \<Longrightarrow> gnode T i (Suc i) (AST_EXPR_BOOL_LITERAL False) n \<Longrightarrow>
    gram T G_PRIMARY i (Suc i) n"
| g_null: "tokv T i = V_KEYWORD KW_NULL \<Longrightarrow> gnode T i (Suc i) AST_EXPR_NULL_LITERAL n \<Longrightarrow>
    gram T G_PRIMARY i (Suc i) n"
| g_paren: "tokv T i = V_PUNCT PUNCT_LPAREN \<Longrightarrow> gram T G_EXPR (Suc i) j e \<Longrightarrow>
    tokv T j = V_PUNCT PUNCT_RPAREN \<Longrightarrow> gnode T i (Suc j) (AST_EXPR_PAREN e) n \<Longrightarrow>
    gram T G_PRIMARY i (Suc j) n"
| g_array: "tokv T i = V_PUNCT PUNCT_LBRACKET \<Longrightarrow> items T (gram T G_EXPR) (Suc i) j es \<Longrightarrow>
    tokv T j = V_PUNCT PUNCT_RBRACKET \<Longrightarrow> gnode T i (Suc j) (AST_EXPR_ARRAY_LITERAL es None) n \<Longrightarrow>
    gram T G_PRIMARY i (Suc j) n"
| g_repeat: "tokv T i = V_PUNCT PUNCT_LBRACKET \<Longrightarrow> gram T G_EXPR (Suc i) k e \<Longrightarrow>
    tokv T k = V_PUNCT PUNCT_SEMI \<Longrightarrow> gram T G_EXPR (Suc k) j c \<Longrightarrow> tokv T j = V_PUNCT PUNCT_RBRACKET \<Longrightarrow>
    gnode T i (Suc j) (AST_EXPR_ARRAY_LITERAL [e] (Some c)) n \<Longrightarrow> gram T G_PRIMARY i (Suc j) n"

| g_primary: "gram T G_PRIMARY i j n \<Longrightarrow> gram T G_POSTFIX i j n"
| g_index: "gram T G_POSTFIX i k b \<Longrightarrow> tokv T k = V_PUNCT PUNCT_LBRACKET \<Longrightarrow> gram T G_EXPR (Suc k) j e \<Longrightarrow>
    tokv T j = V_PUNCT PUNCT_RBRACKET \<Longrightarrow> gnode T i (Suc j) (AST_EXPR_INDEX b e) n \<Longrightarrow>
    gram T G_POSTFIX i (Suc j) n"
| g_slice: "gram T G_POSTFIX i k b \<Longrightarrow> tokv T k = V_PUNCT PUNCT_LBRACKET \<Longrightarrow>
    gopt (gram T G_EXPR) (Suc k) l lo \<Longrightarrow> tokv T l = V_PUNCT PUNCT_DOT_DOT \<Longrightarrow>
    gopt (gram T G_EXPR) (Suc l) j hi \<Longrightarrow> tokv T j = V_PUNCT PUNCT_RBRACKET \<Longrightarrow>
    gnode T i (Suc j) (AST_EXPR_SLICE b lo hi) n \<Longrightarrow> gram T G_POSTFIX i (Suc j) n"
| g_call: "gram T G_POSTFIX i k b \<Longrightarrow> tokv T k = V_PUNCT PUNCT_LPAREN \<Longrightarrow>
    args T (gram T G_EXPR) (Suc k) j es \<Longrightarrow> tokv T j = V_PUNCT PUNCT_RPAREN \<Longrightarrow>
    gnode T i (Suc j) (AST_EXPR_CALL b es) n \<Longrightarrow> gram T G_POSTFIX i (Suc j) n"
| g_member: "gram T G_POSTFIX i k b \<Longrightarrow> tokv T k = V_PUNCT PUNCT_DOT \<Longrightarrow> tokv T (Suc k) = V_IDENT x \<Longrightarrow>
    gnode T i (Suc (Suc k)) (AST_EXPR_MEMBER b x) n \<Longrightarrow> gram T G_POSTFIX i (Suc (Suc k)) n"
| g_arrow: "gram T G_POSTFIX i k b \<Longrightarrow> tokv T k = V_PUNCT PUNCT_ARROW \<Longrightarrow> tokv T (Suc k) = V_IDENT x \<Longrightarrow>
    gnode T i (Suc (Suc k)) (AST_EXPR_ARROW b x) n \<Longrightarrow> gram T G_POSTFIX i (Suc (Suc k)) n"
| g_struct_init: "gram T G_POSTFIX i k b \<Longrightarrow> tokv T k = V_PUNCT PUNCT_LBRACE \<Longrightarrow>
    items T (gram T G_FIELD_INIT) (Suc k) j fs \<Longrightarrow> tokv T j = V_PUNCT PUNCT_RBRACE \<Longrightarrow>
    gnode T i (Suc j) (AST_EXPR_STRUCT_INIT b fs) n \<Longrightarrow> gram T G_POSTFIX i (Suc j) n"
| g_field_init: "tokv T i = V_IDENT x \<Longrightarrow> tokv T (Suc i) = V_PUNCT PUNCT_COLON \<Longrightarrow>
    gram T G_EXPR (Suc (Suc i)) j e \<Longrightarrow> gnode T i j (AST_FIELD_INIT x e) n \<Longrightarrow> gram T G_FIELD_INIT i j n"

| g_postfix: "gram T G_POSTFIX i j n \<Longrightarrow> gram T G_UNARY i j n"
| g_sizeof_type: "tokv T i = V_KEYWORD KW_SIZEOF \<Longrightarrow> tokv T (Suc i) = V_PUNCT PUNCT_LPAREN \<Longrightarrow>
    type_operand T (Suc (Suc i)) \<Longrightarrow> gram T G_TYPE (Suc (Suc i)) j t \<Longrightarrow> tokv T j = V_PUNCT PUNCT_RPAREN \<Longrightarrow>
    gnode T i (Suc j) (AST_EXPR_SIZEOF_TYPE t) n \<Longrightarrow> gram T G_UNARY i (Suc j) n"
| g_sizeof_expr: "tokv T i = V_KEYWORD KW_SIZEOF \<Longrightarrow> tokv T (Suc i) = V_PUNCT PUNCT_LPAREN \<Longrightarrow>
    gram T G_EXPR (Suc (Suc i)) j e \<Longrightarrow> tokv T j = V_PUNCT PUNCT_RPAREN \<Longrightarrow>
    gnode T i (Suc j) (AST_EXPR_SIZEOF_EXPR e) n \<Longrightarrow> gram T G_UNARY i (Suc j) n"
| g_alignof: "tokv T i = V_KEYWORD KW_ALIGNOF \<Longrightarrow> tokv T (Suc i) = V_PUNCT PUNCT_LPAREN \<Longrightarrow>
    gram T G_TYPE (Suc (Suc i)) j t \<Longrightarrow> tokv T j = V_PUNCT PUNCT_RPAREN \<Longrightarrow>
    gnode T i (Suc j) (AST_EXPR_ALIGNOF t) n \<Longrightarrow> gram T G_UNARY i (Suc j) n"
| g_cast: "tokv T i = V_KEYWORD (if is_cast then KW_CAST else KW_WRAP) \<Longrightarrow> tokv T (Suc i) = V_PUNCT PUNCT_LT \<Longrightarrow>
    gram T G_TYPE (Suc (Suc i)) k t \<Longrightarrow> tokv T k = V_PUNCT PUNCT_GT \<Longrightarrow> tokv T (Suc k) = V_PUNCT PUNCT_LPAREN \<Longrightarrow>
    gram T G_EXPR (Suc (Suc k)) j e \<Longrightarrow> tokv T j = V_PUNCT PUNCT_RPAREN \<Longrightarrow>
    gnode T i (Suc j) (if is_cast then AST_EXPR_CAST t e else AST_EXPR_WRAP t e) n \<Longrightarrow>
    gram T G_UNARY i (Suc j) n"
| g_len: "tokv T i = V_KEYWORD (if is_len then KW_LEN else KW_PTR) \<Longrightarrow> tokv T (Suc i) = V_PUNCT PUNCT_LPAREN \<Longrightarrow>
    gram T G_EXPR (Suc (Suc i)) j e \<Longrightarrow> tokv T j = V_PUNCT PUNCT_RPAREN \<Longrightarrow>
    gnode T i (Suc j) (if is_len then AST_EXPR_LEN e else AST_EXPR_PTR e) n \<Longrightarrow> gram T G_UNARY i (Suc j) n"
| g_unary: "tokv T i = V_PUNCT p \<Longrightarrow> p \<in> set PUNCTS_UNARY \<Longrightarrow> gram T G_UNARY (Suc i) j e \<Longrightarrow>
    gnode T i j (AST_EXPR_UNARY (unary_op_of p) e) n \<Longrightarrow> gram T G_UNARY i j n"

| g_bin_0: "gram T G_UNARY i j n \<Longrightarrow> gram T (G_BIN 0) i j n"
| g_bin_up: "k < length bin_levels \<Longrightarrow> gram T (G_BIN k) i j n \<Longrightarrow> gram T (G_BIN (Suc k)) i j n"
| g_bin: "k < length bin_levels \<Longrightarrow> gram T (G_BIN (Suc k)) i m l \<Longrightarrow> tokv T m = V_PUNCT p \<Longrightarrow>
    p \<in> set (bin_levels ! k) \<Longrightarrow> gram T (G_BIN k) (Suc m) j r \<Longrightarrow>
    gnode T i j (AST_EXPR_BINARY (bin_op_of p) l r) n \<Longrightarrow> gram T (G_BIN (Suc k)) i j n"

| g_logical_or: "gram T (G_BIN (length bin_levels)) i j n \<Longrightarrow> gram T G_COND i j n"
| g_ternary: "gram T (G_BIN (length bin_levels)) i k cond \<Longrightarrow> tokv T k = V_PUNCT PUNCT_QUESTION \<Longrightarrow>
    gram T G_EXPR (Suc k) l a \<Longrightarrow> tokv T l = V_PUNCT PUNCT_COLON \<Longrightarrow> gram T G_COND (Suc l) j b \<Longrightarrow>
    gnode T i j (AST_EXPR_TERNARY cond a b) n \<Longrightarrow> gram T G_COND i j n"
| g_conditional: "gram T G_COND i j n \<Longrightarrow> gram T G_EXPR i j n"
| g_assign: "gram T G_COND i k t \<Longrightarrow> tokv T k = V_PUNCT p \<Longrightarrow> p \<in> set PUNCTS_ASSIGN \<Longrightarrow>
    gram T G_EXPR (Suc k) j v \<Longrightarrow> gnode T i j (AST_EXPR_ASSIGN (assign_op_of p) t v) n \<Longrightarrow>
    gram T G_EXPR i j n"

| g_prim: "tokv T i = V_KEYWORD k \<Longrightarrow> ast_prim_from_keyword k = Some p \<Longrightarrow>
    gnode T i (Suc i) (AST_TYPE_PRIM p) n \<Longrightarrow> gram T G_TYPE i (Suc i) n"
| g_named: "dotted T i j name \<Longrightarrow> gnode T i j (AST_TYPE_NAMED name) n \<Longrightarrow> gram T G_TYPE i j n"
| g_ptr_type: "gram T G_TYPE i k b \<Longrightarrow> tokv T k = V_PUNCT PUNCT_STAR \<Longrightarrow>
    gnode T i (Suc k) (AST_TYPE_PTR b) n \<Longrightarrow> gram T G_TYPE i (Suc k) n"
| g_slice_type: "gram T G_TYPE i k b \<Longrightarrow> tokv T k = V_PUNCT PUNCT_LBRACKET \<Longrightarrow>
    tokv T (Suc k) = V_PUNCT PUNCT_RBRACKET \<Longrightarrow> gnode T i (Suc (Suc k)) (AST_TYPE_SLICE b) n \<Longrightarrow>
    gram T G_TYPE i (Suc (Suc k)) n"
| g_array_type: "gram T G_TYPE i k b \<Longrightarrow> tokv T k = V_PUNCT PUNCT_LBRACKET \<Longrightarrow> gram T G_EXPR (Suc k) j e \<Longrightarrow>
    tokv T j = V_PUNCT PUNCT_RBRACKET \<Longrightarrow> gnode T i (Suc j) (AST_TYPE_ARRAY b e) n \<Longrightarrow>
    gram T G_TYPE i (Suc j) n"

| g_block: "tokv T i = V_PUNCT PUNCT_LBRACE \<Longrightarrow> chain (gram T G_STMT) (Suc i) j ss \<Longrightarrow>
    tokv T j = V_PUNCT PUNCT_RBRACE \<Longrightarrow> gnode T i (Suc j) (AST_BLOCK ss) n \<Longrightarrow> gram T G_BLOCK i (Suc j) n"
| g_var: "tokv T i = V_KEYWORD KW_VAR \<Longrightarrow> tokv T (Suc i) = V_IDENT x \<Longrightarrow>
    tokv T (Suc (Suc i)) = V_PUNCT PUNCT_COLON \<Longrightarrow> gram T G_TYPE (Suc (Suc (Suc i))) k ty \<Longrightarrow>
    gopt (\<lambda>k j e. tokv T k = V_PUNCT PUNCT_ASSIGN \<and> gram T G_EXPR (Suc k) j e) k j ini \<Longrightarrow>
    tokv T j = V_PUNCT PUNCT_SEMI \<Longrightarrow> gnode T i (Suc j) (AST_VAR_DECL x ty ini) n \<Longrightarrow>
    gram T G_LOCAL_DECL i (Suc j) n"
| g_const: "tokv T i = V_KEYWORD KW_CONST \<Longrightarrow> tokv T (Suc i) = V_IDENT x \<Longrightarrow>
    tokv T (Suc (Suc i)) = V_PUNCT PUNCT_COLON \<Longrightarrow> gram T G_TYPE (Suc (Suc (Suc i))) k ty \<Longrightarrow>
    tokv T k = V_PUNCT PUNCT_ASSIGN \<Longrightarrow> gram T G_EXPR (Suc k) j e \<Longrightarrow>
    tokv T j = V_PUNCT PUNCT_SEMI \<Longrightarrow> gnode T i (Suc j) (AST_CONST_DECL x ty e) n \<Longrightarrow>
    gram T G_LOCAL_DECL i (Suc j) n"
| g_if: "tokv T i = V_KEYWORD KW_IF \<Longrightarrow> tokv T (Suc i) = V_PUNCT PUNCT_LPAREN \<Longrightarrow>
    gram T G_EXPR (Suc (Suc i)) k cond \<Longrightarrow> tokv T k = V_PUNCT PUNCT_RPAREN \<Longrightarrow> gram T G_BLOCK (Suc k) l a \<Longrightarrow>
    gopt (\<lambda>l j b. tokv T l = V_KEYWORD KW_ELSE \<and> (gram T G_IF (Suc l) j b \<or> gram T G_BLOCK (Suc l) j b)) l j b \<Longrightarrow>
    gnode T i j (AST_IF cond a b) n \<Longrightarrow> gram T G_IF i j n"
| g_case: "tokv T i = V_KEYWORD KW_CASE \<Longrightarrow> gram T G_EXPR (Suc i) k v \<Longrightarrow> tokv T k = V_PUNCT PUNCT_COLON \<Longrightarrow>
    gram T G_BLOCK (Suc k) j b \<Longrightarrow> gnode T i j (AST_CASE_CLAUSE v b) n \<Longrightarrow> gram T G_CLAUSE i j n"
| g_default: "tokv T i = V_KEYWORD KW_DEFAULT \<Longrightarrow> tokv T (Suc i) = V_PUNCT PUNCT_COLON \<Longrightarrow>
    gram T G_BLOCK (Suc (Suc i)) j b \<Longrightarrow> gnode T i j (AST_DEFAULT_CLAUSE b) n \<Longrightarrow> gram T G_CLAUSE i j n"

| g_block_stmt: "gram T G_BLOCK i j n \<Longrightarrow> gram T G_STMT i j n"
| g_decl_stmt: "gram T G_LOCAL_DECL i j n \<Longrightarrow> gram T G_STMT i j n"
| g_if_stmt: "gram T G_IF i j n \<Longrightarrow> gram T G_STMT i j n"
| g_empty: "tokv T i = V_PUNCT PUNCT_SEMI \<Longrightarrow> gnode T i (Suc i) AST_EMPTY_STMT n \<Longrightarrow> gram T G_STMT i (Suc i) n"
| g_while: "tokv T i = V_KEYWORD KW_WHILE \<Longrightarrow> tokv T (Suc i) = V_PUNCT PUNCT_LPAREN \<Longrightarrow>
    gram T G_EXPR (Suc (Suc i)) k cond \<Longrightarrow> tokv T k = V_PUNCT PUNCT_RPAREN \<Longrightarrow> gram T G_BLOCK (Suc k) j b \<Longrightarrow>
    gnode T i j (AST_WHILE cond b) n \<Longrightarrow> gram T G_STMT i j n"
| g_for: "tokv T i = V_KEYWORD KW_FOR \<Longrightarrow> tokv T (Suc i) = V_PUNCT PUNCT_LPAREN \<Longrightarrow>
    (ini = None \<and> tokv T (Suc (Suc i)) = V_PUNCT PUNCT_SEMI \<and> k = Suc (Suc (Suc i)) \<or>
     (\<exists>d. ini = Some d \<and> gram T G_LOCAL_DECL (Suc (Suc i)) k d) \<or>
     (\<exists>d k'. ini = Some d \<and> gram T G_EXPR (Suc (Suc i)) k' d \<and> tokv T k' = V_PUNCT PUNCT_SEMI \<and> k = Suc k')) \<Longrightarrow>
    gopt (gram T G_EXPR) k l cond \<Longrightarrow> tokv T l = V_PUNCT PUNCT_SEMI \<Longrightarrow>
    gopt (gram T G_EXPR) (Suc l) m st \<Longrightarrow> tokv T m = V_PUNCT PUNCT_RPAREN \<Longrightarrow> gram T G_BLOCK (Suc m) j b \<Longrightarrow>
    gnode T i j (AST_FOR ini cond st b) n \<Longrightarrow> gram T G_STMT i j n"
| g_switch: "tokv T i = V_KEYWORD KW_SWITCH \<Longrightarrow> tokv T (Suc i) = V_PUNCT PUNCT_LPAREN \<Longrightarrow>
    gram T G_EXPR (Suc (Suc i)) k sel \<Longrightarrow> tokv T k = V_PUNCT PUNCT_RPAREN \<Longrightarrow>
    tokv T (Suc k) = V_PUNCT PUNCT_LBRACE \<Longrightarrow> chain (gram T G_CLAUSE) (Suc (Suc k)) j cs \<Longrightarrow>
    tokv T j = V_PUNCT PUNCT_RBRACE \<Longrightarrow> gnode T i (Suc j) (AST_SWITCH sel cs) n \<Longrightarrow> gram T G_STMT i (Suc j) n"
| g_break: "tokv T i = V_KEYWORD (if is_break then KW_BREAK else KW_CONTINUE) \<Longrightarrow>
    tokv T (Suc i) = V_PUNCT PUNCT_SEMI \<Longrightarrow>
    gnode T i (Suc (Suc i)) (if is_break then AST_BREAK else AST_CONTINUE) n \<Longrightarrow> gram T G_STMT i (Suc (Suc i)) n"
| g_return: "tokv T i = V_KEYWORD KW_RETURN \<Longrightarrow> gopt (gram T G_EXPR) (Suc i) j v \<Longrightarrow>
    tokv T j = V_PUNCT PUNCT_SEMI \<Longrightarrow> gnode T i (Suc j) (AST_RETURN v) n \<Longrightarrow> gram T G_STMT i (Suc j) n"
| g_expr_stmt: "gram T G_EXPR i j e \<Longrightarrow> tokv T j = V_PUNCT PUNCT_SEMI \<Longrightarrow>
    gnode T i (Suc j) (AST_EXPR_STMT e) n \<Longrightarrow> gram T G_STMT i (Suc j) n"

| g_module: "tokv T i = V_KEYWORD KW_MODULE \<Longrightarrow> dotted T (Suc i) j name \<Longrightarrow> tokv T j = V_PUNCT PUNCT_SEMI \<Longrightarrow>
    gnode T i (Suc j) (AST_MODULE_DECL name) n \<Longrightarrow> gram T G_MODULE i (Suc j) n"
| g_import: "tokv T i = V_KEYWORD KW_IMPORT \<Longrightarrow> dotted T (Suc i) j name \<Longrightarrow> tokv T j = V_PUNCT PUNCT_SEMI \<Longrightarrow>
    gnode T i (Suc j) (AST_IMPORT_DECL name) n \<Longrightarrow> gram T G_IMPORT i (Suc j) n"
| g_field: "tokv T i = V_IDENT x \<Longrightarrow> tokv T (Suc i) = V_PUNCT PUNCT_COLON \<Longrightarrow>
    gram T G_TYPE (Suc (Suc i)) j ty \<Longrightarrow> tokv T j = V_PUNCT PUNCT_SEMI \<Longrightarrow>
    gnode T i (Suc j) (AST_FIELD_DECL x ty) n \<Longrightarrow> gram T G_FIELD i (Suc j) n"
| g_enum_member: "tokv T i = V_IDENT x \<Longrightarrow>
    gopt (\<lambda>k j e. tokv T k = V_PUNCT PUNCT_ASSIGN \<and> gram T G_EXPR (Suc k) j e) (Suc i) j v \<Longrightarrow>
    gnode T i j (AST_ENUM_MEMBER x v) n \<Longrightarrow> gram T G_MEMBER i j n"
| g_param: "tokv T i = V_IDENT x \<Longrightarrow> tokv T (Suc i) = V_PUNCT PUNCT_COLON \<Longrightarrow>
    gram T G_TYPE (Suc (Suc i)) j ty \<Longrightarrow> gnode T i j (AST_PARAM x ty) n \<Longrightarrow> gram T G_PARAM i j n"

| g_struct_decl: "opt_pub T i k is_pub \<Longrightarrow> tokv T k = V_KEYWORD KW_STRUCT \<Longrightarrow> tokv T (Suc k) = V_IDENT x \<Longrightarrow>
    tokv T (Suc (Suc k)) = V_PUNCT PUNCT_LBRACE \<Longrightarrow> chain (gram T G_FIELD) (Suc (Suc (Suc k))) j fs \<Longrightarrow>
    tokv T j = V_PUNCT PUNCT_RBRACE \<Longrightarrow> gnode T k (Suc j) (AST_STRUCT_DECL x fs is_pub) n \<Longrightarrow>
    gram T G_DECL i (Suc j) n"
| g_enum_decl: "opt_pub T i k is_pub \<Longrightarrow> tokv T k = V_KEYWORD KW_ENUM \<Longrightarrow> tokv T (Suc k) = V_IDENT x \<Longrightarrow>
    tokv T (Suc (Suc k)) = V_PUNCT PUNCT_COLON \<Longrightarrow> tokv T (Suc (Suc (Suc k))) = V_KEYWORD w \<Longrightarrow>
    ast_prim_from_keyword w = Some p \<Longrightarrow> p \<notin> {AST_PRIM_VOID, AST_PRIM_BOOL, AST_PRIM_STR} \<Longrightarrow>
    nbody u = AST_TYPE_PRIM p \<Longrightarrow> nspan u = tok_sp (snd T) (Suc (Suc (Suc k))) \<Longrightarrow>
    tokv T (Suc (Suc (Suc (Suc k)))) = V_PUNCT PUNCT_LBRACE \<Longrightarrow>
    items T (gram T G_MEMBER) (Suc (Suc (Suc (Suc (Suc k))))) j ms \<Longrightarrow> tokv T j = V_PUNCT PUNCT_RBRACE \<Longrightarrow>
    gnode T k (Suc j) (AST_ENUM_DECL x u ms is_pub) n \<Longrightarrow> gram T G_DECL i (Suc j) n"
| g_fn_decl: "opt_pub T i k is_pub \<Longrightarrow> tokv T k = V_KEYWORD KW_FN \<Longrightarrow> tokv T (Suc k) = V_IDENT x \<Longrightarrow>
    tokv T (Suc (Suc k)) = V_PUNCT PUNCT_LPAREN \<Longrightarrow> args T (gram T G_PARAM) (Suc (Suc (Suc k))) l ps \<Longrightarrow>
    tokv T l = V_PUNCT PUNCT_RPAREN \<Longrightarrow> tokv T (Suc l) = V_PUNCT PUNCT_ARROW \<Longrightarrow>
    gram T G_TYPE (Suc (Suc l)) m ret \<Longrightarrow> gram T G_BLOCK m j b \<Longrightarrow>
    gnode T k j (AST_FN_DECL x ps ret b is_pub) n \<Longrightarrow> gram T G_DECL i j n"
| g_global_var: "opt_pub T i k is_pub \<Longrightarrow> tokv T k = V_KEYWORD KW_VAR \<Longrightarrow> tokv T (Suc k) = V_IDENT x \<Longrightarrow>
    tokv T (Suc (Suc k)) = V_PUNCT PUNCT_COLON \<Longrightarrow> gram T G_TYPE (Suc (Suc (Suc k))) l ty \<Longrightarrow>
    gopt (\<lambda>k j e. tokv T k = V_PUNCT PUNCT_ASSIGN \<and> gram T G_EXPR (Suc k) j e) l j ini \<Longrightarrow>
    tokv T j = V_PUNCT PUNCT_SEMI \<Longrightarrow> gnode T k (Suc j) (AST_GLOBAL_VAR_DECL x ty ini is_pub) n \<Longrightarrow>
    gram T G_DECL i (Suc j) n"
| g_global_const: "opt_pub T i k is_pub \<Longrightarrow> tokv T k = V_KEYWORD KW_CONST \<Longrightarrow> tokv T (Suc k) = V_IDENT x \<Longrightarrow>
    tokv T (Suc (Suc k)) = V_PUNCT PUNCT_COLON \<Longrightarrow> gram T G_TYPE (Suc (Suc (Suc k))) l ty \<Longrightarrow>
    tokv T l = V_PUNCT PUNCT_ASSIGN \<Longrightarrow> gram T G_EXPR (Suc l) j e \<Longrightarrow>
    tokv T j = V_PUNCT PUNCT_SEMI \<Longrightarrow> gnode T k (Suc j) (AST_GLOBAL_CONST_DECL x ty e is_pub) n \<Longrightarrow>
    gram T G_DECL i (Suc j) n"

text \<open>A whole token stream, as the parser accepts it: a module declaration that may be absent, imports,
  declarations, the end.\<close>

definition gprogram :: "tape \<Rightarrow> ast_node \<Rightarrow> bool" where
  "gprogram T n \<longleftrightarrow>
     (\<exists>m imports decls i j k.
        gopt (gram T G_MODULE) 0 i m \<and> chain (gram T G_IMPORT) i j imports \<and>
        chain (gram T G_DECL) j k decls \<and> k < length (snd T) \<and> tokv T k = V_EOF \<and>
        gnode T 0 (length (snd T)) (AST_PROGRAM m imports decls) n)"

end
