(* ===== verification/ParseContract.thy ===== *)
theory ParseContract
  imports Grammar
begin

text \<open>
  What every parse function promises, and the rules that compose the promises: a call returns, moves
  forward, keeps the context well formed and its scopes balanced, reports a record when it returns
  \<open>NULL\<close>, and when it reports nothing its result is in the grammar. The loops end because each round
  consumes a token.
\<close>

section \<open>Contexts\<close>

definition syn_codes :: "string list" where
  "syn_codes = [''AIC-S0101'', ''AIC-S0102'', ''AIC-S0103'', ''AIC-S0104'']"

text \<open>A span that a record may carry: tokens of the stream, or the gap before its end.\<close>

definition syn_span :: "tape \<Rightarrow> diag_span \<Rightarrow> bool" where
  "syn_span T sp \<longleftrightarrow>
     (\<exists>s e. s < length (snd T) \<and> e \<le> length (snd T) \<and> sp = toks_span (fst T) (snd T) s e) \<or>
     (\<exists>i. 0 < i \<and> i < length (snd T) \<and> tokv T i = V_EOF \<and>
        sp = (let a = span_end (tok_sp (snd T) (i - 1)); b = span_end (tok_sp (snd T) i) in
              diag_span_new_range (fst T) (pos_line a) (pos_col a) (pos_offset a)
                (pos_line b) (pos_col b) (pos_offset b)))"

definition syn_record :: "string \<Rightarrow> string \<Rightarrow> diag_span \<Rightarrow> bool \<Rightarrow> diag_record" where
  "syn_record code message span derived =
     diag_record_new\<lparr>rec_code := Some code, rec_severity := Some ''error'', rec_phase := Some ''syntax'',
       rec_message := Some message, rec_primary_span := Some span,
       rec_recovery := Some (if derived then ''recovery_derived'' else ''authoritative'')\<rparr>"

text \<open>The first record is authoritative, the others derive from the recovery.\<close>

definition recs_ok :: "tape \<Rightarrow> diag_record list \<Rightarrow> bool" where
  "recs_ok T rs \<longleftrightarrow>
     (\<forall>i < length rs. \<exists>code message sp.
        code \<in> set syn_codes \<and> syn_span T sp \<and> rs ! i = syn_record code message sp (0 < i))"

definition wf :: "tape \<Rightarrow> parse_ctx \<Rightarrow> bool" where
  "wf T c \<longleftrightarrow>
     px_file c = fst T \<and> px_tokens c = snd T \<and> px_pos c < length (snd T) \<and>
     tok_val (last (snd T)) = V_EOF \<and> px_type_names c = prescan_from 0 (snd T) \<and>
     px_seen c = (px_records c \<noteq> []) \<and> recs_ok T (px_records c)"

fun scopes_ext :: "scope list \<Rightarrow> scope list \<Rightarrow> bool" where
  "scopes_ext [] ys = (ys = [])"
| "scopes_ext (x # xs) ys = (\<exists>new. ys = (x @ new) # xs)"

lemma scopes_ext_refl [simp]: "scopes_ext xs xs"
  by (cases xs) auto

lemma scopes_ext_trans: "scopes_ext xs ys \<Longrightarrow> scopes_ext ys zs \<Longrightarrow> scopes_ext xs zs"
  by (cases xs) auto

definition stepsto :: "tape \<Rightarrow> parse_ctx \<Rightarrow> parse_ctx \<Rightarrow> bool" where
  "stepsto T c c' \<longleftrightarrow>
     wf T c' \<and> px_pos c \<le> px_pos c' \<and> (\<exists>rs. px_records c' = px_records c @ rs) \<and>
     scopes_ext (px_scopes c) (px_scopes c')"

lemma stepsto_refl [simp]: "wf T c \<Longrightarrow> stepsto T c c"
  by (simp add: stepsto_def)

lemma stepsto_trans: "stepsto T c c' \<Longrightarrow> stepsto T c' c'' \<Longrightarrow> stepsto T c c''"
  by (auto simp: stepsto_def intro: scopes_ext_trans)

lemma stepsto_wf: "stepsto T c c' \<Longrightarrow> wf T c'"
  by (simp add: stepsto_def)

lemma stepsto_pos: "stepsto T c c' \<Longrightarrow> px_pos c \<le> px_pos c'"
  by (simp add: stepsto_def)

lemma clean_trans:
  assumes "stepsto T c c'" and "stepsto T c' c''" and "px_records c'' = px_records c"
  shows "px_records c' = px_records c" and "px_records c'' = px_records c'"
proof -
  obtain rs rs' where "px_records c' = px_records c @ rs" "px_records c'' = px_records c' @ rs'"
    using assms(1,2) unfolding stepsto_def by blast
  with assms(3) show "px_records c' = px_records c" "px_records c'' = px_records c'" by simp_all
qed

section \<open>The current token\<close>

lemma cur_tokv: "wf T c \<Longrightarrow> cur c = tokv T (px_pos c)"
  by (simp add: cur_def tokv_def wf_def)

lemma eof_iff: "cur_is_eof c \<longleftrightarrow> cur c = V_EOF"
  by (cases "cur c") (simp_all add: cur_is_eof_def)

lemma not_eof_next: "wf T c \<Longrightarrow> cur c \<noteq> V_EOF \<Longrightarrow> Suc (px_pos c) < length (snd T)"
proof (rule ccontr)
  assume w: "wf T c" and ne: "cur c \<noteq> V_EOF" and "\<not> Suc (px_pos c) < length (snd T)"
  with w have p: "px_pos c = length (snd T) - 1" "snd T \<noteq> []" by (auto simp: wf_def)
  with w have "cur c = V_EOF" by (simp add: cur_def wf_def last_conv_nth)
  with ne show False by simp
qed

lemma advance_eq: "wf T c \<Longrightarrow> cur c \<noteq> V_EOF \<Longrightarrow> advance c = c\<lparr>px_pos := Suc (px_pos c)\<rparr>"
  using not_eof_next [of T c] by (simp add: advance_def wf_def)

lemma advance_step [simp]:
  assumes "wf T c" and "cur c \<noteq> V_EOF"
  shows "stepsto T c (advance c)" and "px_pos (advance c) = Suc (px_pos c)" and "wf T (advance c)"
    and "px_records (advance c) = px_records c"
  using not_eof_next [OF assms] assms(1) advance_eq [OF assms] by (simp_all add: stepsto_def wf_def)

lemma advance_any: "wf T c \<Longrightarrow> stepsto T c (advance c)"
  by (auto simp: advance_def stepsto_def wf_def)

lemma cur_tests:
  "cur_is_punct c p \<longleftrightarrow> cur c = V_PUNCT p"
  "cur_is_kw c k \<longleftrightarrow> cur c = V_KEYWORD k"
  "cur_is_punct_in ps c \<longleftrightarrow> (\<exists>p \<in> set ps. cur c = V_PUNCT p)"
  "cur_is_ident c \<longleftrightarrow> cur c = V_IDENT (cur_ident c)"
  "cur c = V_PUNCT p \<Longrightarrow> cur_punct c = p"
  by (cases "cur c"; simp add: cur_is_punct_def cur_is_kw_def cur_is_punct_in_def cur_is_ident_def
      cur_ident_def cur_punct_def)+

section \<open>Records\<close>

lemma lookup_S:
  assumes "code \<in> set syn_codes"
  shows "\<exists>info. diag_code_lookup code = Some info \<and> ci_phase info = ''syntax'' \<and> ci_severity info = ''error''"
proof -
  have "code = ''AIC-S0101'' \<or> code = ''AIC-S0102'' \<or> code = ''AIC-S0103'' \<or> code = ''AIC-S0104''"
    using assms by (simp add: syn_codes_def)
  then show ?thesis
    by (elim disjE; simp add: diag_code_lookup_def kCodes_def code_info_def)
qed

lemma derived_ok [simp]: "is_one_of (Some ''recovery_derived'') recovery_values"
  by (simp add: is_one_of_def recovery_values_def)

lemma report_syntax_eq:
  assumes "code \<in> set syn_codes"
  shows "report_syntax c code message sp =
    c\<lparr>px_seen := True, px_records := px_records c @ [syn_record code message sp (px_seen c)]\<rparr>"
proof -
  obtain info where "diag_code_lookup code = Some info" "ci_phase info = ''syntax''" "ci_severity info = ''error''"
    using lookup_S [OF assms] by blast
  then show ?thesis
    by (simp add: report_syntax_def syn_record_def setter_defs is_one_of_consts diag_record_new_def)
qed

lemma syn_record_valid:
  assumes "code \<in> set syn_codes"
  shows "diag_record_validate (syn_record code message sp derived) = None"
proof -
  obtain info where "diag_code_lookup code = Some info" "ci_phase info = ''syntax''" "ci_severity info = ''error''"
    using lookup_S [OF assms] by blast
  then show ?thesis
    by (simp add: syn_record_def diag_record_validate_def is_one_of_consts diag_record_new_def)
qed

lemma report_step:
  assumes "wf T c" and "code \<in> set syn_codes" and "syn_span T sp"
  shows "stepsto T c (report_syntax c code message sp)"
    and "px_records (report_syntax c code message sp) \<noteq> px_records c"
    and "px_pos (report_syntax c code message sp) = px_pos c"
proof -
  have "recs_ok T (px_records c @ [syn_record code message sp (px_seen c)])"
    using assms by (auto simp: recs_ok_def wf_def nth_append less_Suc_eq split: if_splits)
  then show "stepsto T c (report_syntax c code message sp)"
    using assms by (auto simp: report_syntax_eq stepsto_def wf_def)
qed (use assms in \<open>simp_all add: report_syntax_eq\<close>)

lemma err_span_ok: "wf T c \<Longrightarrow> syn_span T (err_span c)"
proof -
  assume w: "wf T c"
  show ?thesis
  proof (cases "cur_is_eof c \<and> px_pos c \<noteq> 0")
    case True
    with w show ?thesis
      unfolding syn_span_def
      by (intro disjI2 exI [of _ "px_pos c"]) (simp add: err_span_def wf_def cur_def tokv_def Let_def eof_iff)
  next
    case False
    with w show ?thesis
      unfolding syn_span_def
      by (intro disjI1 exI [of _ "px_pos c"] exI [of _ 0])
         (auto simp add: err_span_def wf_def toks_span_def Let_def)
  qed
qed

lemma span_from_ok: "wf T c \<Longrightarrow> s \<le> px_pos c \<Longrightarrow> syn_span T (span_from c s (px_pos c))"
  unfolding syn_span_def span_from_def by (intro disjI1 exI [of _ s] exI [of _ "px_pos c"]) (simp add: wf_def)

section \<open>The contract\<close>

text \<open>
  \<open>good T c m Q v\<close>, of the value \<open>v\<close> of a parser called on \<open>c\<close>: it returns; it moves forward, at least
  to \<open>m\<close> when it succeeds; \<open>NULL\<close> comes with a new record; a result reached without a new record
  satisfies \<open>Q\<close> at the position it ends at.
\<close>

definition outcome :: "tape \<Rightarrow> parse_ctx \<Rightarrow> nat \<Rightarrow> (nat \<Rightarrow> 'a \<Rightarrow> bool) \<Rightarrow> 'a option \<Rightarrow> parse_ctx \<Rightarrow> bool" where
  "outcome T c m Q r c' \<longleftrightarrow>
     stepsto T c c' \<and>
     (case r of
        None \<Rightarrow> px_records c' \<noteq> px_records c
      | Some x \<Rightarrow> m \<le> px_pos c' \<and> (px_records c' = px_records c \<longrightarrow> Q (px_pos c') x))"

definition good ::
  "tape \<Rightarrow> parse_ctx \<Rightarrow> nat \<Rightarrow> (nat \<Rightarrow> 'a \<Rightarrow> bool) \<Rightarrow> ('a option \<times> parse_ctx) option \<Rightarrow> bool" where
  "good T c m Q v \<longleftrightarrow> (\<exists>r c'. v = Some (r, c') \<and> outcome T c m Q r c')"

lemma goodI: "v = Some (r, c') \<Longrightarrow> outcome T c m Q r c' \<Longrightarrow> good T c m Q v"
  unfolding good_def by blast

lemma goodE:
  assumes "good T c m Q v"
  obtains c' where "v = Some (None, c')" "stepsto T c c'" "px_records c' \<noteq> px_records c"
  | x c' where "v = Some (Some x, c')" "stepsto T c c'" "m \<le> px_pos c'"
      "px_records c' = px_records c \<Longrightarrow> Q (px_pos c') x"
proof -
  obtain r c' where "v = Some (r, c')" "outcome T c m Q r c'"
    using assms unfolding good_def by blast
  then show thesis using that unfolding outcome_def by (cases r) auto
qed

lemma outcome_null: "stepsto T c c' \<Longrightarrow> px_records c' \<noteq> px_records c \<Longrightarrow> outcome T c m Q None c'"
  by (simp add: outcome_def)

lemma outcome_some:
  "stepsto T c c' \<Longrightarrow> m \<le> px_pos c' \<Longrightarrow> (px_records c' = px_records c \<Longrightarrow> Q (px_pos c') x) \<Longrightarrow>
     outcome T c m Q (Some x) c'"
  by (simp add: outcome_def)

lemma outcome_trans:
  assumes "stepsto T c c'" and "outcome T c' m Q' r c''"
    and "\<And>j x. px_records c' = px_records c \<Longrightarrow> Q' j x \<Longrightarrow> Q j x"
  shows "outcome T c m Q r c''"
proof (cases r)
  case None
  with assms show ?thesis
    using stepsto_trans [OF assms(1)] clean_trans(2) [OF assms(1)] by (auto simp: outcome_def)
next
  case (Some x)
  with assms show ?thesis
    using stepsto_trans [OF assms(1)] clean_trans [OF assms(1)] by (auto simp: outcome_def)
qed

lemma good_return: "wf T c \<Longrightarrow> m \<le> px_pos c \<Longrightarrow> Q (px_pos c) x \<Longrightarrow> good T c m Q (p_return x c)"
  by (rule goodI [of _ "Some x" c]) (simp_all add: p_return_def outcome_def)

lemma good_report:
  assumes "wf T c" and "code \<in> set syn_codes" and "syn_span T sp"
  shows "good T c m Q (p_null (report_syntax c code message sp))"
  by (rule goodI [OF _ outcome_null [OF report_step(1,2) [OF assms]]]) (simp add: p_null_def)

lemma good_expected: "wf T c \<Longrightarrow> good T c m Q (p_null (err_expected c what))"
  unfolding err_expected_def
  by (rule good_report) (simp_all add: err_span_ok syn_codes_def)

lemma good_unexpected: "wf T c \<Longrightarrow> good T c m Q (p_null (err_unexpected c))"
proof -
  assume w: "wf T c"
  then have "syn_span T (tok_sp (px_tokens c) (px_pos c))"
    unfolding syn_span_def
    by (intro disjI1 exI [of _ "px_pos c"] exI [of _ 0]) (simp add: toks_span_def wf_def)
  with w show ?thesis
    unfolding err_unexpected_def by (intro good_report) (simp_all add: syn_codes_def)
qed

lemma good_mono:
  assumes "good T c m Q v" and "m' \<le> m" and "\<And>j x. m \<le> j \<Longrightarrow> Q j x \<Longrightarrow> Q' j x"
  shows "good T c m' Q' v"
  using assms(1) by (rule goodE) (auto simp: assms(3) le_trans [OF assms(2)] intro!: goodI outcome_null outcome_some)

text \<open>A step forward before the parser runs.\<close>

lemma good_after:
  assumes "stepsto T c c1" and "px_records c1 = px_records c" and "good T c1 m Q v"
  shows "good T c m Q v"
  using assms(3) unfolding good_def by (blast intro: outcome_trans [OF assms(1)])

lemma good_advance:
  assumes "wf T c" and "cur c \<noteq> V_EOF" and "good T (advance c) m Q v"
  shows "good T c m Q v"
  using advance_step [OF assms(1,2)] by (blast intro: good_after assms(3))

lemma good_bind:
  assumes p: "good T c m Q (p c)"
    and f: "\<And>x c'. stepsto T c c' \<Longrightarrow> m \<le> px_pos c' \<Longrightarrow>
      good T c' m' (\<lambda>j y. Q (px_pos c') x \<longrightarrow> Q' j y) (f x c')"
  shows "good T c m' Q' (pbind p f c)"
  using p
proof (rule goodE)
  fix c' assume "p c = Some (None, c')" "stepsto T c c'" "px_records c' \<noteq> px_records c"
  then show ?thesis by (intro goodI [of _ None c'] outcome_null) (simp_all add: pbind_def p_null_def)
next
  fix x c' assume r: "p c = Some (Some x, c')" and st: "stepsto T c c'" and m: "m \<le> px_pos c'"
    and Q: "px_records c' = px_records c \<Longrightarrow> Q (px_pos c') x"
  obtain r' c'' where r': "f x c' = Some (r', c'')"
    and o': "outcome T c' m' (\<lambda>j y. Q (px_pos c') x \<longrightarrow> Q' j y) r' c''"
    using f [OF st m] unfolding good_def by blast
  have "outcome T c m' Q' r' c''" by (rule outcome_trans [OF st o']) (use Q in simp)
  with r r' show ?thesis by (intro goodI) (simp_all add: pbind_def)
qed

lemma good_seq:
  assumes "good T c m Q (p c)"
    and "\<And>x c'. stepsto T c c' \<Longrightarrow> m \<le> px_pos c' \<Longrightarrow>
      good T c' m' (\<lambda>j y. Q (px_pos c') x \<longrightarrow> Q' j y) (q c')"
  shows "good T c m' Q' (pseq p q c)"
  unfolding pseq_def using assms by (rule good_bind)

lemma good_opt:
  assumes "wf T c" and "b c \<Longrightarrow> good T c (px_pos c) Q (p c)"
  shows "good T c (px_pos c) (\<lambda>j y. case y of None \<Rightarrow> \<not> b c \<and> j = px_pos c | Some x \<Rightarrow> b c \<and> Q j x) (popt b p c)"
proof (cases "b c")
  case True
  then show ?thesis
    unfolding popt_def
    by (simp, intro good_bind [where p = p, OF assms(2)] good_return) (auto intro: stepsto_wf)
next
  case False
  with assms(1) show ?thesis by (simp add: popt_def good_return)
qed

lemma good_expect:
  assumes "wf T c"
  shows "good T c (Suc (px_pos c)) (\<lambda>j _. tokv T (px_pos c) = V_PUNCT p \<and> j = Suc (px_pos c)) (expect_punct p c)"
proof (cases "cur_is_punct c p")
  case True
  then have "cur c = V_PUNCT p" by (simp add: cur_tests)
  with True assms show ?thesis
    by (intro goodI [of _ "Some ()" "advance c"] outcome_some) (simp_all add: expect_punct_def p_return_def cur_tokv)
next
  case False
  with assms show ?thesis by (simp add: expect_punct_def good_expected)
qed

lemma good_node:
  assumes "wf T c" and "m \<le> px_pos c" and "\<And>n. gnode T s (px_pos c) b n \<Longrightarrow> Q (px_pos c) n"
  shows "good T c m Q (node_new s b c)"
proof -
  let ?n = "AstNode (px_nodes c) (span_from c s (px_pos c)) b" and ?c = "c\<lparr>px_nodes := Suc (px_nodes c)\<rparr>"
  have "gnode T s (px_pos c) b ?n" using assms(1) by (simp add: gnode_def span_from_def wf_def)
  moreover have "stepsto T c ?c" using assms(1) by (simp add: stepsto_def wf_def)
  ultimately have "outcome T c m Q (Some ?n) ?c" by (simp add: outcome_some assms)
  then show ?thesis by (rule goodI [rotated]) (simp add: node_new_def p_return_def)
qed

text \<open>The closing steps of many functions: a token, then the node.\<close>

lemma good_expect_node:
  assumes "wf T c" and "m \<le> Suc (px_pos c)"
    and "\<And>n. tokv T (px_pos c) = V_PUNCT p \<Longrightarrow> gnode T s (Suc (px_pos c)) b n \<Longrightarrow> Q (Suc (px_pos c)) n"
  shows "good T c m Q (pseq (expect_punct p) (node_new s b) c)"
proof (rule good_seq, rule good_expect [OF assms(1)])
  fix x c' assume "stepsto T c c'" and l: "Suc (px_pos c) \<le> px_pos c'"
  then show "good T c' m (\<lambda>j y. tokv T (px_pos c) = V_PUNCT p \<and> px_pos c' = Suc (px_pos c) \<longrightarrow> Q j y) (node_new s b c')"
    using assms(2,3) by (intro good_node) (auto intro: stepsto_wf)
qed

section \<open>Loops\<close>

text \<open>A loop whose rounds consume a token ends; an invariant of the rounds holds at its exit.\<close>

lemma good_loop:
  assumes w: "wf T c"
    and body: "\<And>acc c'. stepsto T c c' \<Longrightarrow> b c' \<Longrightarrow>
      good T c' (Suc (px_pos c')) (\<lambda>j y. I (px_pos c') acc \<longrightarrow> I j y) (body acc c')"
    and stop: "\<And>c'. stepsto T c c' \<Longrightarrow> \<not> b c' \<Longrightarrow> E (px_pos c')"
  shows "good T c (px_pos c) (\<lambda>j y. (I (px_pos c) acc \<longrightarrow> I j y) \<and> E j) (ploop b body acc c)"
proof -
  have "stepsto T c c' \<Longrightarrow> good T c' (px_pos c') (\<lambda>j y. (I (px_pos c') acc \<longrightarrow> I j y) \<and> E j) (ploop b body acc c')"
    for c' acc
  proof (induction "length (snd T) - px_pos c'" arbitrary: c' acc rule: less_induct)
    case less
    note st = less.prems
    show ?case
    proof (cases "b c'")
      case False
      then have "ploop b body acc c' = p_return acc c'" by (subst ploop.simps) simp
      with stop [OF st False] stepsto_wf [OF st] show ?thesis by (simp add: good_return)
    next
      case True
      then have eq: "ploop b body acc c' = pbind (body acc) (ploop b body) c'"
        by (subst ploop.simps) (simp add: pbind_def)
      have "good T c' (px_pos c') (\<lambda>j y. (I (px_pos c') acc \<longrightarrow> I j y) \<and> E j) (pbind (body acc) (ploop b body) c')"
      proof (rule good_bind [where p = "body acc", OF body [OF st True]])
        fix x c'' assume st': "stepsto T c' c''" and lt: "Suc (px_pos c') \<le> px_pos c''"
        have "px_pos c'' < length (snd T)" using stepsto_wf [OF st'] by (simp add: wf_def)
        with lt have "length (snd T) - px_pos c'' < length (snd T) - px_pos c'" by simp
        from less.hyps [OF this stepsto_trans [OF st st']]
        show "good T c'' (px_pos c')
          (\<lambda>j y. (I (px_pos c') acc \<longrightarrow> I (px_pos c'') x) \<longrightarrow> (I (px_pos c') acc \<longrightarrow> I j y) \<and> E j) (ploop b body x c'')"
          by (rule good_mono) (use lt in auto)
      qed
      with eq show ?thesis by simp
    qed
  qed
  with w show ?thesis by simp
qed

lemma skip_ok:
  assumes "wf T c"
  obtains c' where "skip_until stop c = Some c'" "stepsto T c c'" "px_records c' = px_records c"
    "cur_is_eof c' \<or> stop c'" "\<not> cur_is_eof c \<Longrightarrow> \<not> stop c \<Longrightarrow> px_pos c < px_pos c'"
proof -
  have "\<exists>c'. skip_until stop c = Some c' \<and> stepsto T c c' \<and> px_records c' = px_records c \<and>
      (cur_is_eof c' \<or> stop c') \<and> (\<not> cur_is_eof c \<longrightarrow> \<not> stop c \<longrightarrow> px_pos c < px_pos c')"
    using assms
  proof (induction "length (snd T) - px_pos c" arbitrary: c rule: less_induct)
    case less
    show ?case
    proof (cases "cur_is_eof c \<or> stop c")
      case True
      with less.prems show ?thesis by (subst skip_until.simps) auto
    next
      case False
      then have ne: "cur c \<noteq> V_EOF" by (simp add: eof_iff)
      note a = advance_step [OF less.prems ne]
      have "px_pos (advance c) < length (snd T)" using a(3) by (simp add: wf_def)
      with a(2) have "length (snd T) - px_pos (advance c) < length (snd T) - px_pos c" by simp
      from less.hyps [OF this a(3)] obtain c' where "skip_until stop (advance c) = Some c'"
        "stepsto T (advance c) c'" "px_records c' = px_records (advance c)" "cur_is_eof c' \<or> stop c'" by blast
      with False a stepsto_trans [OF a(1)] stepsto_pos [of T "advance c" c'] show ?thesis
        by (subst skip_until.simps) auto
    qed
  qed
  then show thesis using that by blast
qed

lemma skip_semi_step: "wf T c \<Longrightarrow> stepsto T c (skip_semi c) \<and> px_records (skip_semi c) = px_records c"
  by (simp add: skip_semi_def cur_tests)

text \<open>What every recovery does: it only moves forward, and past a token that it does not stop at.\<close>

definition recovers :: "tape \<Rightarrow> (parse_ctx \<Rightarrow> parse_ctx option) \<Rightarrow> (lex_val \<Rightarrow> bool) \<Rightarrow> bool" where
  "recovers T recover S \<longleftrightarrow>
     (\<forall>c. wf T c \<longrightarrow> (\<exists>c'. recover c = Some c' \<and> stepsto T c c' \<and> px_records c' = px_records c \<and>
        (cur c \<noteq> V_EOF \<longrightarrow> \<not> S (cur c) \<longrightarrow> px_pos c < px_pos c')))"

lemma skip_recovers:
  assumes "\<And>c. stop c \<longleftrightarrow> S (cur c)"
  shows "recovers T (skip_until stop) S"
  unfolding recovers_def
proof (intro allI impI)
  fix c assume "wf T c"
  then obtain c' where "skip_until stop c = Some c'" "stepsto T c c'" "px_records c' = px_records c"
    "\<not> cur_is_eof c \<Longrightarrow> \<not> stop c \<Longrightarrow> px_pos c < px_pos c'"
    by (rule skip_ok [where stop = stop]) blast
  with assms show "\<exists>c'. skip_until stop c = Some c' \<and> stepsto T c c' \<and> px_records c' = px_records c \<and>
      (cur c \<noteq> V_EOF \<longrightarrow> \<not> S (cur c) \<longrightarrow> px_pos c < px_pos c')" by (auto simp: eof_iff)
qed

lemma skip_semi_recovers:
  assumes stop: "\<And>c. stop c \<longleftrightarrow> cur c = V_PUNCT PUNCT_SEMI \<or> S (cur c)" and "\<not> S (V_PUNCT PUNCT_SEMI)"
  shows "recovers T (\<lambda>c. map_option skip_semi (skip_until stop c)) S"
  unfolding recovers_def
proof (intro allI impI)
  fix c assume w: "wf T c"
  obtain c' where s: "skip_until stop c = Some c'" "stepsto T c c'" "px_records c' = px_records c"
    and lt: "\<not> cur_is_eof c \<Longrightarrow> \<not> stop c \<Longrightarrow> px_pos c < px_pos c'"
    by (rule skip_ok [OF w, of stop]) blast
  have st: "stepsto T c' (skip_semi c')" "px_records (skip_semi c') = px_records c'"
    using skip_semi_step [OF stepsto_wf [OF s(2)]] by simp_all
  have "px_pos c < px_pos (skip_semi c')" if ne: "cur c \<noteq> V_EOF" and "\<not> S (cur c)"
  proof (cases "stop c")
    case True
    with s have "c' = c" by (simp add: skip_until.simps)
    with True that stop w show ?thesis by (simp add: skip_semi_def cur_tests)
  next
    case False
    with lt ne have "px_pos c < px_pos c'" by (simp add: eof_iff)
    with stepsto_pos [OF st(1)] show ?thesis by simp
  qed
  with s st stepsto_trans [OF s(2) st(1)]
  show "\<exists>c'. map_option skip_semi (skip_until stop c) = Some c' \<and> stepsto T c c' \<and> px_records c' = px_records c \<and>
      (cur c \<noteq> V_EOF \<longrightarrow> \<not> S (cur c) \<longrightarrow> px_pos c < px_pos c')"
    by auto
qed

section \<open>Parsers of a construct\<close>

text \<open>The parser \<open>p\<close> keeps the contract on every context with at most \<open>n\<close> tokens left, and its results
  are what \<open>R\<close> describes.\<close>

definition left :: "tape \<Rightarrow> parse_ctx \<Rightarrow> nat" where
  "left T c = length (snd T) - px_pos c"

definition parses :: "tape \<Rightarrow> nat \<Rightarrow> 'a parser \<Rightarrow> (nat \<Rightarrow> nat \<Rightarrow> 'a \<Rightarrow> bool) \<Rightarrow> bool" where
  "parses T n p R \<longleftrightarrow>
     (\<forall>c. wf T c \<longrightarrow> left T c \<le> n \<longrightarrow> good T c (Suc (px_pos c)) (R (px_pos c)) (p c))"

lemma parsesI:
  "(\<And>c. wf T c \<Longrightarrow> left T c \<le> n \<Longrightarrow> good T c (Suc (px_pos c)) (R (px_pos c)) (p c)) \<Longrightarrow> parses T n p R"
  by (simp add: parses_def)

lemma parsesD:
  "parses T n p R \<Longrightarrow> wf T c \<Longrightarrow> left T c \<le> n \<Longrightarrow> good T c (Suc (px_pos c)) (R (px_pos c)) (p c)"
  by (simp add: parses_def)

lemma parses_le: "parses T n p R \<Longrightarrow> n' \<le> n \<Longrightarrow> parses T n' p R"
  by (auto simp: parses_def)

lemma left_step: "stepsto T c c' \<Longrightarrow> left T c' \<le> left T c"
  by (auto simp: left_def stepsto_def)

lemma left_pos: "wf T c \<Longrightarrow> 0 < left T c"
  by (simp add: left_def wf_def)

lemma left_advance: "wf T c \<Longrightarrow> cur c \<noteq> V_EOF \<Longrightarrow> left T c \<le> Suc n \<Longrightarrow> left T (advance c) \<le> n"
  by (simp add: left_def)

text \<open>The comma loop: the items so far are a list in the grammar, perhaps with a last comma.\<close>

definition comma_tail :: "tape \<Rightarrow> (lex_val \<Rightarrow> bool) \<Rightarrow> nat \<Rightarrow> nat \<Rightarrow> bool" where
  "comma_tail T S m j \<longleftrightarrow> m = j \<or> tokv T m = V_PUNCT PUNCT_COMMA \<and> j = Suc m \<and> S (tokv T j)"

lemma good_comma_loop:
  assumes w: "wf T c" and p: "parses T n p P" and n: "left T c \<le> Suc n"
    and stop: "\<And>c. stop c \<Longrightarrow> S (cur c)" "\<not> S (V_PUNCT PUNCT_COMMA)"
  shows "good T c (px_pos c)
    (\<lambda>j ys. commas T P i (px_pos c) xs \<longrightarrow> (\<exists>m. commas T P i m ys \<and> comma_tail T S m j)) (comma_loop stop p xs c)"
proof -
  let ?I = "\<lambda>j ys. \<exists>m. commas T P i m ys \<and> comma_tail T S m j"
  have "good T c (px_pos c) (\<lambda>j y. (?I (px_pos c) xs \<longrightarrow> ?I j y) \<and> True) (comma_loop stop p xs c)"
    unfolding comma_loop_def
  proof (rule good_loop [OF w])
    fix acc c' assume st: "stepsto T c c'" and "cur_is_punct c' PUNCT_COMMA"
    then have cm: "cur c' = V_PUNCT PUNCT_COMMA" by (simp add: cur_tests)
    note w' = stepsto_wf [OF st]
    have a: "px_pos (advance c') = Suc (px_pos c')" "wf T (advance c')" using advance_step [OF w'] cm by simp_all
    have t: "tokv T (px_pos c') = V_PUNCT PUNCT_COMMA" using cm cur_tokv [OF w'] by simp
    then have here: "?I (px_pos c') acc \<Longrightarrow> commas T P i (px_pos c') acc"
      using stop(2) by (auto simp: comma_tail_def)
    show "good T c' (Suc (px_pos c')) (\<lambda>j y. ?I (px_pos c') acc \<longrightarrow> ?I j y) (comma_item stop p acc c')"
      unfolding comma_item_def Let_def
    proof (rule good_advance [OF w'], goal_cases)
      case 1 from cm show ?case by simp
    next
      case 2
      show ?case
      proof (cases "stop (advance c')")
        case True
        then have "S (tokv T (Suc (px_pos c')))" using stop(1) [OF True] cur_tokv [OF a(2)] a(1) by simp
        then have "?I (px_pos c') acc \<longrightarrow> ?I (px_pos (advance c')) acc"
          using here t a(1) by (auto simp: comma_tail_def)
        with True a show ?thesis by (auto intro!: good_return)
      next
        case False
        have l: "left T (advance c') \<le> n" using n left_step [OF st] cm by (intro left_advance [OF w']) simp_all
        have "?I (px_pos c') acc \<Longrightarrow> P (Suc (px_pos c')) k x \<Longrightarrow> ?I k (acc @ [x])" for k x
          using here t by (auto simp: comma_tail_def intro: commas_snoc)
        then show ?thesis
          using False a
          by (simp, intro good_bind [where p = p, OF parsesD [OF p a(2) l]] good_return) (auto intro: stepsto_wf)
      qed
    qed
  qed simp
  then show ?thesis by (rule good_mono) (auto simp: comma_tail_def)
qed

end
