(* ===== verification/ParseSound.thy ===== *)
theory ParseSound
  imports ParseContract
begin

text \<open>
  The contract for the parse functions of types and expressions, proved over an arbitrary
  \<open>parse_expr\<close> that keeps it on shorter inputs (the locale \<open>expr_parser\<close>), and for the recursion by
  induction on the number of tokens left.
\<close>

section \<open>Common steps\<close>

lemma good_fail_at:
  assumes "stepsto T c c1" and "px_records c1 = px_records c"
  shows "good T c m Q (p_null (err_expected c1 what))"
  by (rule good_after [OF assms good_expected]) (rule stepsto_wf [OF assms(1)])

lemma good_expect_then:
  assumes w: "wf T c" and "cur c = V_PUNCT p \<Longrightarrow> good T (advance c) m Q (q (advance c))"
  shows "good T c m Q (pseq (expect_punct p) q c)"
proof (cases "cur c = V_PUNCT p")
  case True
  then have "pseq (expect_punct p) q c = q (advance c)"
    by (simp add: pseq_def pbind_def expect_punct_def cur_tests p_return_def)
  with True assms show ?thesis by (simp add: good_advance)
next
  case False
  then have "pseq (expect_punct p) q c = p_null (err_expected c (punct_expect_text p))"
    by (simp add: pseq_def pbind_def expect_punct_def cur_tests p_null_def)
  with good_expected [OF w] show ?thesis by simp
qed

lemma ident_cur: "cur_is_ident c \<Longrightarrow> cur c = V_IDENT (cur_ident c)"
  by (simp add: cur_tests)

lemma ident_step:
  assumes "wf T c" and "cur_is_ident c"
  shows "cur c \<noteq> V_EOF" and "tokv T (px_pos c) = V_IDENT (cur_ident c)"
  using ident_cur [OF assms(2)] cur_tokv [OF assms(1)] by simp_all

lemma good_if: "(b \<Longrightarrow> good T c m Q x) \<Longrightarrow> (\<not> b \<Longrightarrow> good T c m Q y) \<Longrightarrow> good T c m Q (if b then x else y)"
  by simp

lemma parsesD0:
  assumes "parses T n p R" and "wf T c" and "left T c \<le> n"
  shows "good T c (px_pos c) (R (px_pos c)) (p c)"
  by (rule good_mono [OF parsesD [OF assms]]) simp_all

text \<open>The token a test has found, by position.\<close>

lemma punct_step:
  assumes "wf T c" and "cur_is_punct c p"
  shows "cur c \<noteq> V_EOF" and "tokv T (px_pos c) = V_PUNCT p"
  using assms by (simp_all add: cur_tests cur_tokv [symmetric])

lemma kw_step:
  assumes "wf T c" and "cur_is_kw c k"
  shows "cur c \<noteq> V_EOF" and "tokv T (px_pos c) = V_KEYWORD k"
  using assms by (simp_all add: cur_tests cur_tokv [symmetric])

text \<open>A parser, a closing token, the node.\<close>

lemma good_node_after:
  assumes p: "parses T n p R" and w: "wf T c" "left T c \<le> n" and m: "m \<le> Suc (Suc (px_pos c))"
    and Q: "\<And>x j nd. R (px_pos c) j x \<Longrightarrow> tokv T j = V_PUNCT q \<Longrightarrow> gnode T s (Suc j) (b x) nd \<Longrightarrow> Q (Suc j) nd"
  shows "good T c m Q (pbind p (\<lambda>x. pseq (expect_punct q) (node_new s (b x))) c)"
proof (rule good_bind, rule parsesD [OF p w])
  fix x c' assume "stepsto T c c'" and "Suc (px_pos c) \<le> px_pos c'"
  then show "good T c' m (\<lambda>j y. R (px_pos c) (px_pos c') x \<longrightarrow> Q j y) (pseq (expect_punct q) (node_new s (b x)) c')"
    using m Q by (intro good_expect_node) (auto intro: stepsto_wf)
qed

lemma good_node_bind:
  assumes p: "parses T n p R" and w: "wf T c" "left T c \<le> n" and m: "m \<le> Suc (px_pos c)"
    and Q: "\<And>x j nd. R (px_pos c) j x \<Longrightarrow> gnode T s j (b x) nd \<Longrightarrow> Q j nd"
  shows "good T c m Q (pbind p (\<lambda>x. node_new s (b x)) c)"
proof (rule good_bind, rule parsesD [OF p w])
  fix x c' assume "stepsto T c c'" and "Suc (px_pos c) \<le> px_pos c'"
  then show "good T c' m (\<lambda>j y. R (px_pos c) (px_pos c') x \<longrightarrow> Q j y) (node_new s (b x) c')"
    using m Q by (intro good_node) (auto intro: stepsto_wf)
qed

section \<open>Names\<close>

lemma qualified_name_parses: "parses T n parse_qualified_name (dotted T)"
proof (rule parsesI)
  fix c assume w: "wf T c"
  let ?b = "\<lambda>c. cur_is_punct c PUNCT_DOT"
  show "good T c (Suc (px_pos c)) (dotted T (px_pos c)) (parse_qualified_name c)"
  proof (cases "cur_is_ident c")
    case False
    with w show ?thesis by (simp add: parse_qualified_name_def good_expected)
  next
    case True
    note i = ident_step [OF w True]
    note a = advance_step [OF w i(1)]
    have "good T (advance c) (px_pos (advance c))
      (\<lambda>j y. (dotted T (px_pos c) (px_pos (advance c)) [cur_ident c] \<longrightarrow> dotted T (px_pos c) j y) \<and> True)
      (ploop ?b qualified_name_part [cur_ident c] (advance c))"
    proof (rule good_loop [OF a(3)])
      fix acc c' assume st: "stepsto T (advance c) c'" and "?b c'"
      then have d: "cur c' = V_PUNCT PUNCT_DOT" by (simp add: cur_tests)
      note w' = stepsto_wf [OF st]
      have n: "cur c' \<noteq> V_EOF" using d by simp
      note b = advance_step [OF w' n]
      show "good T c' (Suc (px_pos c')) (\<lambda>j y. dotted T (px_pos c) (px_pos c') acc \<longrightarrow> dotted T (px_pos c) j y)
        (qualified_name_part acc c')"
        unfolding qualified_name_part_def Let_def
      proof (intro good_advance [OF w' n] good_if good_expected b(3), goal_cases)
        case 1
        then have id: "cur_is_ident (advance c')" by simp
        note e = ident_step [OF b(3) id]
        have "dotted T (px_pos c) (px_pos c') acc \<longrightarrow>
            dotted T (px_pos c) (Suc (Suc (px_pos c'))) (acc @ [cur_ident (advance c')])"
          using d cur_tokv [OF w'] e b(2) by (auto intro: dotted_snoc)
        then show ?case
          using b e advance_step [OF b(3) e(1)] by (intro good_advance [OF b(3)] good_return) simp_all
      qed
    qed simp
    then have "good T (advance c) (Suc (px_pos c)) (dotted T (px_pos c))
      (ploop ?b qualified_name_part [cur_ident c] (advance c))"
      by (rule good_mono) (use a(2) i(2) in auto)
    with True show ?thesis by (simp add: parse_qualified_name_def good_advance [OF w i(1)])
  qed
qed

section \<open>Lists with commas\<close>

lemma commas_ne: "commas T P i j xs \<Longrightarrow> xs \<noteq> []"
  by auto

lemma comma_list_good:
  assumes w: "wf T c" and p: "parses T n p P" and l: "left T c \<le> n"
    and stop: "\<And>c. stop c \<Longrightarrow> S (cur c)" "\<not> S (V_PUNCT PUNCT_COMMA)"
  shows "good T c (px_pos c)
    (\<lambda>j xs. if xs = [] then j = px_pos c else \<exists>m. commas T P (px_pos c) m xs \<and> comma_tail T S m j)
    (comma_list closer stop p c)"
  unfolding comma_list_def
proof (intro good_if, goal_cases)
  case 1
  with w show ?case by (intro good_return) auto
next
  case 2
  show ?case
  proof (rule good_bind, rule parsesD [OF p w l])
    fix x c' assume st: "stepsto T c c'" and m: "Suc (px_pos c) \<le> px_pos c'"
    have "left T c' \<le> Suc n" using left_step [OF st] l by simp
    from good_comma_loop [OF stepsto_wf [OF st] p this stop, where xs = "[x]" and i = "px_pos c"]
    show "good T c' (px_pos c) (\<lambda>j xs. P (px_pos c) (px_pos c') x \<longrightarrow>
        (if xs = [] then j = px_pos c else \<exists>m. commas T P (px_pos c) m xs \<and> comma_tail T S m j))
      (comma_loop stop p [x] c')"
      by (rule good_mono) (use m in \<open>auto dest: commas_ne\<close>)
  qed
qed

lemma args_good:
  assumes "wf T c" and "parses T n p P" and "left T c \<le> n"
  shows "good T c (px_pos c) (\<lambda>j xs. args T P (px_pos c) j xs) (comma_list closer (\<lambda>_. False) p c)"
  by (rule good_mono [OF comma_list_good [OF assms, of _ "\<lambda>_. False"]])
     (auto simp: args_def comma_tail_def split: if_splits)

lemma items_good:
  assumes "wf T c" and "parses T n p P" and "left T c \<le> n" and "q \<noteq> PUNCT_COMMA"
  shows "good T c (px_pos c) (\<lambda>j xs. items T P (px_pos c) j xs) (comma_list q (\<lambda>c. cur_is_punct c q) p c)"
  by (rule good_mono [OF comma_list_good [OF assms(1-3), of _ "\<lambda>v. v = V_PUNCT q"]])
     (use assms(4) in \<open>auto simp: items_def comma_tail_def opt_comma_def cur_tests split: if_splits\<close>)

text \<open>A list in brackets and its node.\<close>

lemma good_list_node:
  assumes w: "wf T c" and g: "good T c (px_pos c) R (p c)" and m: "m \<le> Suc (px_pos c)"
    and Q: "\<And>x j nd. R j x \<Longrightarrow> tokv T j = V_PUNCT q \<Longrightarrow> gnode T s (Suc j) (b x) nd \<Longrightarrow> Q (Suc j) nd"
  shows "good T c m Q (pbind p (\<lambda>x. pseq (expect_punct q) (node_new s (b x))) c)"
proof (rule good_bind [where p = p, OF g])
  fix x c' assume "stepsto T c c'" and "px_pos c \<le> px_pos c'"
  then show "good T c' m (\<lambda>j y. R (px_pos c') x \<longrightarrow> Q j y) (pseq (expect_punct q) (node_new s (b x)) c')"
    using m Q by (intro good_expect_node) (auto intro: stepsto_wf)
qed

section \<open>Types and expressions over a parser of shorter expressions\<close>

locale expr_parser =
  fixes T :: tape and n :: nat and pe :: node_parser
  assumes pe: "parses T n pe (gram T G_EXPR)"
begin

lemma type_postfix_good:
  assumes w: "wf T c" and l: "left T c \<le> Suc n" and b: "cur_is_punct_in [PUNCT_STAR, PUNCT_LBRACKET] c"
  shows "good T c (Suc (px_pos c)) (\<lambda>j y. gram T G_TYPE s (px_pos c) t \<longrightarrow> gram T G_TYPE s j y) (type_postfix pe s t c)"
proof -
  have n: "cur c \<noteq> V_EOF" using b by (auto simp: cur_tests)
  note a = advance_step [OF w n] and t = cur_tokv [OF w]
  show ?thesis
    unfolding type_postfix_def Let_def
  proof (intro good_advance [OF w n] good_if, goal_cases)
    case 1
    with a punct_step [OF w 1] show ?case by (intro good_node) (auto intro: g_ptr_type)
  next
    case 2
    with b have d: "tokv T (px_pos c) = V_PUNCT PUNCT_LBRACKET" by (auto simp: cur_tests t)
    note e = punct_step [OF a(3) 2(2)]
    with a d advance_step [OF a(3) e(1)] show ?case
      by (intro good_advance [OF a(3) e(1)] good_node) (auto intro: g_slice_type)
  next
    case 3
    with b have d: "tokv T (px_pos c) = V_PUNCT PUNCT_LBRACKET" by (auto simp: cur_tests t)
    show ?case
      by (rule good_node_after [OF pe a(3) left_advance [OF w n l]]) (use a d in \<open>auto intro: g_array_type\<close>)
  qed
qed

lemma type_parses: "parses T (Suc n) (parse_type pe) (gram T G_TYPE)"
proof (rule parsesI)
  fix c assume w: "wf T c" and l: "left T c \<le> Suc n"
  have loop: "good T c' m (\<lambda>j y. gram T G_TYPE (px_pos c) (px_pos c') t \<longrightarrow> gram T G_TYPE (px_pos c) j y)
      (type_postfix_loop pe (px_pos c) t c')" if st: "stepsto T c c'" and m: "m \<le> px_pos c'" for c' t m
  proof -
    have "good T c' (px_pos c')
      (\<lambda>j y. (gram T G_TYPE (px_pos c) (px_pos c') t \<longrightarrow> gram T G_TYPE (px_pos c) j y) \<and> True)
      (type_postfix_loop pe (px_pos c) t c')"
      unfolding type_postfix_loop_def
    proof (rule good_loop [OF stepsto_wf [OF st]])
      fix acc d assume "stepsto T c' d" and "cur_is_punct_in [PUNCT_STAR, PUNCT_LBRACKET] d"
      then show "good T d (Suc (px_pos d)) (\<lambda>j y. gram T G_TYPE (px_pos c) (px_pos d) acc \<longrightarrow> gram T G_TYPE (px_pos c) j y)
        (type_postfix pe (px_pos c) acc d)"
        using type_postfix_good left_step [OF stepsto_trans [OF st]] l by (meson le_trans stepsto_wf)
    qed simp
    then show ?thesis by (rule good_mono) (use m in auto)
  qed
  show "good T c (Suc (px_pos c)) (gram T G_TYPE (px_pos c)) (parse_type pe c)"
  proof (cases "cur c")
    case (V_IDENT x)
    have "good T c (Suc (px_pos c)) (gram T G_TYPE (px_pos c))
      (pbind parse_qualified_name (\<lambda>name. pbind (node_new (px_pos c) (AST_TYPE_NAMED name))
         (type_postfix_loop pe (px_pos c))) c)"
    proof (rule good_bind, rule parsesD [OF qualified_name_parses w order_refl])
      fix name c' assume st: "stepsto T c c'" and m: "Suc (px_pos c) \<le> px_pos c'"
      show "good T c' (Suc (px_pos c)) (\<lambda>j y. dotted T (px_pos c) (px_pos c') name \<longrightarrow> gram T G_TYPE (px_pos c) j y)
        (pbind (node_new (px_pos c) (AST_TYPE_NAMED name)) (type_postfix_loop pe (px_pos c)) c')"
      proof (rule good_bind [where Q = "\<lambda>j nd. dotted T (px_pos c) (px_pos c') name \<longrightarrow> gram T G_TYPE (px_pos c) j nd"],
          rule good_node [OF stepsto_wf [OF st] order_refl])
        fix nd assume "gnode T (px_pos c) (px_pos c') (AST_TYPE_NAMED name) nd"
        then show "dotted T (px_pos c) (px_pos c') name \<longrightarrow> gram T G_TYPE (px_pos c) (px_pos c') nd"
          by (auto intro: g_named)
      next
        fix t c'' assume "stepsto T c' c''" and "px_pos c' \<le> px_pos c''"
        then show "good T c'' (Suc (px_pos c))
          (\<lambda>j y. (dotted T (px_pos c) (px_pos c') name \<longrightarrow> gram T G_TYPE (px_pos c) (px_pos c'') t) \<longrightarrow>
             dotted T (px_pos c) (px_pos c') name \<longrightarrow> gram T G_TYPE (px_pos c) j y)
          (type_postfix_loop pe (px_pos c) t c'')"
          using m by (intro good_mono [OF loop [OF stepsto_trans [OF st] order_refl]]) auto
      qed
    qed
    with V_IDENT show ?thesis by (simp add: parse_type_def Let_def)
  next
    case (V_KEYWORD k)
    show ?thesis
    proof (cases "ast_prim_from_keyword k")
      case None
      with V_KEYWORD w show ?thesis by (simp add: parse_type_def good_expected)
    next
      case (Some p)
      have n: "cur c \<noteq> V_EOF" using V_KEYWORD by simp
      note a = advance_step [OF w n]
      have "good T (advance c) (Suc (px_pos c)) (gram T G_TYPE (px_pos c))
        (pbind (node_new (px_pos c) (AST_TYPE_PRIM p)) (type_postfix_loop pe (px_pos c)) (advance c))"
      proof (rule good_bind [where Q = "gram T G_TYPE (px_pos c)"], rule good_node [OF a(3) order_refl])
        fix nd assume "gnode T (px_pos c) (px_pos (advance c)) (AST_TYPE_PRIM p) nd"
        then show "gram T G_TYPE (px_pos c) (px_pos (advance c)) nd"
          using V_KEYWORD Some a(2) cur_tokv [OF w] by (auto intro: g_prim)
      next
        fix t c'' assume "stepsto T (advance c) c''" and "px_pos (advance c) \<le> px_pos c''"
        then show "good T c'' (Suc (px_pos c)) (\<lambda>j y. gram T G_TYPE (px_pos c) (px_pos c'') t \<longrightarrow> gram T G_TYPE (px_pos c) j y)
          (type_postfix_loop pe (px_pos c) t c'')"
          using loop [OF stepsto_trans [OF a(1)]] a(2) by simp
      qed
      with V_KEYWORD Some show ?thesis by (simp add: parse_type_def Let_def good_advance [OF w n])
    qed
  qed (use w in \<open>simp_all add: parse_type_def good_expected\<close>)
qed

lemma array_literal_good:
  assumes w: "wf T c" and l: "left T c \<le> Suc n" and b: "cur c = V_PUNCT PUNCT_LBRACKET"
  shows "good T c (Suc (px_pos c)) (gram T G_PRIMARY (px_pos c)) (parse_array_literal pe c)"
proof -
  have n: "cur c \<noteq> V_EOF" using b by simp
  note a = advance_step [OF w n] and l' = left_advance [OF w n l]
  have t: "tokv T (px_pos c) = V_PUNCT PUNCT_LBRACKET" using b cur_tokv [OF w] by simp
  show ?thesis
    unfolding parse_array_literal_def Let_def
  proof (intro good_advance [OF w n] good_if, goal_cases)
    case 1
    note e = punct_step [OF a(3) 1]
    have "items T (gram T G_EXPR) (Suc (px_pos c)) (Suc (px_pos c)) []" by (simp add: items_def)
    with a t e advance_step [OF a(3) e(1)] show ?case
      by (intro good_advance [OF a(3) e(1)] good_node) (auto intro: g_array)
  next
    case 2
    show ?case
    proof (rule good_bind, rule parsesD [OF pe a(3) l'], rule good_if)
      fix x c' assume st: "stepsto T (advance c) c'" and m: "Suc (px_pos (advance c)) \<le> px_pos c'"
        and s: "cur_is_punct c' PUNCT_SEMI"
      note w' = stepsto_wf [OF st] and e = punct_step [OF stepsto_wf [OF st] s]
      note a' = advance_step [OF w' e(1)]
      show "good T c' (Suc (px_pos c)) (\<lambda>j y. gram T G_EXPR (px_pos (advance c)) (px_pos c') x \<longrightarrow> gram T G_PRIMARY (px_pos c) j y)
        (pbind pe (\<lambda>k. pseq (expect_punct PUNCT_RBRACKET)
           (node_new (px_pos c) (AST_EXPR_ARRAY_LITERAL [x] (Some k)))) (advance c'))"
        by (intro good_advance [OF w' e(1)] good_node_after [OF pe a'(3)])
           (use left_step [OF a'(1)] left_step [OF st] l' m a a' t e in \<open>auto intro: g_repeat\<close>)
    next
      fix x c' assume st: "stepsto T (advance c) c'" and m: "Suc (px_pos (advance c)) \<le> px_pos c'"
      have "left T c' \<le> Suc n" using left_step [OF st] l' by simp
      note loop = good_comma_loop [OF stepsto_wf [OF st] pe this,
          where stop = "\<lambda>c. cur_is_punct c PUNCT_RBRACKET" and S = "\<lambda>v. v = V_PUNCT PUNCT_RBRACKET" and xs = "[x]" and i = "Suc (px_pos c)"]
      show "good T c' (Suc (px_pos c)) (\<lambda>j y. gram T G_EXPR (px_pos (advance c)) (px_pos c') x \<longrightarrow> gram T G_PRIMARY (px_pos c) j y)
        (pbind (comma_loop (\<lambda>c. cur_is_punct c PUNCT_RBRACKET) pe [x]) (\<lambda>es. pseq (expect_punct PUNCT_RBRACKET)
           (node_new (px_pos c) (AST_EXPR_ARRAY_LITERAL es None))) c')"
      proof (rule good_list_node [OF stepsto_wf [OF st]], rule loop)
        fix es j nd
        assume c: "commas T (gram T G_EXPR) (Suc (px_pos c)) (px_pos c') [x] \<longrightarrow>
             (\<exists>m. commas T (gram T G_EXPR) (Suc (px_pos c)) m es \<and> comma_tail T (\<lambda>v. v = V_PUNCT PUNCT_RBRACKET) m j)"
          and r: "tokv T j = V_PUNCT PUNCT_RBRACKET" "gnode T (px_pos c) (Suc j) (AST_EXPR_ARRAY_LITERAL es None) nd"
        show "gram T G_EXPR (px_pos (advance c)) (px_pos c') x \<longrightarrow> gram T G_PRIMARY (px_pos c) (Suc j) nd"
        proof
          assume "gram T G_EXPR (px_pos (advance c)) (px_pos c') x"
          with c a(2) have "items T (gram T G_EXPR) (Suc (px_pos c)) j es"
            by (auto simp: items_def comma_tail_def opt_comma_def dest: commas_ne)
          with t r show "gram T G_PRIMARY (px_pos c) (Suc j) nd" by (blast intro: g_array)
        qed
      qed (use m a in \<open>auto simp: cur_tests\<close>)
    qed
  qed
qed

lemma braces_return:
  assumes "wf T c"
  shows "\<exists>sp c'. consume_balanced_braces s d c = Some (sp, c') \<and> stepsto T c c' \<and>
    px_records c' = px_records c \<and> sp = span_from c' s (px_pos c')"
  using assms
proof (induction "left T c" arbitrary: c d rule: less_induct)
  case less
  note w = less.prems
  show ?case
  proof (cases "cur_is_eof c")
    case True
    with w show ?thesis by (subst consume_balanced_braces.simps) simp
  next
    case False
    then have n: "cur c \<noteq> V_EOF" by (simp add: eof_iff)
    note a = advance_step [OF w n]
    have "left T (advance c) < left T c" using a(2) not_eof_next [OF w n] by (simp add: left_def)
    from less.hyps [OF this a(3)] a(1) a(4) False show ?thesis
      by (subst consume_balanced_braces.simps) (fastforce simp: Let_def intro: stepsto_trans)
  qed
qed

lemma primary_parses: "parses T (Suc n) (parse_primary pe) (gram T G_PRIMARY)"
proof (rule parsesI)
  fix c assume w: "wf T c" and l: "left T c \<le> Suc n"
  note t = cur_tokv [OF w]
  show "good T c (Suc (px_pos c)) (gram T G_PRIMARY (px_pos c)) (parse_primary pe c)"
  proof (cases "cur c")
    case (V_PUNCT p)
    then have n: "cur c \<noteq> V_EOF" by simp
    note a = advance_step [OF w n]
    show ?thesis
      unfolding parse_primary_def Let_def V_PUNCT lex_val.case
    proof (intro good_if good_expected [OF w], goal_cases)
      case 1
      with V_PUNCT t a show ?case
        unfolding parse_paren_def
        by (intro good_advance [OF w n] good_node_after [OF pe a(3) left_advance [OF w n l]]) (auto intro: g_paren)
    next
      case 2
      with V_PUNCT show ?case by (intro array_literal_good [OF w l]) simp
    next
      case 3
      obtain sp c' where b: "consume_balanced_braces (px_pos c) 0 c = Some (sp, c')" "stepsto T c c'"
        "px_records c' = px_records c" "sp = span_from c' (px_pos c) (px_pos c')"
        using braces_return [OF w] by blast
      have "good T c' (Suc (px_pos c)) (gram T G_PRIMARY (px_pos c)) (p_null (report_syntax c' ''AIC-S0101'' ''expected token'' sp))"
        using span_from_ok [OF stepsto_wf [OF b(2)] stepsto_pos [OF b(2)]] b(4)
        by (intro good_report [OF stepsto_wf [OF b(2)]]) (simp_all add: syn_codes_def)
      with b show ?case by (auto simp: reject_braces_def intro: good_after)
    qed
  next
    case (V_KEYWORD k)
    then have n: "cur c \<noteq> V_EOF" by simp
    note a = advance_step [OF w n]
    show ?thesis
      unfolding parse_primary_def Let_def V_KEYWORD lex_val.case
    proof (intro good_if good_expected [OF w], goal_cases)
      case 1
      with V_KEYWORD t a show ?case
        by (intro good_advance [OF w n] good_node) (auto intro: g_true g_false)
    next
      case 2
      with V_KEYWORD t a show ?case by (intro good_advance [OF w n] good_node) (auto intro: g_null)
    qed
  next
    case (V_IDENT x)
    then have n: "cur c \<noteq> V_EOF" by simp
    with V_IDENT t advance_step [OF w n] show ?thesis
      by (auto simp: parse_primary_def Let_def intro!: good_advance [OF w n] good_node intro: g_ident)
  next
    case (V_STR x)
    then have n: "cur c \<noteq> V_EOF" by simp
    with V_STR t advance_step [OF w n] show ?thesis
      by (auto simp: parse_primary_def Let_def intro!: good_advance [OF w n] good_node intro: g_str)
  next
    case (V_INT ty v m)
    then have n: "cur c \<noteq> V_EOF" by simp
    with V_INT t advance_step [OF w n] show ?thesis
      by (auto simp: parse_primary_def Let_def intro!: good_advance [OF w n] good_node intro: g_int)
  qed (use w in \<open>simp_all add: parse_primary_def good_expected\<close>)
qed

lemma slice_tail_good:
  assumes w: "wf T c" and l: "left T c \<le> n" and d: "cur c = V_PUNCT PUNCT_DOT_DOT"
    and Q: "\<And>hi j nd. gopt (gram T G_EXPR) (Suc (px_pos c)) j hi \<Longrightarrow> tokv T j = V_PUNCT PUNCT_RBRACKET \<Longrightarrow>
      gnode T s (Suc j) (AST_EXPR_SLICE b lo hi) nd \<Longrightarrow> Q (Suc j) nd"
  shows "good T c (Suc (px_pos c)) Q (slice_tail pe s b lo c)"
proof -
  have n: "cur c \<noteq> V_EOF" using d by simp
  note a = advance_step [OF w n]
  have "left T (advance c) \<le> n" using left_step [OF a(1)] l by simp
  note e = parsesD0 [OF pe a(3) this]
  show ?thesis
    unfolding slice_tail_def
  proof (rule good_advance [OF w n], rule good_list_node [OF a(3)], rule good_opt [OF a(3)], rule e)
    show "Suc (px_pos c) \<le> Suc (px_pos (advance c))" using a(2) by simp
    fix hi j nd
    assume "case hi of None \<Rightarrow> \<not> \<not> cur_is_punct (advance c) PUNCT_RBRACKET \<and> j = px_pos (advance c)
        | Some x \<Rightarrow> \<not> cur_is_punct (advance c) PUNCT_RBRACKET \<and> gram T G_EXPR (px_pos (advance c)) j x"
      and "tokv T j = V_PUNCT PUNCT_RBRACKET" and "gnode T s (Suc j) (AST_EXPR_SLICE b lo hi) nd"
    then show "Q (Suc j) nd" using a(2) by (intro Q [of j hi nd]) (auto split: option.splits)
  qed
qed

lemma index_slice_good:
  assumes w: "wf T c" and l: "left T c \<le> Suc n" and b: "cur_is_punct c PUNCT_LBRACKET"
  shows "good T c (Suc (px_pos c)) (\<lambda>j y. gram T G_POSTFIX s (px_pos c) e \<longrightarrow> gram T G_POSTFIX s j y)
    (parse_index_slice pe e s c)"
proof -
  note n = punct_step [OF w b]
  note a = advance_step [OF w n(1)] and l' = left_advance [OF w n(1) l]
  show ?thesis
    unfolding parse_index_slice_def Let_def
  proof (intro good_advance [OF w n(1)] good_if, goal_cases)
    case 1
    then have "cur (advance c) = V_PUNCT PUNCT_DOT_DOT" by (simp add: cur_tests)
    then have "good T (advance c) (Suc (px_pos (advance c)))
        (\<lambda>j y. gram T G_POSTFIX s (px_pos c) e \<longrightarrow> gram T G_POSTFIX s j y) (slice_tail pe s e None (advance c))"
      using a n(2) punct_step [OF a(3) 1]
      by (intro slice_tail_good [OF a(3) l'] impI) (auto intro: g_slice [where lo = None])
    then show ?case by (rule good_mono) (use a(2) in simp_all)
  next
    case 2
    show ?case
    proof (rule good_bind, rule parsesD [OF pe a(3) l'], rule good_if)
      fix x c' assume st: "stepsto T (advance c) c'" and m: "Suc (px_pos (advance c)) \<le> px_pos c'"
        and d: "cur_is_punct c' PUNCT_DOT_DOT"
      note w' = stepsto_wf [OF st] and e' = punct_step [OF stepsto_wf [OF st] d]
      have "good T c' (Suc (px_pos c'))
        (\<lambda>j y. gram T G_EXPR (px_pos (advance c)) (px_pos c') x \<longrightarrow> gram T G_POSTFIX s (px_pos c) e \<longrightarrow> gram T G_POSTFIX s j y)
        (slice_tail pe s e (Some x) c')"
        using d e' n(2) a(2) left_step [OF st] l'
        by (intro slice_tail_good [OF w'] impI) (auto simp: cur_tests intro: g_slice [where lo = "Some x"])
      then show "good T c' (Suc (px_pos c))
        (\<lambda>j y. gram T G_EXPR (px_pos (advance c)) (px_pos c') x \<longrightarrow> gram T G_POSTFIX s (px_pos c) e \<longrightarrow> gram T G_POSTFIX s j y)
        (slice_tail pe s e (Some x) c')"
        by (rule good_mono) (use m a(2) in simp_all)
    next
      fix x c' assume st: "stepsto T (advance c) c'" and m: "Suc (px_pos (advance c)) \<le> px_pos c'"
      then show "good T c' (Suc (px_pos c))
        (\<lambda>j y. gram T G_EXPR (px_pos (advance c)) (px_pos c') x \<longrightarrow> gram T G_POSTFIX s (px_pos c) e \<longrightarrow> gram T G_POSTFIX s j y)
        (pseq (expect_punct PUNCT_RBRACKET) (node_new s (AST_EXPR_INDEX e x)) c')"
        using n(2) a(2) by (intro good_expect_node) (auto intro: stepsto_wf g_index)
    qed
  qed
qed

lemma call_good:
  assumes w: "wf T c" and l: "left T c \<le> Suc n" and b: "cur_is_punct c PUNCT_LPAREN"
  shows "good T c (Suc (px_pos c)) (\<lambda>j y. gram T G_POSTFIX s (px_pos c) e \<longrightarrow> gram T G_POSTFIX s j y)
    (parse_call pe e s c)"
proof -
  note n = punct_step [OF w b]
  note a = advance_step [OF w n(1)] and l' = left_advance [OF w n(1) l]
  show ?thesis
    unfolding parse_call_def
    by (rule good_advance [OF w n(1)], rule good_list_node [OF a(3)], rule args_good [OF a(3) pe l'])
       (use a(2) n(2) in \<open>auto intro: g_call\<close>)
qed

lemma member_good:
  assumes w: "wf T c" and b: "cur_is_punct c (if arrow then PUNCT_ARROW else PUNCT_DOT)"
  shows "good T c (Suc (px_pos c)) (\<lambda>j y. gram T G_POSTFIX s (px_pos c) e \<longrightarrow> gram T G_POSTFIX s j y)
    (parse_member e s arrow c)"
proof -
  note n = punct_step [OF w b]
  note a = advance_step [OF w n(1)]
  show ?thesis
    unfolding parse_member_def Let_def
  proof (intro good_advance [OF w n(1)] good_if good_expected [OF a(3)], goal_cases)
    case 1
    then have "cur_is_ident (advance c)" by simp
    note i = ident_step [OF a(3) this]
    with a(2) n(2) advance_step [OF a(3) i(1)] show ?case
      by (intro good_advance [OF a(3) i(1)] good_node impI) (cases arrow; auto intro: g_member g_arrow)+
  qed
qed

lemma field_init_parses: "parses T n (parse_field_init pe) (gram T G_FIELD_INIT)"
proof (rule parsesI)
  fix c assume w: "wf T c" and l: "left T c \<le> n"
  show "good T c (Suc (px_pos c)) (gram T G_FIELD_INIT (px_pos c)) (parse_field_init pe c)"
    unfolding parse_field_init_def
  proof (intro good_if good_expected [OF w], goal_cases)
    case 1
    then have "cur_is_ident c" by simp
    note i = ident_step [OF w this]
    note a = advance_step [OF w i(1)]
    show ?case
    proof (intro good_advance [OF w i(1)] good_expect_then [OF a(3)])
      assume col: "cur (advance c) = V_PUNCT PUNCT_COLON"
      then have ne: "cur (advance c) \<noteq> V_EOF" by simp
      note b = advance_step [OF a(3) ne]
      have "left T (advance (advance c)) \<le> n" using left_step [OF a(1)] left_step [OF b(1)] l by simp
      then show "good T (advance (advance c)) (Suc (px_pos c)) (gram T G_FIELD_INIT (px_pos c))
        (pbind pe (\<lambda>v. node_new (px_pos c) (AST_FIELD_INIT (cur_ident c) v)) (advance (advance c)))"
        using a(2) b(2) i(2) col cur_tokv [OF a(3)]
        by (intro good_node_bind [OF pe b(3)]) (auto intro: g_field_init)
    qed
  qed
qed

lemma struct_init_good:
  assumes w: "wf T c" and l: "left T c \<le> Suc n" and b: "cur_is_punct c PUNCT_LBRACE"
  shows "good T c (Suc (px_pos c)) (\<lambda>j y. gram T G_POSTFIX s (px_pos c) e \<longrightarrow> gram T G_POSTFIX s j y)
    (parse_struct_init pe e s c)"
proof -
  note n = punct_step [OF w b]
  note a = advance_step [OF w n(1)] and l' = left_advance [OF w n(1) l]
  show ?thesis
    unfolding parse_struct_init_def
    by (rule good_advance [OF w n(1)], rule good_list_node [OF a(3)], rule items_good [OF a(3) field_init_parses l'])
       (use a(2) n(2) in \<open>auto intro: g_struct_init\<close>)
qed

lemma postfix_parses: "parses T (Suc n) (parse_postfix pe) (gram T G_POSTFIX)"
proof (rule parsesI)
  fix c assume w: "wf T c" and l: "left T c \<le> Suc n"
  show "good T c (Suc (px_pos c)) (gram T G_POSTFIX (px_pos c)) (parse_postfix pe c)"
    unfolding parse_postfix_def postfix_loop_def
  proof (rule good_bind, rule parsesD [OF primary_parses w l])
    fix x c' assume st: "stepsto T c c'" and m: "Suc (px_pos c) \<le> px_pos c'"
    have "good T c' (px_pos c')
      (\<lambda>j y. (gram T G_POSTFIX (px_pos c) (px_pos c') x \<longrightarrow> gram T G_POSTFIX (px_pos c) j y) \<and> True)
      (ploop (cur_is_punct_in PUNCTS_POSTFIX) (postfix_one pe (px_pos c)) x c')"
    proof (rule good_loop [OF stepsto_wf [OF st]])
      fix acc d assume s: "stepsto T c' d" and b: "cur_is_punct_in PUNCTS_POSTFIX d"
      note w' = stepsto_wf [OF s]
      have l': "left T d \<le> Suc n" using left_step [OF stepsto_trans [OF st s]] l by simp
      show "good T d (Suc (px_pos d)) (\<lambda>j y. gram T G_POSTFIX (px_pos c) (px_pos d) acc \<longrightarrow> gram T G_POSTFIX (px_pos c) j y)
        (postfix_one pe (px_pos c) acc d)"
        unfolding postfix_one_def
        by (intro good_if index_slice_good call_good member_good struct_init_good w' l')
           (use b in \<open>auto simp: PUNCTS_POSTFIX_def cur_tests\<close>)
    qed simp
    then show "good T c' (Suc (px_pos c))
      (\<lambda>j y. gram T G_PRIMARY (px_pos c) (px_pos c') x \<longrightarrow> gram T G_POSTFIX (px_pos c) j y)
      (ploop (cur_is_punct_in PUNCTS_POSTFIX) (postfix_one pe (px_pos c)) x c')"
      by (rule good_mono) (use m in \<open>auto intro: g_primary\<close>)
  qed
qed

lemma len_ptr_good:
  assumes w: "wf T c" and l: "left T c \<le> Suc n" and k: "cur_is_kw c (if is_len then KW_LEN else KW_PTR)"
  shows "good T c (Suc (px_pos c)) (gram T G_UNARY (px_pos c)) (parse_len_ptr pe is_len c)"
proof -
  note n = kw_step [OF w k]
  note a = advance_step [OF w n(1)]
  show ?thesis
    unfolding parse_len_ptr_def
  proof (intro good_advance [OF w n(1)] good_expect_then [OF a(3)])
    assume d: "cur (advance c) = V_PUNCT PUNCT_LPAREN"
    then have ne': "cur (advance c) \<noteq> V_EOF" by simp
    note b = advance_step [OF a(3) ne']
    have "left T (advance (advance c)) \<le> n" using left_advance [OF w n(1) l] left_step [OF b(1)] by simp
    then show "good T (advance (advance c)) (Suc (px_pos c)) (gram T G_UNARY (px_pos c))
      (pbind pe (\<lambda>e. pseq (expect_punct PUNCT_RPAREN) (node_new (px_pos c) (if is_len then AST_EXPR_LEN e else AST_EXPR_PTR e)))
         (advance (advance c)))"
      using a(2) b(2) d cur_tokv [OF a(3)] n(2)
      by (intro good_node_after [OF pe b(3)]) (auto intro: g_len [where is_len = is_len])
  qed
qed

lemma sizeof_good:
  assumes w: "wf T c" and l: "left T c \<le> Suc n" and k: "cur_is_kw c KW_SIZEOF"
  shows "good T c (Suc (px_pos c)) (gram T G_UNARY (px_pos c)) (parse_sizeof pe c)"
proof -
  note n = kw_step [OF w k]
  note a = advance_step [OF w n(1)]
  show ?thesis
    unfolding parse_sizeof_def
  proof (intro good_advance [OF w n(1)] good_expect_then [OF a(3)] good_if)
    assume d: "cur (advance c) = V_PUNCT PUNCT_LPAREN" and t: "sizeof_operand_is_type (advance (advance c))"
    then have ne': "cur (advance c) \<noteq> V_EOF" by simp
    note b = advance_step [OF a(3) ne']
    have l': "left T (advance (advance c)) \<le> Suc n" using l left_step [OF a(1)] left_step [OF b(1)] by simp
    have "px_type_names (advance (advance c)) = prescan_from 0 (snd T)" using b(3) by (simp add: wf_def)
    then have "type_operand T (Suc (Suc (px_pos c)))"
      using t cur_tokv [OF b(3)] a(2) b(2)
      by (auto simp: sizeof_operand_is_type_def type_operand_def type_name_exists_def split: lex_val.splits if_splits)
    then show "good T (advance (advance c)) (Suc (px_pos c)) (gram T G_UNARY (px_pos c))
      (pbind (parse_type pe) (\<lambda>t. pseq (expect_punct PUNCT_RPAREN) (node_new (px_pos c) (AST_EXPR_SIZEOF_TYPE t)))
         (advance (advance c)))"
      using a(2) b(2) d cur_tokv [OF a(3)] n(2) l'
      by (intro good_node_after [OF type_parses b(3)]) (auto intro: g_sizeof_type)
  next
    assume d: "cur (advance c) = V_PUNCT PUNCT_LPAREN"
    then have ne': "cur (advance c) \<noteq> V_EOF" by simp
    note b = advance_step [OF a(3) ne']
    have "left T (advance (advance c)) \<le> n" using left_advance [OF w n(1) l] left_step [OF b(1)] by simp
    then show "good T (advance (advance c)) (Suc (px_pos c)) (gram T G_UNARY (px_pos c))
      (pbind pe (\<lambda>e. pseq (expect_punct PUNCT_RPAREN) (node_new (px_pos c) (AST_EXPR_SIZEOF_EXPR e)))
         (advance (advance c)))"
      using a(2) b(2) d cur_tokv [OF a(3)] n(2)
      by (intro good_node_after [OF pe b(3)]) (auto intro: g_sizeof_expr)
  qed
qed

lemma cast_wrap_good:
  assumes w: "wf T c" and l: "left T c \<le> Suc n" and k: "cur_is_kw c (if is_cast then KW_CAST else KW_WRAP)"
  shows "good T c (Suc (px_pos c)) (gram T G_UNARY (px_pos c)) (parse_cast_wrap pe is_cast c)"
proof -
  note n = kw_step [OF w k]
  note a = advance_step [OF w n(1)]
  show ?thesis
    unfolding parse_cast_wrap_def
  proof (intro good_advance [OF w n(1)] good_expect_then [OF a(3)], rule good_bind)
    assume d: "cur (advance c) = V_PUNCT PUNCT_LT"
    then have ne': "cur (advance c) \<noteq> V_EOF" by simp
    note b = advance_step [OF a(3) ne']
    have l2: "left T (advance (advance c)) \<le> n" using left_advance [OF w n(1) l] left_step [OF b(1)] by simp
    show "good T (advance (advance c)) (Suc (px_pos (advance (advance c))))
      (gram T G_TYPE (px_pos (advance (advance c)))) (parse_type pe (advance (advance c)))"
      using l2 by (intro parsesD [OF type_parses b(3)]) simp
    fix t c' assume st: "stepsto T (advance (advance c)) c'" and m: "Suc (px_pos (advance (advance c))) \<le> px_pos c'"
    show "good T c' (Suc (px_pos c)) (\<lambda>j y. gram T G_TYPE (px_pos (advance (advance c))) (px_pos c') t \<longrightarrow> gram T G_UNARY (px_pos c) j y)
      (pseq (expect_punct PUNCT_GT) (pseq (expect_punct PUNCT_LPAREN) (pbind pe (\<lambda>e. pseq (expect_punct PUNCT_RPAREN)
        (node_new (px_pos c) (if is_cast then AST_EXPR_CAST t e else AST_EXPR_WRAP t e))))) c')"
    proof (rule good_expect_then [OF stepsto_wf [OF st]])
      assume d1: "cur c' = V_PUNCT PUNCT_GT"
      then have ne1: "cur c' \<noteq> V_EOF" by simp
      note c1 = advance_step [OF stepsto_wf [OF st] ne1]
      show "good T (advance c') (Suc (px_pos c)) (\<lambda>j y. gram T G_TYPE (px_pos (advance (advance c))) (px_pos c') t \<longrightarrow> gram T G_UNARY (px_pos c) j y)
        (pseq (expect_punct PUNCT_LPAREN) (pbind pe (\<lambda>e. pseq (expect_punct PUNCT_RPAREN)
          (node_new (px_pos c) (if is_cast then AST_EXPR_CAST t e else AST_EXPR_WRAP t e)))) (advance c'))"
      proof (rule good_expect_then [OF c1(3)])
        assume d2: "cur (advance c') = V_PUNCT PUNCT_LPAREN"
        then have ne2: "cur (advance c') \<noteq> V_EOF" by simp
        note c2 = advance_step [OF c1(3) ne2]
        have "left T (advance (advance c')) \<le> n" using l2 left_step [OF st] left_step [OF c1(1)] left_step [OF c2(1)] by simp
        then show "good T (advance (advance c')) (Suc (px_pos c))
          (\<lambda>j y. gram T G_TYPE (px_pos (advance (advance c))) (px_pos c') t \<longrightarrow> gram T G_UNARY (px_pos c) j y)
          (pbind pe (\<lambda>e. pseq (expect_punct PUNCT_RPAREN)
            (node_new (px_pos c) (if is_cast then AST_EXPR_CAST t e else AST_EXPR_WRAP t e))) (advance (advance c')))"
          using a(2) b(2) c1(2) c2(2) d d1 d2 cur_tokv [OF a(3)] cur_tokv [OF stepsto_wf [OF st]] cur_tokv [OF c1(3)] n(2) m
          by (intro good_node_after [OF pe c2(3)] impI) (auto intro: g_cast [where is_cast = is_cast])
      qed
    qed
  qed
qed

lemma unary_parses:
  assumes pu: "parses T n pu (gram T G_UNARY)"
  shows "parses T (Suc n) (parse_unary pe pu) (gram T G_UNARY)"
proof (rule parsesI)
  fix c assume w: "wf T c" and l: "left T c \<le> Suc n"
  show "good T c (Suc (px_pos c)) (gram T G_UNARY (px_pos c)) (parse_unary pe pu c)"
    unfolding parse_unary_def
  proof (intro good_if sizeof_good cast_wrap_good len_ptr_good w l, goal_cases)
    case 2
    have al: "cur_is_kw c KW_ALIGNOF" by fact
    note n = kw_step [OF w al]
    note a = advance_step [OF w n(1)]
    show ?case
      unfolding parse_alignof_def
    proof (intro good_advance [OF w n(1)] good_expect_then [OF a(3)])
      assume d: "cur (advance c) = V_PUNCT PUNCT_LPAREN"
      then have ne': "cur (advance c) \<noteq> V_EOF" by simp
      note b = advance_step [OF a(3) ne']
      have l': "left T (advance (advance c)) \<le> Suc n" using l left_step [OF a(1)] left_step [OF b(1)] by simp
      show "good T (advance (advance c)) (Suc (px_pos c)) (gram T G_UNARY (px_pos c))
        (pbind (parse_type pe) (\<lambda>t. pseq (expect_punct PUNCT_RPAREN) (node_new (px_pos c) (AST_EXPR_ALIGNOF t)))
           (advance (advance c)))"
        by (rule good_node_after [OF type_parses b(3) l'])
           (use a(2) b(2) d cur_tokv [OF a(3)] n(2) in \<open>auto intro: g_alignof\<close>)
    qed
  next
    case 7
    then obtain p where p: "p \<in> set PUNCTS_UNARY" "cur c = V_PUNCT p" by (auto simp: cur_tests)
    then have n: "cur c \<noteq> V_EOF" by simp
    note a = advance_step [OF w n] and l' = left_advance [OF w n l]
    show ?case
      unfolding make_unary_def
      by (rule good_advance [OF w n], rule good_node_bind [OF pu a(3) l'])
         (use a(2) p cur_tokv [OF w] cur_tests(5) [OF p(2)] in \<open>auto intro: g_unary\<close>)
  next
    case 8
    show ?case by (rule good_mono [OF parsesD [OF postfix_parses w l]]) (auto intro: g_postfix)
  qed (simp_all)
qed

end

section \<open>Binary levels, conditional and assignment\<close>

lemma binary_level_parses:
  assumes sub: "parses T n sub (gram T (G_BIN k))" and k: "k < length bin_levels"
  shows "parses T n (binary_level (bin_levels ! k) sub) (gram T (G_BIN (Suc k)))"
proof (rule parsesI)
  fix c assume w: "wf T c" and l: "left T c \<le> n"
  let ?G = "gram T (G_BIN (Suc k)) (px_pos c)"
  show "good T c (Suc (px_pos c)) ?G (binary_level (bin_levels ! k) sub c)"
    unfolding binary_level_def binary_loop_def
  proof (rule good_bind, rule parsesD [OF sub w l])
    fix x c' assume st: "stepsto T c c'" and m: "Suc (px_pos c) \<le> px_pos c'"
    have "good T c' (px_pos c') (\<lambda>j y. (?G (px_pos c') x \<longrightarrow> ?G j y) \<and> True)
      (ploop (cur_is_punct_in (bin_levels ! k)) (binary_one sub (px_pos c)) x c')"
    proof (rule good_loop [OF stepsto_wf [OF st]])
      fix acc d assume s: "stepsto T c' d" and "cur_is_punct_in (bin_levels ! k) d"
      then obtain p where p: "p \<in> set (bin_levels ! k)" "cur d = V_PUNCT p" by (auto simp: cur_tests)
      note w' = stepsto_wf [OF s]
      have n: "cur d \<noteq> V_EOF" using p by simp
      note a = advance_step [OF w' n]
      have l': "left T (advance d) \<le> n" using left_step [OF stepsto_trans [OF st s]] left_step [OF a(1)] l by simp
      show "good T d (Suc (px_pos d)) (\<lambda>j y. ?G (px_pos d) acc \<longrightarrow> ?G j y) (binary_one sub (px_pos c) acc d)"
        unfolding binary_one_def make_binary_def
        by (rule good_advance [OF w' n], rule good_node_bind [OF sub a(3) l'])
           (use a(2) p cur_tokv [OF w'] cur_tests(5) [OF p(2)] k in \<open>auto intro: g_bin\<close>)
    qed simp
    then show "good T c' (Suc (px_pos c)) (\<lambda>j y. gram T (G_BIN k) (px_pos c) (px_pos c') x \<longrightarrow> ?G j y)
      (ploop (cur_is_punct_in (bin_levels ! k)) (binary_one sub (px_pos c)) x c')"
      by (rule good_mono) (use m k in \<open>auto intro: g_bin_up\<close>)
  qed
qed

lemma bin_level_nth:
  "PUNCTS_MULT = bin_levels ! 0" "PUNCTS_ADD = bin_levels ! 1" "PUNCTS_SHIFT = bin_levels ! 2"
  "PUNCTS_REL = bin_levels ! 3" "PUNCTS_EQ = bin_levels ! 4" "[PUNCT_AMP] = bin_levels ! 5"
  "[PUNCT_XOR] = bin_levels ! 6" "[PUNCT_OR] = bin_levels ! 7" "[PUNCT_AND_AND] = bin_levels ! 8"
  "[PUNCT_OR_OR] = bin_levels ! 9" "length bin_levels = 10"
  by (simp_all add: bin_levels_def numeral_eq_Suc)

fun bin_upto :: "node_parser \<Rightarrow> nat \<Rightarrow> node_parser" where
  "bin_upto pu 0 = pu"
| "bin_upto pu (Suc k) = binary_level (bin_levels ! k) (bin_upto pu k)"

lemma logical_or_levels: "parse_logical_or pu = bin_upto pu (length bin_levels)"
  by (simp add: parse_logical_or_def parse_logical_and_def parse_bit_or_def parse_bit_xor_def parse_bit_and_def
    parse_equality_def parse_relational_def parse_shift_def parse_additive_def parse_multiplicative_def
    bin_level_nth numeral_eq_Suc)

lemma logical_or_parses:
  assumes "parses T n pu (gram T G_UNARY)"
  shows "parses T n (parse_logical_or pu) (gram T (G_BIN (length bin_levels)))"
proof -
  have "k \<le> length bin_levels \<Longrightarrow> parses T n (bin_upto pu k) (gram T (G_BIN k))" for k
  proof (induction k)
    case 0
    show ?case
    proof (rule parsesI)
      fix c assume "wf T c" and "left T c \<le> n"
      from parsesD [OF assms this] show "good T c (Suc (px_pos c)) (gram T (G_BIN 0) (px_pos c)) (bin_upto pu 0 c)"
        by (simp, elim good_mono) (auto intro: g_bin_0)
    qed
  next
    case (Suc k)
    then show ?case by (simp add: binary_level_parses)
  qed
  then show ?thesis by (simp add: logical_or_levels)
qed

lemma conditional_parses:
  assumes pe: "parses T n pe (gram T G_EXPR)" and pu: "parses T (Suc n) pu (gram T G_UNARY)"
    and pc: "parses T n pc (gram T G_COND)"
  shows "parses T (Suc n) (parse_conditional pe pu pc) (gram T G_COND)"
proof (rule parsesI)
  fix c assume w: "wf T c" and l: "left T c \<le> Suc n"
  let ?B = "gram T (G_BIN (length bin_levels)) (px_pos c)" and ?G = "gram T G_COND (px_pos c)"
  show "good T c (Suc (px_pos c)) ?G (parse_conditional pe pu pc c)"
    unfolding parse_conditional_def
  proof (rule good_bind, rule parsesD [OF logical_or_parses [OF pu] w l], rule good_if)
    fix x c' assume st: "stepsto T c c'" and "Suc (px_pos c) \<le> px_pos c'"
    then show "good T c' (Suc (px_pos c)) (\<lambda>j y. ?B (px_pos c') x \<longrightarrow> ?G j y) (p_return x c')"
      by (intro good_return) (auto intro: stepsto_wf g_logical_or)
  next
    fix x c' assume st: "stepsto T c c'" and m: "Suc (px_pos c) \<le> px_pos c'"
      and q: "\<not> \<not> cur_is_punct c' PUNCT_QUESTION"
    note w' = stepsto_wf [OF st]
    note n = punct_step [OF w' q [unfolded not_not]]
    note a = advance_step [OF w' n(1)]
    have l': "left T (advance c') \<le> n"
      using left_step [OF st] l by (intro left_advance [OF w' n(1)]) simp
    show "good T c' (Suc (px_pos c)) (\<lambda>j y. ?B (px_pos c') x \<longrightarrow> ?G j y)
      (pbind pe (\<lambda>b. pseq (expect_punct PUNCT_COLON) (pbind pc (\<lambda>e. node_new (px_pos c) (AST_EXPR_TERNARY x b e)))) (advance c'))"
    proof (rule good_advance [OF w' n(1)], rule good_bind, rule parsesD [OF pe a(3) l'])
      fix b d assume s: "stepsto T (advance c') d" and m': "Suc (px_pos (advance c')) \<le> px_pos d"
      show "good T d (Suc (px_pos c)) (\<lambda>j y. gram T G_EXPR (px_pos (advance c')) (px_pos d) b \<longrightarrow> ?B (px_pos c') x \<longrightarrow> ?G j y)
        (pseq (expect_punct PUNCT_COLON) (pbind pc (\<lambda>e. node_new (px_pos c) (AST_EXPR_TERNARY x b e))) d)"
      proof (rule good_expect_then [OF stepsto_wf [OF s]])
        assume d: "cur d = V_PUNCT PUNCT_COLON"
        then have ne: "cur d \<noteq> V_EOF" by simp
        note e = advance_step [OF stepsto_wf [OF s] ne]
        have "left T (advance d) \<le> n" using l' left_step [OF s] left_step [OF e(1)] by simp
        then show "good T (advance d) (Suc (px_pos c))
          (\<lambda>j y. gram T G_EXPR (px_pos (advance c')) (px_pos d) b \<longrightarrow> ?B (px_pos c') x \<longrightarrow> ?G j y)
          (pbind pc (\<lambda>e. node_new (px_pos c) (AST_EXPR_TERNARY x b e)) (advance d))"
          using m m' a(2) e(2) d cur_tokv [OF stepsto_wf [OF s]] n(2)
          by (intro good_node_bind [OF pc e(3)]) (auto intro: g_ternary)
      qed
    qed
  qed
qed

lemma assignment_parses:
  assumes pe: "parses T n pe (gram T G_EXPR)" and pc: "parses T (Suc n) pc (gram T G_COND)"
  shows "parses T (Suc n) (parse_assignment pe pc) (gram T G_EXPR)"
proof (rule parsesI)
  fix c assume w: "wf T c" and l: "left T c \<le> Suc n"
  let ?B = "gram T G_COND (px_pos c)" and ?G = "gram T G_EXPR (px_pos c)"
  show "good T c (Suc (px_pos c)) ?G (parse_assignment pe pc c)"
    unfolding parse_assignment_def
  proof (rule good_bind, rule parsesD [OF pc w l], rule good_if)
    fix x c' assume st: "stepsto T c c'" and "Suc (px_pos c) \<le> px_pos c'"
    then show "good T c' (Suc (px_pos c)) (\<lambda>j y. ?B (px_pos c') x \<longrightarrow> ?G j y) (p_return x c')"
      by (intro good_return) (auto intro: stepsto_wf g_conditional)
  next
    fix x c' assume st: "stepsto T c c'" and m: "Suc (px_pos c) \<le> px_pos c'"
      and "\<not> \<not> cur_is_punct_in PUNCTS_ASSIGN c'"
    then obtain p where p: "p \<in> set PUNCTS_ASSIGN" "cur c' = V_PUNCT p" by (auto simp: cur_tests)
    note w' = stepsto_wf [OF st]
    have n: "cur c' \<noteq> V_EOF" using p by simp
    note a = advance_step [OF w' n]
    have l': "left T (advance c') \<le> n" using left_step [OF st] l by (intro left_advance [OF w' n]) simp
    show "good T c' (Suc (px_pos c)) (\<lambda>j y. ?B (px_pos c') x \<longrightarrow> ?G j y)
      (pbind pe (\<lambda>v. node_new (px_pos c) (AST_EXPR_ASSIGN (assign_op_of (cur_punct c')) x v)) (advance c'))"
      by (rule good_advance [OF w' n], rule good_node_bind [OF pe a(3) l'])
         (use a(2) m p cur_tokv [OF w'] cur_tests(5) [OF p(2)] in \<open>auto intro: g_assign\<close>)
  qed
qed

section \<open>The recursion\<close>

lemma expr_nt_parses:
  "parses T n (parse_expr_nt NT_EXPR) (gram T G_EXPR) \<and>
   parses T n (parse_expr_nt NT_CONDITIONAL) (gram T G_COND) \<and>
   parses T n (parse_expr_nt NT_UNARY) (gram T G_UNARY)"
proof (induction n)
  case 0
  then show ?case by (auto simp: parses_def left_def wf_def)
next
  case (Suc n)
  have eq: "parse_expr_nt NT_EXPR = parse_assignment (parse_expr_nt NT_EXPR) (parse_expr_nt NT_CONDITIONAL)"
    "parse_expr_nt NT_CONDITIONAL =
       parse_conditional (parse_expr_nt NT_EXPR) (parse_expr_nt NT_UNARY) (parse_expr_nt NT_CONDITIONAL)"
    "parse_expr_nt NT_UNARY = parse_unary (parse_expr_nt NT_EXPR) (parse_expr_nt NT_UNARY)"
    by (rule ext, simp add: parse_expr_eqs parse_expr_def)+
  have e: "expr_parser T n (parse_expr_nt NT_EXPR)"
    using Suc by unfold_locales blast
  have u: "parses T (Suc n) (parse_expr_nt NT_UNARY) (gram T G_UNARY)"
    using expr_parser.unary_parses [OF e] Suc eq(3) by metis
  have c: "parses T (Suc n) (parse_expr_nt NT_CONDITIONAL) (gram T G_COND)"
    using conditional_parses u Suc eq(2) by metis
  have "parses T (Suc n) (parse_expr_nt NT_EXPR) (gram T G_EXPR)"
    using assignment_parses c Suc eq(1) by metis
  with u c show ?case by blast
qed

interpretation expr: expr_parser T n parse_expr for T n
  using expr_nt_parses by unfold_locales (simp add: parse_expr_def)

end
