(* ===== verification/Parse.thy ===== *)
theory Parse
  imports ParseExpr
begin

text \<open>
  Statements, declarations and \<open>parse_program\<close>. Arguments \<open>pe\<close>, \<open>ps\<close>, \<open>pb\<close> and \<open>pif\<close> stand for
  \<open>parse_expr\<close>, \<open>parse_statement\<close>, \<open>parse_block\<close> and \<open>parse_if\<close>; \<open>parse_stmt_nt\<close> ties the
  recursion.
\<close>

section \<open>Scopes and lists with recovery\<close>

text \<open>\<open>scope_push\<close>, the body, and \<open>scope_pop\<close> on every way out.\<close>

definition scoped :: "'a parser \<Rightarrow> 'a parser" where
  "scoped p c = Option.bind (p (scope_push c)) (\<lambda>(r, c'). Some (r, scope_pop c'))"

text \<open>One item of a list: push it, or recover and go on without it.\<close>

definition item_step :: "'a parser \<Rightarrow> (parse_ctx \<Rightarrow> parse_ctx option) \<Rightarrow> 'a list \<Rightarrow> 'a list parser" where
  "item_step p recover items c =
     Option.bind (p c) (\<lambda>(r, c').
       case r of
         Some x \<Rightarrow> p_return (items @ [x]) c'
       | None \<Rightarrow> Option.bind (recover c') (p_return items))"

definition before_close :: "parse_ctx \<Rightarrow> bool" where
  "before_close c \<longleftrightarrow> \<not> cur_is_punct c PUNCT_RBRACE \<and> \<not> cur_is_eof c"

definition item_loop :: "'a parser \<Rightarrow> (parse_ctx \<Rightarrow> parse_ctx option) \<Rightarrow> 'a list \<Rightarrow> 'a list parser" where
  "item_loop p recover = ploop before_close (item_step p recover)"

text \<open>The items up to the closing brace, which must be there.\<close>

definition braced_items :: "'a parser \<Rightarrow> (parse_ctx \<Rightarrow> parse_ctx option) \<Rightarrow> 'a list parser" where
  "braced_items p recover =
     pbind (item_loop p recover []) (\<lambda>items. pseq (expect_punct PUNCT_RBRACE) (p_return items))"

text \<open>A controlled body: an opening brace is required, the record spans the statement's head.\<close>

definition controlled :: "nat \<Rightarrow> 'a parser \<Rightarrow> 'a parser" where
  "controlled s p c =
     (if \<not> cur_is_punct c PUNCT_LBRACE then
        p_null (report_syntax c ''AIC-S0104'' ''controlled body must be enclosed in braces''
                  (span_from c s (px_pos c)))
      else p c)"

section \<open>Statements\<close>

definition parse_block :: "node_parser \<Rightarrow> node_parser" where
  "parse_block ps c =
     (if \<not> cur_is_punct c PUNCT_LBRACE then p_null (err_expected c (quoted ''{''))
      else
        pbind (scoped (\<lambda>c1. braced_items ps recover_statement (advance c1)))
          (\<lambda>items. node_new (px_pos c) (AST_BLOCK items)) c)"

definition parse_local_var_decl :: "node_parser \<Rightarrow> bool \<Rightarrow> node_parser" where
  "parse_local_var_decl pe is_const c =
     (let s = px_pos c; c1 = advance c in
      if \<not> cur_is_ident c1 then p_null (err_expected c1 ''identifier'')
      else
        (let name = cur_ident c1 in
         pseq (expect_punct PUNCT_COLON)
           (pbind (parse_type pe) (\<lambda>ty.
              if is_const then
                pseq (expect_punct PUNCT_ASSIGN)
                  (pbind pe (\<lambda>i. pseq (expect_punct PUNCT_SEMI) (node_new s (AST_CONST_DECL name ty i))))
              else
                pbind (popt (\<lambda>c. cur_is_punct c PUNCT_ASSIGN) (\<lambda>c. pe (advance c))) (\<lambda>i.
                  pseq (expect_punct PUNCT_SEMI) (node_new s (AST_VAR_DECL name ty i)))))
           (scope_declare_value name s (advance c1))))"

definition parse_local_const_decl :: "node_parser \<Rightarrow> node_parser" where
  "parse_local_const_decl pe = parse_local_var_decl pe True"

text \<open>\<open>( expr )\<close> after the keyword of a statement.\<close>

definition paren_expr :: "node_parser \<Rightarrow> node_parser" where
  "paren_expr pe =
     pseq (expect_punct PUNCT_LPAREN)
       (pbind pe (\<lambda>e. pseq (expect_punct PUNCT_RPAREN) (p_return e)))"

definition parse_else :: "node_parser \<Rightarrow> node_parser \<Rightarrow> node_parser" where
  "parse_else pb pif c =
     (let c1 = advance c in
      if cur_is_kw c1 KW_IF then pif c1
      else if cur_is_punct c1 PUNCT_LBRACE then pb c1
      else p_null (err_expected c1 (quoted ''if'' @ '' or '' @ quoted ''{'')))"

definition parse_if :: "node_parser \<Rightarrow> node_parser \<Rightarrow> node_parser \<Rightarrow> node_parser" where
  "parse_if pe pb pif c =
     (let s = px_pos c in
      pbind (paren_expr pe) (\<lambda>cond.
        pbind (controlled s pb) (\<lambda>a.
          pbind (popt (\<lambda>c. cur_is_kw c KW_ELSE) (parse_else pb pif)) (\<lambda>b.
            node_new s (AST_IF cond a b)))) (advance c))"

definition parse_while :: "node_parser \<Rightarrow> node_parser \<Rightarrow> node_parser" where
  "parse_while pe pb c =
     (let s = px_pos c in
      pbind (paren_expr pe) (\<lambda>cond.
        pbind (controlled s pb) (\<lambda>body. node_new s (AST_WHILE cond body))) (advance c))"

definition for_init :: "node_parser \<Rightarrow> ast_node option parser" where
  "for_init pe c =
     (if cur_is_kw c KW_VAR then pbind (parse_local_var_decl pe False) (\<lambda>d. p_return (Some d)) c
      else if cur_is_kw c KW_CONST then pbind (parse_local_const_decl pe) (\<lambda>d. p_return (Some d)) c
      else if cur_is_punct c PUNCT_SEMI then p_return None (advance c)
      else pbind pe (\<lambda>e. pseq (expect_punct PUNCT_SEMI) (p_return (Some e))) c)"

definition parse_for :: "node_parser \<Rightarrow> node_parser \<Rightarrow> node_parser" where
  "parse_for pe pb c =
     (let s = px_pos c in
      pseq (expect_punct PUNCT_LPAREN)
        (pbind
          (scoped
            (pbind (for_init pe) (\<lambda>ini.
             pbind (popt (\<lambda>c. \<not> cur_is_punct c PUNCT_SEMI) pe) (\<lambda>cond.
             pseq (expect_punct PUNCT_SEMI)
            (pbind (popt (\<lambda>c. \<not> cur_is_punct c PUNCT_RPAREN) pe) (\<lambda>st.
             pseq (expect_punct PUNCT_RPAREN)
            (pbind (controlled s pb) (\<lambda>body. p_return (AST_FOR ini cond st body))))))))) (\<lambda>b. node_new s b))
        (advance c))"

definition parse_switch_clause :: "node_parser \<Rightarrow> node_parser \<Rightarrow> node_parser" where
  "parse_switch_clause pe pb c =
     (let s = px_pos c in
      if cur_is_kw c KW_CASE then
        pbind pe (\<lambda>v. pseq (expect_punct PUNCT_COLON)
          (pbind (controlled s pb) (\<lambda>body. node_new s (AST_CASE_CLAUSE v body)))) (advance c)
      else if cur_is_kw c KW_DEFAULT then
        pseq (expect_punct PUNCT_COLON)
          (pbind (controlled s pb) (\<lambda>body. node_new s (AST_DEFAULT_CLAUSE body))) (advance c)
      else p_null (err_expected c (quoted ''case'' @ '' or '' @ quoted ''default'')))"

definition parse_switch :: "node_parser \<Rightarrow> node_parser \<Rightarrow> node_parser" where
  "parse_switch pe pb c =
     (let s = px_pos c in
      pbind (paren_expr pe) (\<lambda>sel.
        pseq (expect_punct PUNCT_LBRACE)
          (pbind (braced_items (parse_switch_clause pe pb) recover_switch_clause) (\<lambda>cases.
             node_new s (AST_SWITCH sel cases)))) (advance c))"

definition parse_break_continue :: "bool \<Rightarrow> node_parser" where
  "parse_break_continue is_break c =
     pseq (expect_punct PUNCT_SEMI)
       (node_new (px_pos c) (if is_break then AST_BREAK else AST_CONTINUE)) (advance c)"

definition parse_return :: "node_parser \<Rightarrow> node_parser" where
  "parse_return pe c =
     pbind (popt tok_starts_expr pe) (\<lambda>v.
       pseq (expect_punct PUNCT_SEMI) (node_new (px_pos c) (AST_RETURN v))) (advance c)"

definition parse_expr_stmt :: "node_parser \<Rightarrow> node_parser" where
  "parse_expr_stmt pe c =
     pbind pe (\<lambda>e. pseq (expect_punct PUNCT_SEMI) (node_new (px_pos c) (AST_EXPR_STMT e))) c"

definition expr_stmt_or_unexpected :: "node_parser \<Rightarrow> node_parser" where
  "expr_stmt_or_unexpected pe c =
     (if \<not> tok_starts_expr c then p_null (err_unexpected c) else parse_expr_stmt pe c)"

definition parse_statement :: "node_parser \<Rightarrow> node_parser \<Rightarrow> node_parser \<Rightarrow> node_parser" where
  "parse_statement pe pb pif c =
     (case cur c of
        V_PUNCT p \<Rightarrow>
          (if p = PUNCT_LBRACE then pb c
           else if p = PUNCT_SEMI then node_new (px_pos c) AST_EMPTY_STMT (advance c)
           else expr_stmt_or_unexpected pe c)
      | V_KEYWORD k \<Rightarrow>
          (if k = KW_VAR then parse_local_var_decl pe False c
           else if k = KW_CONST then parse_local_const_decl pe c
           else if k = KW_IF then pif c
           else if k = KW_WHILE then parse_while pe pb c
           else if k = KW_FOR then parse_for pe pb c
           else if k = KW_SWITCH then parse_switch pe pb c
           else if k = KW_BREAK then parse_break_continue True c
           else if k = KW_CONTINUE then parse_break_continue False c
           else if k = KW_RETURN then parse_return pe c
           else expr_stmt_or_unexpected pe c)
      | _ \<Rightarrow> parse_expr_stmt pe c)"

section \<open>The recursion of statements\<close>

lemma scoped_mono [partial_function_mono, parse_mono]:
  fixes p :: "('x \<Rightarrow> 'y option) \<Rightarrow> 'a parser"
  assumes "\<And>c. mono_option (\<lambda>f. p f c)"
  shows "mono_option (\<lambda>f. scoped (p f) c)"
  unfolding scoped_def by (intro bind_mono assms) (auto intro: option.const_mono)

lemma braced_items_mono [partial_function_mono, parse_mono]:
  fixes p :: "('x \<Rightarrow> 'y option) \<Rightarrow> 'a parser"
  assumes "\<And>c. mono_option (\<lambda>f. p f c)"
  shows "mono_option (\<lambda>f. braced_items (p f) recover c)"
proof -
  have "mono_option (\<lambda>f. item_step (p f) recover items c)" for items c
    unfolding item_step_def by (intro bind_mono assms) (auto intro: option.const_mono)
  then show ?thesis
    unfolding braced_items_def item_loop_def by (intro parse_mono_base)
qed

lemma controlled_mono [partial_function_mono, parse_mono]:
  fixes p :: "('x \<Rightarrow> 'y option) \<Rightarrow> 'a parser"
  assumes "\<And>c. mono_option (\<lambda>f. p f c)"
  shows "mono_option (\<lambda>f. controlled s (p f) c)"
  unfolding controlled_def by (intro parse_mono_base assms)

lemma parse_block_mono [partial_function_mono]:
  fixes ps :: "('x \<Rightarrow> 'y option) \<Rightarrow> node_parser"
  assumes "\<And>c. mono_option (\<lambda>f. ps f c)"
  shows "mono_option (\<lambda>f. parse_block (ps f) c)"
  unfolding parse_block_def by (intro parse_mono_base parse_mono assms)

lemma parse_if_mono [partial_function_mono]:
  fixes pb pif :: "('x \<Rightarrow> 'y option) \<Rightarrow> node_parser"
  assumes "\<And>c. mono_option (\<lambda>f. pb f c)" and "\<And>c. mono_option (\<lambda>f. pif f c)"
  shows "mono_option (\<lambda>f. parse_if pe (pb f) (pif f) c)"
  unfolding parse_if_def parse_else_def Let_def by (intro parse_mono_base parse_mono assms)

lemma parse_statement_mono [partial_function_mono]:
  fixes pb pif :: "('x \<Rightarrow> 'y option) \<Rightarrow> node_parser"
  assumes pb: "\<And>c. mono_option (\<lambda>f. pb f c)" and pif: "\<And>c. mono_option (\<lambda>f. pif f c)"
  shows "mono_option (\<lambda>f. parse_statement pe (pb f) (pif f) c)"
proof -
  have loops: "mono_option (\<lambda>f. parse_while pe (pb f) c)" "mono_option (\<lambda>f. parse_for pe (pb f) c)"
    unfolding parse_while_def parse_for_def Let_def by (intro parse_mono_base parse_mono pb)+
  have "mono_option (\<lambda>f. parse_switch_clause pe (pb f) c)" for c
    unfolding parse_switch_clause_def Let_def by (intro parse_mono_base parse_mono pb)
  then have "mono_option (\<lambda>f. parse_switch pe (pb f) c)"
    unfolding parse_switch_def Let_def by (intro parse_mono_base parse_mono)
  with loops pb pif show ?thesis
    unfolding parse_statement_def by (cases "cur c") (auto intro!: parse_mono_base)
qed

datatype stmt_nt = NT_BLOCK | NT_STATEMENT | NT_IF

partial_function (option) parse_stmt_nt :: "stmt_nt \<Rightarrow> parse_ctx \<Rightarrow> (ast_node option \<times> parse_ctx) option" where
  "parse_stmt_nt nt c =
     (case nt of
        NT_BLOCK \<Rightarrow> parse_block (parse_stmt_nt NT_STATEMENT) c
      | NT_STATEMENT \<Rightarrow> parse_statement parse_expr (parse_stmt_nt NT_BLOCK) (parse_stmt_nt NT_IF) c
      | NT_IF \<Rightarrow> parse_if parse_expr (parse_stmt_nt NT_BLOCK) (parse_stmt_nt NT_IF) c)"

declare parse_stmt_nt.simps [code]

lemma parse_stmt_eqs:
  "parse_stmt_nt NT_BLOCK c = parse_block (parse_stmt_nt NT_STATEMENT) c"
  "parse_stmt_nt NT_STATEMENT c = parse_statement parse_expr (parse_stmt_nt NT_BLOCK) (parse_stmt_nt NT_IF) c"
  "parse_stmt_nt NT_IF c = parse_if parse_expr (parse_stmt_nt NT_BLOCK) (parse_stmt_nt NT_IF) c"
  by (simp_all only: parse_stmt_nt.simps [of _ c] stmt_nt.case)

section \<open>Top-level declarations\<close>

text \<open>\<open>module\<close> and \<open>import\<close> differ in the node they make.\<close>

definition qname_decl :: "(ast_name \<Rightarrow> ast_body) \<Rightarrow> node_parser" where
  "qname_decl mk c =
     pbind parse_qualified_name (\<lambda>name.
       pseq (expect_punct PUNCT_SEMI) (node_new (px_pos c) (mk name))) (advance c)"

definition parse_module_decl :: node_parser where
  "parse_module_decl = qname_decl AST_MODULE_DECL"

definition parse_import :: node_parser where
  "parse_import = qname_decl AST_IMPORT_DECL"

definition parse_field_decl :: node_parser where
  "parse_field_decl c =
     (if \<not> cur_is_ident c then p_null (err_expected c ''identifier'')
      else
        pseq (expect_punct PUNCT_COLON)
          (pbind (parse_type parse_expr) (\<lambda>ty.
             pseq (expect_punct PUNCT_SEMI) (node_new (px_pos c) (AST_FIELD_DECL (cur_ident c) ty)))) (advance c))"

definition parse_struct_decl :: "bool \<Rightarrow> node_parser" where
  "parse_struct_decl is_pub c =
     (let c1 = advance c in
      if \<not> cur_is_ident c1 then p_null (err_expected c1 ''identifier'')
      else
        pseq (expect_punct PUNCT_LBRACE)
          (pbind (braced_items parse_field_decl recover_field) (\<lambda>fs.
             node_new (px_pos c) (AST_STRUCT_DECL (cur_ident c1) fs is_pub))) (advance c1))"

definition parse_enum_member :: node_parser where
  "parse_enum_member c =
     (if \<not> cur_is_ident c then p_null (err_expected c ''identifier'')
      else
        pbind (popt (\<lambda>c. cur_is_punct c PUNCT_ASSIGN) (\<lambda>c. parse_expr (advance c))) (\<lambda>v.
          node_new (px_pos c) (AST_ENUM_MEMBER (cur_ident c) v)) (advance c))"

definition enum_step :: "ast_node list \<Rightarrow> ast_node list parser" where
  "enum_step items c =
     Option.bind (parse_enum_member c) (\<lambda>(r, c').
       case r of
         None \<Rightarrow>
           Option.bind (recover_list_sep PUNCT_RBRACE c') (\<lambda>c''.
             p_return items (if cur_is_punct c'' PUNCT_COMMA then advance c'' else c''))
       | Some m \<Rightarrow>
           if cur_is_punct c' PUNCT_COMMA then p_return (items @ [m]) (advance c')
           else if cur_is_punct c' PUNCT_RBRACE then p_return (items @ [m]) c'
           else
             Option.bind
               (recover_list_sep PUNCT_RBRACE (err_expected c' (quoted '','' @ '' or '' @ quoted ''}'')))
               (p_return (items @ [m])))"

text \<open>The underlying type of an enum; its span is the token's own.\<close>

definition enum_underlying :: node_parser where
  "enum_underlying c =
     (if \<not> cur_is_int_kw c then p_null (err_expected c ''integer type'')
      else
        (case cur c of
           V_KEYWORD k \<Rightarrow>
             p_return
               (AstNode (px_nodes c) (tok_sp (px_tokens c) (px_pos c))
                 (AST_TYPE_PRIM (the (ast_prim_from_keyword k))))
               (advance (c\<lparr>px_nodes := Suc (px_nodes c)\<rparr>))
         | _ \<Rightarrow> p_null c))"

definition parse_enum_decl :: "bool \<Rightarrow> node_parser" where
  "parse_enum_decl is_pub c =
     (let c1 = advance c in
      if \<not> cur_is_ident c1 then p_null (err_expected c1 ''identifier'')
      else
        pseq (expect_punct PUNCT_COLON)
          (pbind enum_underlying (\<lambda>u.
            pseq (expect_punct PUNCT_LBRACE)
              (pbind (ploop before_close enum_step []) (\<lambda>ms.
                pseq (expect_punct PUNCT_RBRACE)
                  (node_new (px_pos c) (AST_ENUM_DECL (cur_ident c1) u ms is_pub)))))) (advance c1))"

definition parse_param :: node_parser where
  "parse_param c =
     (if \<not> cur_is_ident c then p_null (err_expected c ''identifier'')
      else
        pseq (expect_punct PUNCT_COLON)
          (pbind (parse_type parse_expr) (\<lambda>ty c1.
             node_new (px_pos c) (AST_PARAM (cur_ident c) ty)
               (scope_declare_value (cur_ident c) (px_pos c) c1))) (advance c))"

definition param_step :: "ast_node list \<Rightarrow> ast_node list parser" where
  "param_step = item_step parse_param (recover_list_sep PUNCT_RPAREN)"

definition parse_params :: "ast_node list parser" where
  "parse_params c =
     (if cur_is_punct c PUNCT_RPAREN then p_return [] c
      else
        pbind (param_step [])
          (ploop (\<lambda>c. cur_is_punct c PUNCT_COMMA) (\<lambda>items c. param_step items (advance c))) c)"

definition fn_block :: node_parser where
  "fn_block c =
     (if \<not> cur_is_punct c PUNCT_LBRACE then p_null (err_expected c (quoted ''{''))
      else parse_stmt_nt NT_BLOCK c)"

definition parse_fn_decl :: "bool \<Rightarrow> node_parser" where
  "parse_fn_decl is_pub c =
     (let c1 = advance c in
      if \<not> cur_is_ident c1 then p_null (err_expected c1 ''identifier'')
      else
        pseq (expect_punct PUNCT_LPAREN)
          (pbind
            (scoped
              (pbind parse_params (\<lambda>params.
               pseq (expect_punct PUNCT_RPAREN)
              (pseq (expect_punct PUNCT_ARROW)
              (pbind (parse_type parse_expr) (\<lambda>ret.
               pbind fn_block (\<lambda>body. p_return (AST_FN_DECL (cur_ident c1) params ret body is_pub)))))))) 
            (\<lambda>b. node_new (px_pos c) b)) (advance c1))"

definition parse_global_var :: "bool \<Rightarrow> bool \<Rightarrow> node_parser" where
  "parse_global_var is_pub is_const c =
     (let s = px_pos c; c1 = advance c in
      if \<not> cur_is_ident c1 then p_null (err_expected c1 ''identifier'')
      else
        (let name = cur_ident c1 in
         pseq (expect_punct PUNCT_COLON)
           (pbind (parse_type parse_expr) (\<lambda>ty.
              if is_const then
                pseq (expect_punct PUNCT_ASSIGN)
                  (pbind parse_expr (\<lambda>i.
                     pseq (expect_punct PUNCT_SEMI) (node_new s (AST_GLOBAL_CONST_DECL name ty i is_pub))))
              else
                pbind (popt (\<lambda>c. cur_is_punct c PUNCT_ASSIGN) (\<lambda>c. parse_expr (advance c))) (\<lambda>i.
                  pseq (expect_punct PUNCT_SEMI) (node_new s (AST_GLOBAL_VAR_DECL name ty i is_pub)))))
           (advance c1)))"

definition parse_top_level_decl :: node_parser where
  "parse_top_level_decl c0 =
     (let is_pub = cur_is_kw c0 KW_PUB; c = (if is_pub then advance c0 else c0) in
      if cur_is_kw c KW_STRUCT then parse_struct_decl is_pub c
      else if cur_is_kw c KW_ENUM then parse_enum_decl is_pub c
      else if cur_is_kw c KW_FN then parse_fn_decl is_pub c
      else if cur_is_kw c KW_VAR then parse_global_var is_pub False c
      else if cur_is_kw c KW_CONST then parse_global_var is_pub True c
      else p_null (err_expected c ''declaration''))"

section \<open>The program\<close>

partial_function (option) skip_dotted :: "parse_ctx \<Rightarrow> parse_ctx option" where
  "skip_dotted c =
     (if cur_is_punct c PUNCT_DOT then
        (let c' = advance c in if cur_is_ident c' then skip_dotted (advance c') else Some c')
      else Some c)"

declare skip_dotted.simps [code]

definition report_module_not_first :: "parse_ctx \<Rightarrow> parse_ctx option" where
  "report_module_not_first c =
     (let c1 = advance c in
      Option.bind (if cur_is_ident c1 then skip_dotted (advance c1) else Some c1) (\<lambda>c2.
        let c3 = skip_semi c2 in
        Some (report_syntax c3 ''AIC-S0103'' ''module declaration must be the first element''
                (span_from c3 (px_pos c) (px_pos c3)))))"

definition report_import_after_decls :: "parse_ctx \<Rightarrow> parse_ctx option" where
  "report_import_after_decls c =
     map_option skip_semi (skip_until (\<lambda>c. cur_is_punct c PUNCT_SEMI) (err_unexpected c))"

definition report_unexpected_run :: "parse_ctx \<Rightarrow> parse_ctx option" where
  "report_unexpected_run c =
     map_option
       (\<lambda>c'. report_syntax c' ''AIC-S0102'' ''unexpected token'' (span_from c' (px_pos c) (px_pos c')))
       (skip_until (\<lambda>c. tok_starts_top_level c \<or> cur_is_kw c KW_MODULE \<or> cur_is_kw c KW_IMPORT) c)"

definition decl_step :: "ast_node list \<Rightarrow> ast_node list parser" where
  "decl_step decls c =
     (if cur_is_kw c KW_MODULE then Option.bind (report_module_not_first c) (p_return decls)
      else if cur_is_kw c KW_IMPORT then Option.bind (report_import_after_decls c) (p_return decls)
      else if \<not> tok_starts_top_level c then Option.bind (report_unexpected_run c) (p_return decls)
      else item_step parse_top_level_decl recover_top_level decls c)"

text \<open>The module declaration is parsed once, and not recovered from.\<close>

definition module_part :: "ast_node option parser" where
  "module_part c =
     (if cur_is_kw c KW_MODULE then Option.bind (parse_module_decl c) (\<lambda>(r, c'). p_return r c')
      else p_return None c)"

definition parse_ctx_init :: "lex_token list \<Rightarrow> parse_ctx" where
  "parse_ctx_init toks =
     prescan_type_names
       \<lparr>px_tokens = toks, px_pos = 0,
        px_file = (case tok_span (toks ! 0) of Some sp \<Rightarrow> span_file sp | None \<Rightarrow> ''input.ai''),
        px_records = [], px_seen = False, px_type_names = [], px_scopes = [], px_nodes = 0\<rparr>"

definition parse_all :: "ast_node parser" where
  "parse_all =
     pbind module_part (\<lambda>m.
     pbind (ploop (\<lambda>c. cur_is_kw c KW_IMPORT) (item_step parse_import recover_top_level) []) (\<lambda>imports.
     pbind (ploop (\<lambda>c. \<not> cur_is_eof c) decl_step []) (\<lambda>decls c.
       p_return (AstNode (px_nodes c) (span_from c 0 (length (px_tokens c))) (AST_PROGRAM m imports decls))
         (c\<lparr>px_nodes := Suc (px_nodes c)\<rparr>))))"

datatype parse_status = PARSE_OK | PARSE_DIAG_ERROR | PARSE_OOM

definition parse_program ::
  "((diag_record option \<Rightarrow> diag_record option \<Rightarrow> int) \<Rightarrow> diag_record option list
     \<Rightarrow> diag_record option list) \<Rightarrow> lex_token list
   \<Rightarrow> (parse_status \<times> ast_node option \<times> diag_record option list) option" where
  "parse_program qsort toks =
     Option.bind (parse_all (parse_ctx_init toks)) (\<lambda>(program, c).
       let recs = px_records c in
       Some (if recs \<noteq> [] then PARSE_DIAG_ERROR else PARSE_OK, program,
             the (diag_sort_records qsort (Some (map Some recs)))))"

end
