(* ===== verification/ParseStmtSound.thy ===== *)
theory ParseStmtSound
  imports ParseSound Parse
begin

text \<open>
  The contract for the parse functions of statements, declarations and the program. A statement's
  function is followed from behind its first token, which shows also that it never fails without
  consuming that token.
\<close>

section \<open>Common steps\<close>

lemma good_punct:
  assumes w: "wf T c"
    and q: "wf T (advance c) \<Longrightarrow> stepsto T c (advance c) \<Longrightarrow> px_pos (advance c) = Suc (px_pos c) \<Longrightarrow>
      tokv T (px_pos c) = V_PUNCT p \<Longrightarrow> good T (advance c) m Q (q (advance c))"
  shows "good T c m Q (pseq (expect_punct p) q c)"
proof (rule good_expect_then [OF w])
  assume b: "cur c = V_PUNCT p"
  then have n: "cur c \<noteq> V_EOF" by simp
  show "good T (advance c) m Q (q (advance c))"
    using advance_step [OF w n] b cur_tokv [OF w] by (intro q) simp_all
qed

lemma expr_good: "wf T c \<Longrightarrow> good T c (Suc (px_pos c)) (gram T G_EXPR (px_pos c)) (parse_expr c)"
  using expr_parser.pe [OF expr.expr_parser_axioms] by (rule parsesD) auto

lemma type_good: "wf T c \<Longrightarrow> good T c (Suc (px_pos c)) (gram T G_TYPE (px_pos c)) (parse_type parse_expr c)"
  by (rule parsesD [OF expr.type_parses [where n = "left T c"]]) auto

lemma good_weaken: "good T c m Q v \<Longrightarrow> m' \<le> m \<Longrightarrow> good T c m' Q v"
  by (rule good_mono)

lemma expr_opt:
  assumes "wf T c"
  shows "good T c (px_pos c) (gopt (gram T G_EXPR) (px_pos c)) (popt b parse_expr c)"
proof -
  have e: "good T c (px_pos c) (gram T G_EXPR (px_pos c)) (parse_expr c)"
    by (rule good_weaken [OF expr_good [OF assms]]) simp
  show ?thesis
    by (rule good_mono [OF good_opt [where p = parse_expr and b = b, OF assms e]]) (auto split: option.splits)
qed

text \<open>\<open>"=" expr\<close>, when the equals sign is there.\<close>

lemma init_opt:
  assumes w: "wf T c"
  shows "good T c (px_pos c) (gopt (\<lambda>k j e. tokv T k = V_PUNCT PUNCT_ASSIGN \<and> gram T G_EXPR (Suc k) j e) (px_pos c))
    (popt (\<lambda>c. cur_is_punct c PUNCT_ASSIGN) (\<lambda>c. parse_expr (advance c)) c)"
proof -
  have e: "good T c (px_pos c) (\<lambda>j x. tokv T (px_pos c) = V_PUNCT PUNCT_ASSIGN \<and> gram T G_EXPR (Suc (px_pos c)) j x)
      (parse_expr (advance c))" if b: "cur_is_punct c PUNCT_ASSIGN"
  proof -
    note n = punct_step [OF w b]
    note a = advance_step [OF w n(1)]
    show ?thesis
      by (rule good_advance [OF w n(1)], rule good_mono [OF expr_good [OF a(3)]]) (use a(2) n(2) in auto)
  qed
  show ?thesis
    by (rule good_mono [OF good_opt [where p = "\<lambda>c. parse_expr (advance c)" and b = "\<lambda>c. cur_is_punct c PUNCT_ASSIGN", OF w e]])
       (auto split: option.splits)
qed

text \<open>A bind whose first part is known by its contract.\<close>

lemma good_bindI:
  assumes "good T c m0 R (p c)"
    and "\<And>x c'. wf T c' \<Longrightarrow> stepsto T c c' \<Longrightarrow> m0 \<le> px_pos c' \<Longrightarrow>
      good T c' m (\<lambda>j y. R (px_pos c') x \<longrightarrow> Q j y) (f x c')"
  shows "good T c m Q (pbind p f c)"
  using assms by (intro good_bind [where p = p]) (auto intro: stepsto_wf)

section \<open>Scopes and lists with recovery\<close>

lemma scoped_good:
  assumes w: "wf T e" and g: "good T (scope_push e) m Q (p (scope_push c))"
  shows "good T e m Q (scoped p c)"
proof -
  obtain r c' where p: "p (scope_push c) = Some (r, c')" and o: "outcome T (scope_push e) m Q r c'"
    using g unfolding good_def by blast
  have st: "stepsto T (scope_push e) c'" using o by (simp add: outcome_def)
  then obtain sc where "px_scopes c' = sc # px_scopes e" by (auto simp: stepsto_def scope_push_def)
  with st w have "stepsto T e (scope_pop c')"
    by (auto simp: stepsto_def scope_pop_def scope_push_def wf_def)
  with o have "outcome T e m Q r (scope_pop c')"
    by (cases r) (auto simp: outcome_def scope_pop_def scope_push_def)
  then show ?thesis by (rule goodI [rotated]) (simp add: scoped_def p)
qed

lemma scope_push_wf [simp]: "wf T (scope_push c) = wf T c" "px_pos (scope_push c) = px_pos c"
    "left T (scope_push c) = left T c" "cur (scope_push c) = cur c" "advance (scope_push c) = scope_push (advance c)"
  by (simp_all add: wf_def scope_push_def left_def cur_def advance_def)

text \<open>What a list item's parser owes the loop: the contract, and progress on a token at which the
  recovery stops.\<close>

definition item_ok :: "tape \<Rightarrow> parse_ctx \<Rightarrow> 'a parser \<Rightarrow> (lex_val \<Rightarrow> bool) \<Rightarrow> (nat \<Rightarrow> nat \<Rightarrow> 'a \<Rightarrow> bool) \<Rightarrow> bool" where
  "item_ok T c p S P \<longleftrightarrow>
     good T c (Suc (px_pos c)) (P (px_pos c)) (p c) \<and>
     (S (cur c) \<longrightarrow> good T (advance c) 0 (\<lambda>_ _. True) (p c))"

lemma item_step_good:
  assumes w: "wf T c" and ne: "cur c \<noteq> V_EOF" and p: "item_ok T c p S P" and rec: "recovers T recover S"
  shows "good T c (Suc (px_pos c)) (\<lambda>j xs. chain P i (px_pos c) acc \<longrightarrow> chain P i j xs) (item_step p recover acc c)"
proof -
  have "good T c (Suc (px_pos c)) (P (px_pos c)) (p c)" using p by (simp add: item_ok_def)
  then show ?thesis
  proof (rule goodE)
    fix c' assume r: "p c = Some (None, c')" and st: "stepsto T c c'" and g: "px_records c' \<noteq> px_records c"
    obtain c'' where rc: "recover c' = Some c''" and st': "stepsto T c' c''"
      and lt: "cur c' \<noteq> V_EOF \<Longrightarrow> \<not> S (cur c') \<Longrightarrow> px_pos c' < px_pos c''"
      using rec stepsto_wf [OF st] unfolding recovers_def by blast
    have "px_pos c < px_pos c''"
    proof (cases "px_pos c < px_pos c'")
      case False
      then have eq: "px_pos c' = px_pos c" using stepsto_pos [OF st] by simp
      then have cur: "cur c' = cur c" using cur_tokv [OF w] cur_tokv [OF stepsto_wf [OF st]] by simp
      have "\<not> S (cur c)"
      proof
        assume "S (cur c)"
        with p have "good T (advance c) 0 (\<lambda>_ _. True) (p c)" by (simp add: item_ok_def)
        with r have "stepsto T (advance c) c'" by (auto simp: good_def outcome_def)
        with advance_step(2) [OF w ne] eq show False by (simp add: stepsto_def)
      qed
      with lt eq cur ne show ?thesis by simp
    qed (use stepsto_pos [OF st'] in simp)
    moreover have "px_records c'' \<noteq> px_records c" using clean_trans [OF st st'] g by blast
    ultimately show ?thesis
      using stepsto_trans [OF st st'] r rc
      by (intro goodI [of _ "Some acc" c''] outcome_some) (simp_all add: item_step_def p_return_def)
  next
    fix x c' assume "p c = Some (Some x, c')" "stepsto T c c'" "Suc (px_pos c) \<le> px_pos c'"
      "px_records c' = px_records c \<Longrightarrow> P (px_pos c) (px_pos c') x"
    then show ?thesis
      by (intro goodI [of _ "Some (acc @ [x])" c'] outcome_some)
         (auto simp add: item_step_def p_return_def intro: chain_snoc)
  qed
qed

lemma item_loop_good:
  assumes w: "wf T c" and rec: "recovers T recover S"
    and p: "\<And>d. stepsto T c d \<Longrightarrow> before_close d \<Longrightarrow> item_ok T d p S P"
  shows "good T c (px_pos c) (chain P (px_pos c)) (item_loop p recover [] c)"
proof -
  have "good T c (px_pos c) (\<lambda>j xs. (chain P (px_pos c) (px_pos c) [] \<longrightarrow> chain P (px_pos c) j xs) \<and> True)
    (item_loop p recover [] c)"
    unfolding item_loop_def
  proof (rule good_loop [OF w])
    fix acc d assume st: "stepsto T c d" and b: "before_close d"
    then have "cur d \<noteq> V_EOF" by (simp add: before_close_def eof_iff)
    then show "good T d (Suc (px_pos d)) (\<lambda>j xs. chain P (px_pos c) (px_pos d) acc \<longrightarrow> chain P (px_pos c) j xs)
      (item_step p recover acc d)"
      by (rule item_step_good [OF stepsto_wf [OF st] _ p [OF st b] rec])
  qed simp
  then show ?thesis by (rule good_mono) auto
qed

lemma braced_items_good:
  assumes w: "wf T c" and rec: "recovers T recover S"
    and p: "\<And>d. stepsto T c d \<Longrightarrow> before_close d \<Longrightarrow> item_ok T d p S P"
  shows "good T c (Suc (px_pos c))
    (\<lambda>j xs. \<exists>m. chain P (px_pos c) m xs \<and> tokv T m = V_PUNCT PUNCT_RBRACE \<and> j = Suc m) (braced_items p recover c)"
  unfolding braced_items_def
proof (rule good_bindI, rule item_loop_good [OF w rec p], assumption, assumption)
  fix xs c' assume w': "wf T c'" and "stepsto T c c'" and m: "px_pos c \<le> px_pos c'"
  show "good T c' (Suc (px_pos c)) (\<lambda>j ys. chain P (px_pos c) (px_pos c') xs \<longrightarrow>
      (\<exists>m. chain P (px_pos c) m ys \<and> tokv T m = V_PUNCT PUNCT_RBRACE \<and> j = Suc m))
    (pseq (expect_punct PUNCT_RBRACE) (p_return xs) c')"
    by (rule good_punct [OF w'], rule good_return) (use m in auto)
qed

lemma controlled_good:
  assumes "wf T c" and "s \<le> px_pos c" and "cur c = V_PUNCT PUNCT_LBRACE \<Longrightarrow> good T c m Q (p c)"
  shows "good T c m Q (controlled s p c)"
  unfolding controlled_def
  by (intro good_if good_report span_from_ok assms(1,2)) (use assms(3) in \<open>simp_all add: cur_tests syn_codes_def\<close>)

lemma statement_recovers:
  "recovers T recover_statement (\<lambda>v. v = V_PUNCT PUNCT_RBRACE \<or> starts_stmt v)"
  "recovers T recover_switch_clause (\<lambda>v. v = V_PUNCT PUNCT_RBRACE \<or> v = V_KEYWORD KW_CASE \<or> v = V_KEYWORD KW_DEFAULT)"
  "recovers T recover_field (\<lambda>v. v = V_PUNCT PUNCT_RBRACE)"
  "recovers T recover_top_level (\<lambda>v. v = V_KEYWORD KW_MODULE \<or> v = V_KEYWORD KW_IMPORT \<or> starts_top_level v)"
  "recovers T (recover_list_sep closer) (\<lambda>v. v = V_PUNCT PUNCT_COMMA \<or> v = V_PUNCT closer)"
  unfolding recover_statement_def recover_switch_clause_def recover_field_def recover_top_level_def recover_list_sep_def
  by (rule skip_semi_recovers skip_recovers;
      simp add: cur_tests tok_starts_stmt_def starts_stmt_def tok_starts_top_level_def starts_top_level_def)+

section \<open>Statements\<close>

text \<open>The contract of a statement's function, from behind the token it starts with.\<close>

definition after_first :: "tape \<Rightarrow> parse_ctx \<Rightarrow> (nat \<Rightarrow> nat \<Rightarrow> 'a \<Rightarrow> bool) \<Rightarrow> ('a option \<times> parse_ctx) option \<Rightarrow> bool" where
  "after_first T c R v \<longleftrightarrow> good T (advance c) (Suc (px_pos c)) (R (px_pos c)) v"

lemma after_first_good:
  assumes "wf T c" and "cur c \<noteq> V_EOF" and "after_first T c R v"
  shows "good T c (Suc (px_pos c)) (R (px_pos c)) v"
  using good_advance [OF assms(1,2)] assms(3) unfolding after_first_def .

lemma after_first_progress: "after_first T c R v \<Longrightarrow> good T (advance c) 0 (\<lambda>_ _. True) v"
  unfolding after_first_def by (rule good_mono) auto

lemma after_first_mono:
  "after_first T c R v \<Longrightarrow> (\<And>j x. R (px_pos c) j x \<Longrightarrow> R' (px_pos c) j x) \<Longrightarrow> after_first T c R' v"
  unfolding after_first_def by (rule good_mono) (assumption, simp, blast)

lemma block_after:
  assumes w: "wf T c" and l: "left T c \<le> Suc n" and b: "cur c = V_PUNCT PUNCT_LBRACE"
    and ps: "\<And>d. wf T d \<Longrightarrow> left T d \<le> n \<Longrightarrow> before_close d \<Longrightarrow>
      item_ok T d ps (\<lambda>v. v = V_PUNCT PUNCT_RBRACE \<or> starts_stmt v) (gram T G_STMT)"
  shows "after_first T c (gram T G_BLOCK) (parse_block ps c)"
proof -
  have n: "cur c \<noteq> V_EOF" using b by simp
  note a = advance_step [OF w n] and l' = left_advance [OF w n l]
  let ?R = "\<lambda>j xs. \<exists>m. chain (gram T G_STMT) (Suc (px_pos c)) m xs \<and> tokv T m = V_PUNCT PUNCT_RBRACE \<and> j = Suc m"
  have g: "good T (scope_push (advance c)) (Suc (px_pos (advance c))) ?R
      (braced_items ps recover_statement (advance (scope_push c)))"
  proof -
    have w': "wf T (scope_push (advance c))" using a(3) by simp
    have "item_ok T d ps (\<lambda>v. v = V_PUNCT PUNCT_RBRACE \<or> starts_stmt v) (gram T G_STMT)"
      if st: "stepsto T (scope_push (advance c)) d" and "before_close d" for d
      by (rule ps [OF stepsto_wf [OF st] _ that(2)]) (use left_step [OF st] l' in simp)
    from braced_items_good [OF w' statement_recovers(1) this] show ?thesis
      using a(2) by simp
  qed
  have "good T (advance c) (Suc (px_pos c)) (gram T G_BLOCK (px_pos c))
    (pbind (\<lambda>_. scoped (\<lambda>c1. braced_items ps recover_statement (advance c1)) c)
       (\<lambda>items. node_new (px_pos c) (AST_BLOCK items)) (advance c))"
  proof (rule good_bindI, rule scoped_good [OF a(3)], rule g)
    fix xs c' assume w': "wf T c'" and m: "Suc (px_pos (advance c)) \<le> px_pos c'"
    then show "good T c' (Suc (px_pos c)) (\<lambda>j y. ?R (px_pos c') xs \<longrightarrow> gram T G_BLOCK (px_pos c) j y)
      (node_new (px_pos c) (AST_BLOCK xs) c')"
      using a(2) b cur_tokv [OF w] by (intro good_node) (auto intro: g_block)
  qed
  then show ?thesis using b by (simp add: after_first_def parse_block_def cur_tests pbind_def)
qed

lemma local_decl_after:
  assumes w: "wf T c" and k: "cur_is_kw c (if is_const then KW_CONST else KW_VAR)"
  shows "after_first T c (gram T G_LOCAL_DECL) (parse_local_var_decl parse_expr is_const c)"
proof -
  note n = kw_step [OF w k]
  note a = advance_step [OF w n(1)]
  show ?thesis
    unfolding after_first_def parse_local_var_decl_def Let_def
  proof (intro good_if good_expected [OF a(3)], goal_cases)
    case 1
    then have id: "cur_is_ident (advance c)" by simp
    note i = ident_step [OF a(3) id]
    note b = advance_step [OF a(3) i(1)]
    let ?x = "cur_ident (advance c)" and ?i = "px_pos c"
    let ?c = "scope_declare_value ?x (px_pos c) (advance (advance c))"
    have d: "stepsto T (advance (advance c)) ?c" "px_records ?c = px_records (advance (advance c))"
      "px_pos ?c = Suc (Suc ?i)" "wf T ?c"
      using b a(2) by (auto simp: scope_declare_value_def stepsto_def wf_def split: list.splits)
    have st: "stepsto T (advance c) ?c" by (rule stepsto_trans [OF b(1) d(1)])
    show ?case
    proof (rule good_after [OF st], simp add: b d, rule good_punct [OF d(4)], rule good_bindI, rule type_good, assumption)
      fix t c' assume w': "wf T c'" and col: "tokv T (px_pos ?c) = V_PUNCT PUNCT_COLON"
        and p: "px_pos (advance ?c) = Suc (px_pos ?c)" and m: "Suc (px_pos (advance ?c)) \<le> px_pos c'"
      let ?T = "gram T G_TYPE (px_pos (advance ?c)) (px_pos c') t"
      note toks = col p d(3) a(2) i(2) n(2)
      show "good T c' (Suc ?i) (\<lambda>j y. ?T \<longrightarrow> gram T G_LOCAL_DECL ?i j y)
        ((if is_const then
            pseq (expect_punct PUNCT_ASSIGN) (pbind parse_expr (\<lambda>i. pseq (expect_punct PUNCT_SEMI) (node_new ?i (AST_CONST_DECL ?x t i))))
          else pbind (popt (\<lambda>c. cur_is_punct c PUNCT_ASSIGN) (\<lambda>c. parse_expr (advance c)))
            (\<lambda>i. pseq (expect_punct PUNCT_SEMI) (node_new ?i (AST_VAR_DECL ?x t i)))) c')"
      proof (cases is_const)
        case True
        have "good T c' (Suc ?i) (\<lambda>j y. ?T \<longrightarrow> gram T G_LOCAL_DECL ?i j y)
          (pseq (expect_punct PUNCT_ASSIGN) (pbind parse_expr (\<lambda>i. pseq (expect_punct PUNCT_SEMI) (node_new ?i (AST_CONST_DECL ?x t i)))) c')"
        proof (rule good_punct [OF w'], rule good_bindI, rule expr_good, assumption, rule good_expect_node)
          fix e c'' nd
          assume "wf T c''" "Suc (px_pos (advance c')) \<le> px_pos c''" "px_pos (advance c') = Suc (px_pos c')"
            "tokv T (px_pos c') = V_PUNCT PUNCT_ASSIGN" "tokv T (px_pos c'') = V_PUNCT PUNCT_SEMI"
            "gnode T ?i (Suc (px_pos c'')) (AST_CONST_DECL ?x t e) nd"
          then show "gram T G_EXPR (px_pos (advance c')) (px_pos c'') e \<longrightarrow> ?T \<longrightarrow> gram T G_LOCAL_DECL ?i (Suc (px_pos c'')) nd"
            using toks True by (auto intro: g_const)
        qed (use m p d(3) in auto)
        with True show ?thesis by simp
      next
        case False
        have "good T c' (Suc ?i) (\<lambda>j y. ?T \<longrightarrow> gram T G_LOCAL_DECL ?i j y)
          (pbind (popt (\<lambda>c. cur_is_punct c PUNCT_ASSIGN) (\<lambda>c. parse_expr (advance c)))
            (\<lambda>i. pseq (expect_punct PUNCT_SEMI) (node_new ?i (AST_VAR_DECL ?x t i))) c')"
        proof (rule good_bindI, rule init_opt [OF w'], rule good_expect_node)
          fix e c'' nd
          assume "tokv T (px_pos c'') = V_PUNCT PUNCT_SEMI" "gnode T ?i (Suc (px_pos c'')) (AST_VAR_DECL ?x t e) nd"
          then show "gopt (\<lambda>k j e. tokv T k = V_PUNCT PUNCT_ASSIGN \<and> gram T G_EXPR (Suc k) j e) (px_pos c') (px_pos c'') e \<longrightarrow>
              ?T \<longrightarrow> gram T G_LOCAL_DECL ?i (Suc (px_pos c'')) nd"
            using toks False by (auto intro: g_var)
        qed (use m p d(3) in auto)
        with False show ?thesis by simp
      qed
    qed
  qed
qed

lemma paren_expr_good:
  assumes w: "wf T c"
  shows "good T c (Suc (px_pos c))
    (\<lambda>j e. \<exists>k. tokv T (px_pos c) = V_PUNCT PUNCT_LPAREN \<and> gram T G_EXPR (Suc (px_pos c)) k e \<and>
       tokv T k = V_PUNCT PUNCT_RPAREN \<and> j = Suc k) (paren_expr parse_expr c)"
  unfolding paren_expr_def
proof (rule good_punct [OF w], rule good_bindI, rule expr_good, assumption, rule good_punct, assumption, rule good_return)
  fix e c'
  assume "px_pos (advance c) = Suc (px_pos c)" "tokv T (px_pos c) = V_PUNCT PUNCT_LPAREN"
    "tokv T (px_pos c') = V_PUNCT PUNCT_RPAREN" "px_pos (advance c') = Suc (px_pos c')"
  then show "gram T G_EXPR (px_pos (advance c)) (px_pos c') e \<longrightarrow>
    (\<exists>k. tokv T (px_pos c) = V_PUNCT PUNCT_LPAREN \<and> gram T G_EXPR (Suc (px_pos c)) k e \<and>
       tokv T k = V_PUNCT PUNCT_RPAREN \<and> px_pos (advance c') = Suc k)" by auto
qed auto

text \<open>Statements over a parser of blocks that keeps its contract on at most \<open>n\<close> tokens.\<close>

locale block_parser =
  fixes T :: tape and n :: nat and pb :: node_parser
  assumes pb: "wf T c \<Longrightarrow> left T c \<le> n \<Longrightarrow> cur c = V_PUNCT PUNCT_LBRACE \<Longrightarrow> after_first T c (gram T G_BLOCK) (pb c)"
begin

lemma body_good:
  assumes "wf T c" and "left T c \<le> n" and "s \<le> px_pos c"
  shows "good T c (Suc (px_pos c)) (gram T G_BLOCK (px_pos c)) (controlled s pb c)"
  using assms by (intro controlled_good after_first_good pb) auto

lemma while_after:
  assumes w: "wf T c" and l: "left T c \<le> Suc n" and k: "cur_is_kw c KW_WHILE"
  shows "after_first T c (gram T G_STMT) (parse_while parse_expr pb c)"
proof -
  note n = kw_step [OF w k]
  note a = advance_step [OF w n(1)] and l' = left_advance [OF w n(1) l]
  show ?thesis
    unfolding after_first_def parse_while_def Let_def
  proof (rule good_bindI, rule paren_expr_good [OF a(3)], rule good_bindI, rule body_good, assumption)
    fix e c' assume st: "stepsto T (advance c) c'" and m: "Suc (px_pos (advance c)) \<le> px_pos c'"
    show "left T c' \<le> n" using left_step [OF st] l' by simp
    show "px_pos c \<le> px_pos c'" using m a(2) by simp
    fix b c'' assume w'': "wf T c''" and m': "Suc (px_pos c') \<le> px_pos c''"
    show "good T c'' (Suc (px_pos c)) (\<lambda>j y. gram T G_BLOCK (px_pos c') (px_pos c'') b \<longrightarrow>
        (\<exists>k. tokv T (px_pos (advance c)) = V_PUNCT PUNCT_LPAREN \<and> gram T G_EXPR (Suc (px_pos (advance c))) k e \<and>
         tokv T k = V_PUNCT PUNCT_RPAREN \<and> px_pos c' = Suc k) \<longrightarrow> gram T G_STMT (px_pos c) j y)
      (node_new (px_pos c) (AST_WHILE e b) c'')"
      by (rule good_node [OF w'']) (use m m' a(2) n(2) in \<open>auto intro: g_while\<close>)
  qed
qed

lemma if_after:
  assumes w: "wf T c" and l: "left T c \<le> Suc n" and k: "cur_is_kw c KW_IF"
    and pif: "\<And>d. wf T d \<Longrightarrow> left T d \<le> n \<Longrightarrow> cur_is_kw d KW_IF \<Longrightarrow> after_first T d (gram T G_IF) (pif d)"
  shows "after_first T c (gram T G_IF) (parse_if parse_expr pb pif c)"
proof -
  note n = kw_step [OF w k]
  note a = advance_step [OF w n(1)] and l' = left_advance [OF w n(1) l]
  let ?E = "\<lambda>l j b. tokv T l = V_KEYWORD KW_ELSE \<and> (gram T G_IF (Suc l) j b \<or> gram T G_BLOCK (Suc l) j b)"
  have else: "good T d (px_pos d) (gopt ?E (px_pos d)) (popt (\<lambda>c. cur_is_kw c KW_ELSE) (parse_else pb pif) d)"
    if w': "wf T d" and ld: "left T d \<le> n" for d
  proof -
    have "good T d (px_pos d) (?E (px_pos d)) (parse_else pb pif d)" if k: "cur_is_kw d KW_ELSE"
    proof -
      note m = kw_step [OF w' k]
      note b = advance_step [OF w' m(1)]
      have ld': "left T (advance d) \<le> n" using left_step [OF b(1)] ld by simp
      show ?thesis
        unfolding parse_else_def Let_def
      proof (intro good_advance [OF w' m(1)] good_if good_expected b(3), goal_cases)
        case 1
        note f = after_first_good [OF b(3) kw_step(1) [OF b(3) 1] pif [OF b(3) ld' 1]]
        show ?case by (rule good_mono [OF f]) (use b(2) m(2) in auto)
      next
        case 2
        then have "cur (advance d) = V_PUNCT PUNCT_LBRACE" by (simp add: cur_tests)
        note f = after_first_good [OF b(3) punct_step(1) [OF b(3) 2(2)] pb [OF b(3) ld' this]]
        show ?case by (rule good_mono [OF f]) (use b(2) m(2) in auto)
      qed
    qed
    note g = good_opt [where p = "parse_else pb pif" and b = "\<lambda>c. cur_is_kw c KW_ELSE" and Q = "?E (px_pos d)", OF w' this]
    show ?thesis by (rule good_mono [OF g]) (auto split: option.splits)
  qed
  show ?thesis
    unfolding after_first_def parse_if_def Let_def
  proof (rule good_bindI, rule paren_expr_good [OF a(3)], rule good_bindI, rule body_good, assumption)
    fix e c' assume st: "stepsto T (advance c) c'" and m: "Suc (px_pos (advance c)) \<le> px_pos c'"
    show lc: "left T c' \<le> n" using left_step [OF st] l' by simp
    show "px_pos c \<le> px_pos c'" using m a(2) by simp
    fix b c'' assume w'': "wf T c''" and st': "stepsto T c' c''" and m': "Suc (px_pos c') \<le> px_pos c''"
    have "left T c'' \<le> n" using left_step [OF st'] lc by simp
    note el = else [OF w'' this]
    show "good T c'' (Suc (px_pos c)) (\<lambda>j y. gram T G_BLOCK (px_pos c') (px_pos c'') b \<longrightarrow>
        (\<exists>k. tokv T (px_pos (advance c)) = V_PUNCT PUNCT_LPAREN \<and> gram T G_EXPR (Suc (px_pos (advance c))) k e \<and>
         tokv T k = V_PUNCT PUNCT_RPAREN \<and> px_pos c' = Suc k) \<longrightarrow> gram T G_IF (px_pos c) j y)
      (pbind (popt (\<lambda>c. cur_is_kw c KW_ELSE) (parse_else pb pif)) (\<lambda>x. node_new (px_pos c) (AST_IF e b x)) c'')"
    proof (rule good_bindI, rule el, rule good_node, assumption)
      fix x d nd assume "gnode T (px_pos c) (px_pos d) (AST_IF e b x) nd"
      then show "gopt ?E (px_pos c'') (px_pos d) x \<longrightarrow> gram T G_BLOCK (px_pos c') (px_pos c'') b \<longrightarrow>
        (\<exists>k. tokv T (px_pos (advance c)) = V_PUNCT PUNCT_LPAREN \<and> gram T G_EXPR (Suc (px_pos (advance c))) k e \<and>
         tokv T k = V_PUNCT PUNCT_RPAREN \<and> px_pos c' = Suc k) \<longrightarrow> gram T G_IF (px_pos c) (px_pos d) nd"
        using a(2) n(2) by (auto intro: g_if)
    qed (use m m' a(2) in auto)
  qed
qed

lemma clause_item:
  assumes w: "wf T c" and l: "left T c \<le> n" and b: "before_close c"
  shows "item_ok T c (parse_switch_clause parse_expr pb)
    (\<lambda>v. v = V_PUNCT PUNCT_RBRACE \<or> v = V_KEYWORD KW_CASE \<or> v = V_KEYWORD KW_DEFAULT) (gram T G_CLAUSE)"
proof -
  have kw: "after_first T c (gram T G_CLAUSE) (parse_switch_clause parse_expr pb c)"
    if k: "cur c = V_KEYWORD KW_CASE \<or> cur c = V_KEYWORD KW_DEFAULT"
  proof -
    have ne: "cur c \<noteq> V_EOF" using k by auto
    note a = advance_step [OF w ne]
    have l': "left T (advance c) \<le> n" using left_step [OF a(1)] l by simp
    show ?thesis
    proof (cases "cur c = V_KEYWORD KW_CASE")
      case True
      then have eq: "parse_switch_clause parse_expr pb c =
        pbind parse_expr (\<lambda>v. pseq (expect_punct PUNCT_COLON)
          (pbind (controlled (px_pos c) pb) (\<lambda>body. node_new (px_pos c) (AST_CASE_CLAUSE v body)))) (advance c)"
        by (simp add: parse_switch_clause_def cur_tests Let_def)
      show ?thesis
        unfolding after_first_def eq
      proof (rule good_bindI, rule expr_good [OF a(3)], rule good_punct, assumption, rule good_bindI, rule body_good, assumption)
        fix v c' assume st: "stepsto T (advance c) c'" and m: "Suc (px_pos (advance c)) \<le> px_pos c'"
          and st2: "stepsto T c' (advance c')" and p: "px_pos (advance c') = Suc (px_pos c')"
          and col: "tokv T (px_pos c') = V_PUNCT PUNCT_COLON"
        show "left T (advance c') \<le> n" using left_step [OF st] left_step [OF st2] l' by simp
        show "px_pos c \<le> px_pos (advance c')" using m a(2) p by simp
        fix b d assume "wf T d" and "Suc (px_pos (advance c')) \<le> px_pos d"
        then show "good T d (Suc (px_pos c)) (\<lambda>j y. gram T G_BLOCK (px_pos (advance c')) (px_pos d) b \<longrightarrow>
            gram T G_EXPR (px_pos (advance c)) (px_pos c') v \<longrightarrow> gram T G_CLAUSE (px_pos c) j y)
          (node_new (px_pos c) (AST_CASE_CLAUSE v b) d)"
          using m a(2) p col cur_tokv [OF w] True by (intro good_node) (auto intro: g_case)
      qed
    next
      case False
      with k have d: "cur c = V_KEYWORD KW_DEFAULT" by simp
      then have eq: "parse_switch_clause parse_expr pb c =
        pseq (expect_punct PUNCT_COLON)
          (pbind (controlled (px_pos c) pb) (\<lambda>body. node_new (px_pos c) (AST_DEFAULT_CLAUSE body))) (advance c)"
        by (simp add: parse_switch_clause_def cur_tests Let_def)
      show ?thesis
        unfolding after_first_def eq
      proof (rule good_punct [OF a(3)], rule good_bindI, rule body_good, assumption)
        assume st2: "stepsto T (advance c) (advance (advance c))"
          and p: "px_pos (advance (advance c)) = Suc (px_pos (advance c))"
          and col: "tokv T (px_pos (advance c)) = V_PUNCT PUNCT_COLON"
        show "left T (advance (advance c)) \<le> n" using left_step [OF st2] l' by simp
        show "px_pos c \<le> px_pos (advance (advance c))" using a(2) p by simp
        fix b e assume "wf T e" and "Suc (px_pos (advance (advance c))) \<le> px_pos e"
        then show "good T e (Suc (px_pos c)) (\<lambda>j y. gram T G_BLOCK (px_pos (advance (advance c))) (px_pos e) b \<longrightarrow>
            gram T G_CLAUSE (px_pos c) j y) (node_new (px_pos c) (AST_DEFAULT_CLAUSE b) e)"
          using a(2) p col cur_tokv [OF w] d by (intro good_node) (auto intro: g_default)
      qed
    qed
  qed
  show ?thesis
  proof (cases "cur c = V_KEYWORD KW_CASE \<or> cur c = V_KEYWORD KW_DEFAULT")
    case True
    then have "cur c \<noteq> V_EOF" by auto
    from after_first_good [OF w this kw [OF True]] after_first_progress [OF kw [OF True]]
    show ?thesis by (simp add: item_ok_def)
  next
    case False
    then show ?thesis
      using good_expected [OF w] b
      by (simp add: item_ok_def parse_switch_clause_def cur_tests before_close_def)
  qed
qed

lemma switch_after:
  assumes w: "wf T c" and l: "left T c \<le> Suc n" and k: "cur_is_kw c KW_SWITCH"
  shows "after_first T c (gram T G_STMT) (parse_switch parse_expr pb c)"
proof -
  note n = kw_step [OF w k]
  note a = advance_step [OF w n(1)] and l' = left_advance [OF w n(1) l]
  show ?thesis
    unfolding after_first_def parse_switch_def Let_def
  proof (rule good_bindI, rule paren_expr_good [OF a(3)], rule good_punct, assumption, rule good_bindI,
      rule braced_items_good [OF _ statement_recovers(2)], assumption, rule clause_item, rule stepsto_wf, assumption)
    fix e c' d assume st: "stepsto T (advance c) c'" "stepsto T c' (advance c')" "stepsto T (advance c') d"
    show "left T d \<le> n" using left_step [OF st(1)] left_step [OF st(2)] left_step [OF st(3)] l' by simp
  next
    fix e c' cs d
    assume m: "Suc (px_pos (advance c)) \<le> px_pos c'" and p: "px_pos (advance c') = Suc (px_pos c')"
      and br: "tokv T (px_pos c') = V_PUNCT PUNCT_LBRACE" and w': "wf T d" and m': "Suc (px_pos (advance c')) \<le> px_pos d"
    show "good T d (Suc (px_pos c)) (\<lambda>j y.
       (\<exists>m. chain (gram T G_CLAUSE) (px_pos (advance c')) m cs \<and> tokv T m = V_PUNCT PUNCT_RBRACE \<and> px_pos d = Suc m) \<longrightarrow>
       (\<exists>k. tokv T (px_pos (advance c)) = V_PUNCT PUNCT_LPAREN \<and> gram T G_EXPR (Suc (px_pos (advance c))) k e \<and>
         tokv T k = V_PUNCT PUNCT_RPAREN \<and> px_pos c' = Suc k) \<longrightarrow> gram T G_STMT (px_pos c) j y)
      (node_new (px_pos c) (AST_SWITCH e cs) d)"
      by (rule good_node [OF w']) (use m m' p br a(2) n(2) in \<open>auto intro: g_switch\<close>)
  qed
qed

text \<open>The head of a \<open>for\<close>: its first part includes the semicolon.\<close>

definition for_head :: "nat \<Rightarrow> nat \<Rightarrow> ast_node option \<Rightarrow> bool" where
  "for_head i k ini \<longleftrightarrow>
     ini = None \<and> tokv T i = V_PUNCT PUNCT_SEMI \<and> k = Suc i \<or>
     (\<exists>d. ini = Some d \<and> gram T G_LOCAL_DECL i k d) \<or>
     (\<exists>d k'. ini = Some d \<and> gram T G_EXPR i k' d \<and> tokv T k' = V_PUNCT PUNCT_SEMI \<and> k = Suc k')"

lemma for_init_good:
  assumes w: "wf T c"
  shows "good T c (Suc (px_pos c)) (for_head (px_pos c)) (for_init parse_expr c)"
proof -
  have decl: "good T c (Suc (px_pos c)) (for_head (px_pos c))
      (pbind (parse_local_var_decl parse_expr is_const) (\<lambda>d. p_return (Some d)) c)"
    if k: "cur_is_kw c (if is_const then KW_CONST else KW_VAR)" for is_const
    by (rule good_bindI, rule after_first_good [OF w kw_step(1) [OF w k] local_decl_after [OF w k]], rule good_return)
       (auto simp: for_head_def)
  show ?thesis
    unfolding for_init_def parse_local_const_decl_def
  proof (intro good_if, goal_cases)
    case 1
    with decl [of False] show ?case by simp
  next
    case 2
    with decl [of True] show ?case by simp
  next
    case 3
    note n = punct_step [OF w 3(3)]
    note a = advance_step [OF w n(1)]
    show ?case by (intro good_advance [OF w n(1)] good_return a(3)) (use a(2) n(2) in \<open>auto simp: for_head_def\<close>)
  next
    case 4
    show ?case
    proof (rule good_bindI, rule expr_good [OF w], rule good_punct, assumption, rule good_return)
      fix e c' assume "px_pos (advance c') = Suc (px_pos c')" "tokv T (px_pos c') = V_PUNCT PUNCT_SEMI"
      then show "gram T G_EXPR (px_pos c) (px_pos c') e \<longrightarrow> for_head (px_pos c) (px_pos (advance c')) (Some e)"
        by (auto simp: for_head_def)
    qed auto
  qed
qed

lemma for_parts_good:
  assumes w: "wf T c" and l: "left T c \<le> n" and s: "s \<le> px_pos c"
    and k: "tokv T s = V_KEYWORD KW_FOR" "tokv T (Suc s) = V_PUNCT PUNCT_LPAREN" "px_pos c = Suc (Suc s)"
  shows "good T c (Suc (px_pos c)) (\<lambda>j b. \<forall>nd. gnode T s j b nd \<longrightarrow> gram T G_STMT s j nd)
    (pbind (for_init parse_expr) (\<lambda>ini.
      pbind (popt (\<lambda>c. \<not> cur_is_punct c PUNCT_SEMI) parse_expr) (\<lambda>cond.
      pseq (expect_punct PUNCT_SEMI)
        (pbind (popt (\<lambda>c. \<not> cur_is_punct c PUNCT_RPAREN) parse_expr) (\<lambda>st.
         pseq (expect_punct PUNCT_RPAREN)
           (pbind (controlled s pb) (\<lambda>body. p_return (AST_FOR ini cond st body))))))) c)"
proof (rule good_bindI, rule for_init_good [OF w], rule good_bindI, rule expr_opt, assumption,
    rule good_punct, assumption, rule good_bindI, rule expr_opt, assumption,
    rule good_punct, assumption, rule good_bindI, rule body_good, assumption)
  fix ini c1 cond c2 st c3
  assume st: "stepsto T c c1" "stepsto T c1 c2" "stepsto T c2 (advance c2)" "stepsto T (advance c2) c3"
    "stepsto T c3 (advance c3)"
  note all = stepsto_trans [OF st(1) stepsto_trans [OF st(2) stepsto_trans [OF st(3) stepsto_trans [OF st(4,5)]]]]
  show "left T (advance c3) \<le> n" using left_step [OF all] l by simp
  show "s \<le> px_pos (advance c3)" using stepsto_pos [OF all] s by simp
  fix body c4
  assume w4: "wf T c4" and p: "px_pos (advance c2) = Suc (px_pos c2)" "px_pos (advance c3) = Suc (px_pos c3)"
    and m: "Suc (px_pos (advance c3)) \<le> px_pos c4"
    and t: "tokv T (px_pos c2) = V_PUNCT PUNCT_SEMI" "tokv T (px_pos c3) = V_PUNCT PUNCT_RPAREN"
  show "good T c4 (Suc (px_pos c)) (\<lambda>j b. gram T G_BLOCK (px_pos (advance c3)) (px_pos c4) body \<longrightarrow>
      gopt (gram T G_EXPR) (px_pos (advance c2)) (px_pos c3) st \<longrightarrow>
      gopt (gram T G_EXPR) (px_pos c1) (px_pos c2) cond \<longrightarrow> for_head (px_pos c) (px_pos c1) ini \<longrightarrow>
      (\<forall>nd. gnode T s j b nd \<longrightarrow> gram T G_STMT s j nd)) (p_return (AST_FOR ini cond st body) c4)"
  proof (rule good_return [OF w4], goal_cases)
    case 1
    show ?case using m stepsto_pos [OF all] by simp
  next
    case 2
    show ?case
    proof (intro impI allI)
      fix nd
      assume h: "for_head (px_pos c) (px_pos c1) ini" and x: "gopt (gram T G_EXPR) (px_pos c1) (px_pos c2) cond"
        "gopt (gram T G_EXPR) (px_pos (advance c2)) (px_pos c3) st" "gram T G_BLOCK (px_pos (advance c3)) (px_pos c4) body"
        "gnode T s (px_pos c4) (AST_FOR ini cond st body) nd"
      show "gram T G_STMT s (px_pos c4) nd"
        by (rule g_for [OF k(1,2) _ x(1) t(1) _ t(2) _ x(4)]) (use h x p k(3) in \<open>simp_all add: for_head_def\<close>)
    qed
  qed
qed

lemma for_after:
  assumes w: "wf T c" and l: "left T c \<le> Suc n" and k: "cur_is_kw c KW_FOR"
  shows "after_first T c (gram T G_STMT) (parse_for parse_expr pb c)"
proof -
  note n = kw_step [OF w k]
  note a = advance_step [OF w n(1)] and l' = left_advance [OF w n(1) l]
  show ?thesis
    unfolding after_first_def parse_for_def Let_def
  proof (rule good_punct [OF a(3)], rule good_bindI, rule scoped_good, assumption, rule for_parts_good)
    assume st: "stepsto T (advance c) (advance (advance c))" and w': "wf T (advance (advance c))"
      and p: "px_pos (advance (advance c)) = Suc (px_pos (advance c))"
      and t: "tokv T (px_pos (advance c)) = V_PUNCT PUNCT_LPAREN"
    show "wf T (scope_push (advance (advance c)))" using w' by simp
    show "left T (scope_push (advance (advance c))) \<le> n" using left_step [OF st] l' by simp
    show "px_pos c \<le> px_pos (scope_push (advance (advance c)))" using p a(2) by simp
    show "tokv T (px_pos c) = V_KEYWORD KW_FOR" by (rule n(2))
    show "tokv T (Suc (px_pos c)) = V_PUNCT PUNCT_LPAREN" using t a(2) by simp
    show "px_pos (scope_push (advance (advance c))) = Suc (Suc (px_pos c))" using p a(2) by simp
    fix b c' assume w'': "wf T c'" and m: "Suc (px_pos (scope_push (advance (advance c)))) \<le> px_pos c'"
    show "good T c' (Suc (px_pos c)) (\<lambda>j y. (\<forall>nd. gnode T (px_pos c) (px_pos c') b nd \<longrightarrow> gram T G_STMT (px_pos c) (px_pos c') nd) \<longrightarrow>
        gram T G_STMT (px_pos c) j y) (node_new (px_pos c) b c')"
      by (rule good_node [OF w'']) (use m p a(2) in auto)
  qed
qed

end

lemma simple_after:
  assumes w: "wf T c"
  shows "cur_is_kw c (if is_break then KW_BREAK else KW_CONTINUE) \<Longrightarrow>
      after_first T c (gram T G_STMT) (parse_break_continue is_break c)"
    and "cur_is_kw c KW_RETURN \<Longrightarrow> after_first T c (gram T G_STMT) (parse_return parse_expr c)"
    and "cur c = V_PUNCT PUNCT_SEMI \<Longrightarrow>
      after_first T c (gram T G_STMT) (node_new (px_pos c) AST_EMPTY_STMT (advance c))"
proof -
  assume k: "cur_is_kw c (if is_break then KW_BREAK else KW_CONTINUE)"
  note n = kw_step [OF w k]
  note a = advance_step [OF w n(1)]
  show "after_first T c (gram T G_STMT) (parse_break_continue is_break c)"
    unfolding after_first_def parse_break_continue_def
    by (rule good_expect_node [OF a(3)]) (use a(2) n(2) in \<open>auto intro: g_break [where is_break = is_break]\<close>)
next
  assume k: "cur_is_kw c KW_RETURN"
  note n = kw_step [OF w k]
  note a = advance_step [OF w n(1)]
  show "after_first T c (gram T G_STMT) (parse_return parse_expr c)"
    unfolding after_first_def parse_return_def
  proof (rule good_bindI, rule expr_opt [OF a(3)], rule good_expect_node, assumption)
    fix v d nd assume "tokv T (px_pos d) = V_PUNCT PUNCT_SEMI" "gnode T (px_pos c) (Suc (px_pos d)) (AST_RETURN v) nd"
    then show "gopt (gram T G_EXPR) (px_pos (advance c)) (px_pos d) v \<longrightarrow> gram T G_STMT (px_pos c) (Suc (px_pos d)) nd"
      using a(2) n(2) by (auto intro: g_return)
  qed (use a(2) in auto)
next
  assume b: "cur c = V_PUNCT PUNCT_SEMI"
  then have ne: "cur c \<noteq> V_EOF" by simp
  note a = advance_step [OF w ne]
  show "after_first T c (gram T G_STMT) (node_new (px_pos c) AST_EMPTY_STMT (advance c))"
    unfolding after_first_def
    by (rule good_node [OF a(3)]) (use a(2) b cur_tokv [OF w] in \<open>auto intro: g_empty\<close>)
qed

lemma expr_stmt_good:
  assumes w: "wf T c"
  shows "good T c (Suc (px_pos c)) (gram T G_STMT (px_pos c)) (parse_expr_stmt parse_expr c)"
  unfolding parse_expr_stmt_def
  by (rule good_bindI, rule expr_good [OF w], rule good_expect_node) (auto intro: g_expr_stmt)

section \<open>The recursion of statements\<close>

lemma stmt_nt_parses:
  "(\<forall>c. wf T c \<longrightarrow> left T c \<le> n \<longrightarrow> cur c = V_PUNCT PUNCT_LBRACE \<longrightarrow>
      after_first T c (gram T G_BLOCK) (parse_stmt_nt NT_BLOCK c)) \<and>
   (\<forall>c. wf T c \<longrightarrow> left T c \<le> n \<longrightarrow> cur_is_kw c KW_IF \<longrightarrow>
      after_first T c (gram T G_IF) (parse_stmt_nt NT_IF c)) \<and>
   (\<forall>c. wf T c \<longrightarrow> left T c \<le> n \<longrightarrow> before_close c \<longrightarrow>
      item_ok T c (parse_stmt_nt NT_STATEMENT) (\<lambda>v. v = V_PUNCT PUNCT_RBRACE \<or> starts_stmt v) (gram T G_STMT))"
proof (induction n)
  case 0
  then show ?case by (auto simp: left_def wf_def)
next
  case (Suc n)
  have bp: "block_parser T n (parse_stmt_nt NT_BLOCK)"
    using Suc by unfold_locales blast
  have block: "after_first T c (gram T G_BLOCK) (parse_stmt_nt NT_BLOCK c)"
    if "wf T c" "left T c \<le> Suc n" "cur c = V_PUNCT PUNCT_LBRACE" for c
    using that Suc by (subst parse_stmt_eqs(1)) (intro block_after; auto)
  have ifs: "after_first T c (gram T G_IF) (parse_stmt_nt NT_IF c)"
    if "wf T c" "left T c \<le> Suc n" "cur_is_kw c KW_IF" for c
    using that Suc by (subst parse_stmt_eqs(3)) (intro block_parser.if_after [OF bp]; auto)
  have "item_ok T c (parse_stmt_nt NT_STATEMENT) (\<lambda>v. v = V_PUNCT PUNCT_RBRACE \<or> starts_stmt v) (gram T G_STMT)"
    if w: "wf T c" and l: "left T c \<le> Suc n" and b: "before_close c" for c
  proof -
    have first: ?thesis if "after_first T c (gram T G_STMT) (parse_stmt_nt NT_STATEMENT c)"
      using after_first_good [OF w _ that] after_first_progress [OF that] b
      by (auto simp: item_ok_def before_close_def eof_iff)
    have expr: ?thesis if "parse_stmt_nt NT_STATEMENT c = parse_expr_stmt parse_expr c \<or>
        parse_stmt_nt NT_STATEMENT c = expr_stmt_or_unexpected parse_expr c" and "\<not> starts_stmt (cur c)"
      using that expr_stmt_good [OF w] good_unexpected [OF w] b
      by (auto simp: item_ok_def before_close_def cur_tests expr_stmt_or_unexpected_def)
    have sub: ?thesis if "after_first T c (gram T S) v" and "parse_stmt_nt NT_STATEMENT c = v"
      and "\<And>j x. gram T S (px_pos c) j x \<Longrightarrow> gram T G_STMT (px_pos c) j x" for S v
      by (rule first) (use that after_first_mono [of T c "gram T S" v "gram T G_STMT"] in auto)
    note eq = parse_stmt_eqs(2) [of c] parse_statement_def
    show ?thesis
    proof (cases "cur c")
      case (V_PUNCT p)
      consider "p = PUNCT_LBRACE" | "p = PUNCT_SEMI" | "p \<noteq> PUNCT_LBRACE" "p \<noteq> PUNCT_SEMI" by blast
      then show ?thesis
      proof cases
        case 1
        with V_PUNCT show ?thesis by (intro sub [OF block [OF w l]]) (simp_all add: eq g_block_stmt)
      next
        case 2
        with V_PUNCT show ?thesis by (intro sub [OF simple_after(3) [OF w]]) (simp_all add: eq)
      next
        case 3
        with V_PUNCT show ?thesis by (intro expr) (simp_all add: eq starts_stmt_def)
      qed
    next
      case (V_KEYWORD k)
      have kw: "cur_is_kw c x \<longleftrightarrow> k = x" for x using V_KEYWORD by (auto simp: cur_tests)
      note eqk = eq V_KEYWORD kw parse_local_const_decl_def
      consider "k = KW_VAR" | "k = KW_CONST" | "k = KW_IF" | "k = KW_WHILE" | "k = KW_FOR" | "k = KW_SWITCH"
        | "k = KW_BREAK" | "k = KW_CONTINUE" | "k = KW_RETURN"
        | "k \<notin> {KW_VAR, KW_CONST, KW_IF, KW_WHILE, KW_FOR, KW_SWITCH, KW_BREAK, KW_CONTINUE, KW_RETURN}" by blast
      then show ?thesis
      proof cases
        case 1
        then show ?thesis by (intro sub [OF local_decl_after [OF w, of False]]) (simp_all add: eqk g_decl_stmt)
      next
        case 2
        then show ?thesis by (intro sub [OF local_decl_after [OF w, of True]]) (simp_all add: eqk g_decl_stmt)
      next
        case 3
        then show ?thesis by (intro sub [OF ifs [OF w l]]) (simp_all add: eqk g_if_stmt)
      next
        case 4
        then show ?thesis by (intro sub [OF block_parser.while_after [OF bp w l]]) (simp_all add: eqk)
      next
        case 5
        then show ?thesis by (intro sub [OF block_parser.for_after [OF bp w l]]) (simp_all add: eqk)
      next
        case 6
        then show ?thesis by (intro sub [OF block_parser.switch_after [OF bp w l]]) (simp_all add: eqk)
      next
        case 7
        then show ?thesis by (intro sub [OF simple_after(1) [OF w, of True]]) (simp_all add: eqk)
      next
        case 8
        then show ?thesis by (intro sub [OF simple_after(1) [OF w, of False]]) (simp_all add: eqk)
      next
        case 9
        then show ?thesis by (intro sub [OF simple_after(2) [OF w]]) (simp_all add: eqk)
      next
        case 10
        with V_KEYWORD show ?thesis by (intro expr) (simp_all add: eq starts_stmt_def)
      qed
    qed (rule expr; simp add: eq starts_stmt_def)+
  qed
  with block ifs show ?case by blast
qed

lemma block_good:
  assumes "wf T c" and "cur c = V_PUNCT PUNCT_LBRACE"
  shows "good T c (Suc (px_pos c)) (gram T G_BLOCK (px_pos c)) (parse_stmt_nt NT_BLOCK c)"
  using stmt_nt_parses [of T "left T c"] assms by (intro after_first_good) auto

interpretation blocks: block_parser T n "parse_stmt_nt NT_BLOCK" for T n
  using stmt_nt_parses by unfold_locales blast

end
