(* ===== verification/ParseDeclSound.thy ===== *)
theory ParseDeclSound
  imports ParseStmtSound
begin

text \<open>
  The contract for the parse functions of declarations and for the loops of \<open>parse_program\<close>.
\<close>

section \<open>Names\<close>

lemma qname_decl_after:
  assumes w: "wf T c" and ne: "cur c \<noteq> V_EOF"
    and Q: "\<And>name j nd. dotted T (Suc (px_pos c)) j name \<Longrightarrow> tokv T j = V_PUNCT PUNCT_SEMI \<Longrightarrow>
      gnode T (px_pos c) (Suc j) (mk name) nd \<Longrightarrow> R (px_pos c) (Suc j) nd"
  shows "after_first T c R (qname_decl mk c)"
proof -
  note a = advance_step [OF w ne]
  show ?thesis
    unfolding after_first_def qname_decl_def
    by (rule good_node_after [OF qualified_name_parses a(3) order_refl]) (use a(2) Q in auto)
qed

lemma import_item:
  assumes w: "wf T c" and k: "cur_is_kw c KW_IMPORT"
  shows "item_ok T c parse_import (\<lambda>v. v = V_KEYWORD KW_MODULE \<or> v = V_KEYWORD KW_IMPORT \<or> starts_top_level v) (gram T G_IMPORT)"
proof -
  note n = kw_step [OF w k]
  have "after_first T c (gram T G_IMPORT) (parse_import c)"
    unfolding parse_import_def by (rule qname_decl_after [OF w n(1)]) (use n(2) in \<open>auto intro: g_import\<close>)
  then show ?thesis by (simp add: item_ok_def after_first_good [OF w n(1)] after_first_progress)
qed

section \<open>Structs\<close>

text \<open>\<open>name ":" type\<close>, and the rest.\<close>

lemma name_type_good:
  assumes w: "wf T c"
    and Q: "\<And>t d. wf T d \<Longrightarrow> cur_is_ident c \<Longrightarrow> tokv T (px_pos c) = V_IDENT (cur_ident c) \<Longrightarrow>
      tokv T (Suc (px_pos c)) = V_PUNCT PUNCT_COLON \<Longrightarrow> Suc (Suc (Suc (px_pos c))) \<le> px_pos d \<Longrightarrow>
      stepsto T c d \<Longrightarrow>
      good T d m (\<lambda>j y. gram T G_TYPE (Suc (Suc (px_pos c))) (px_pos d) t \<longrightarrow> Q j y) (f t d)"
  shows "good T c m Q
    (if \<not> cur_is_ident c then p_null (err_expected c ''identifier'')
     else pseq (expect_punct PUNCT_COLON) (pbind (parse_type parse_expr) f) (advance c))"
proof (intro good_if good_expected [OF w], goal_cases)
  case 1
  then have id: "cur_is_ident c" by simp
  note i = ident_step [OF w id]
  note a = advance_step [OF w i(1)]
  show ?case
  proof (rule good_advance [OF w i(1)], rule good_punct [OF a(3)], rule good_bindI, rule type_good, assumption)
    fix t d
    assume st: "stepsto T (advance c) (advance (advance c))" and p: "px_pos (advance (advance c)) = Suc (px_pos (advance c))"
      and col: "tokv T (px_pos (advance c)) = V_PUNCT PUNCT_COLON" and d: "wf T d"
      and std: "stepsto T (advance (advance c)) d" and m: "Suc (px_pos (advance (advance c))) \<le> px_pos d"
    have "stepsto T c d" by (rule stepsto_trans [OF a(1) stepsto_trans [OF st std]])
    with Q [OF d id i(2)] col p m a(2)
    show "good T d m (\<lambda>j y. gram T G_TYPE (px_pos (advance (advance c))) (px_pos d) t \<longrightarrow> Q j y) (f t d)" by simp
  qed
qed

lemma field_good:
  assumes w: "wf T c"
  shows "good T c (Suc (px_pos c)) (gram T G_FIELD (px_pos c)) (parse_field_decl c)"
  unfolding parse_field_decl_def
  by (rule name_type_good [OF w], rule good_expect_node, assumption) (auto intro: g_field)

text \<open>The name after the keyword of a declaration.\<close>

lemma name_after:
  assumes w: "wf T c" and k: "cur_is_kw c kw"
    and Q: "\<And>d. d = advance (advance c) \<Longrightarrow> wf T d \<Longrightarrow> stepsto T (advance c) d \<Longrightarrow> px_pos d = Suc (Suc (px_pos c)) \<Longrightarrow>
      tokv T (px_pos c) = V_KEYWORD kw \<Longrightarrow> tokv T (Suc (px_pos c)) = V_IDENT (cur_ident (advance c)) \<Longrightarrow>
      good T d (Suc (px_pos c)) (R (px_pos c)) (f d)"
  shows "after_first T c R
    (if \<not> cur_is_ident (advance c) then p_null (err_expected (advance c) ''identifier'') else f (advance (advance c)))"
proof -
  note n = kw_step [OF w k]
  note a = advance_step [OF w n(1)]
  show ?thesis
    unfolding after_first_def
  proof (intro good_if good_expected [OF a(3)], goal_cases)
    case 1
    then have id: "cur_is_ident (advance c)" by simp
    note i = ident_step [OF a(3) id]
    note b = advance_step [OF a(3) i(1)]
    show ?case by (rule good_advance [OF a(3) i(1)], rule Q) (use a b i n in simp_all)
  qed
qed

text \<open>A declaration after its optional \<open>pub\<close>.\<close>

definition gdecl :: "tape \<Rightarrow> bool \<Rightarrow> nat \<Rightarrow> nat \<Rightarrow> ast_node \<Rightarrow> bool" where
  "gdecl T is_pub k j n \<longleftrightarrow> (\<forall>i. opt_pub T i k is_pub \<longrightarrow> gram T G_DECL i j n)"

lemma struct_after:
  assumes w: "wf T c" and k: "cur_is_kw c KW_STRUCT"
  shows "after_first T c (gdecl T is_pub) (parse_struct_decl is_pub c)"
  unfolding parse_struct_decl_def Let_def
proof (rule name_after [OF w k], rule good_punct, assumption, rule good_bindI,
    rule braced_items_good [OF _ statement_recovers(3)], assumption)
  fix e d assume "stepsto T e d" and "before_close d"
  then show "item_ok T d parse_field_decl (\<lambda>v. v = V_PUNCT PUNCT_RBRACE) (gram T G_FIELD)"
    using field_good [OF stepsto_wf] by (auto simp: item_ok_def before_close_def cur_tests)
next
  fix d xs c'
  assume t: "tokv T (px_pos c) = V_KEYWORD KW_STRUCT" "tokv T (Suc (px_pos c)) = V_IDENT (cur_ident (advance c))"
    "tokv T (px_pos d) = V_PUNCT PUNCT_LBRACE" and p: "px_pos d = Suc (Suc (px_pos c))" "px_pos (advance d) = Suc (px_pos d)"
    and w': "wf T c'" and m: "Suc (px_pos (advance d)) \<le> px_pos c'"
  show "good T c' (Suc (px_pos c)) (\<lambda>j y.
     (\<exists>m. chain (gram T G_FIELD) (px_pos (advance d)) m xs \<and> tokv T m = V_PUNCT PUNCT_RBRACE \<and> px_pos c' = Suc m) \<longrightarrow>
     gdecl T is_pub (px_pos c) j y) (node_new (px_pos c) (AST_STRUCT_DECL (cur_ident (advance c)) xs is_pub) c')"
    by (rule good_node [OF w']) (use t p m in \<open>auto simp: gdecl_def intro: g_struct_decl\<close>)
qed

section \<open>Global variables\<close>

lemma global_after:
  assumes w: "wf T c" and k: "cur_is_kw c (if is_const then KW_CONST else KW_VAR)"
  shows "after_first T c (gdecl T is_pub) (parse_global_var is_pub is_const c)"
  unfolding parse_global_var_def Let_def
proof (rule name_after [OF w k], rule good_punct, assumption, rule good_bindI, rule type_good, assumption)
  fix d t and c' :: parse_ctx
  let ?x = "cur_ident (advance c)" and ?i = "px_pos c"
  let ?T = "gram T G_TYPE (px_pos (advance d)) (px_pos c') t"
  assume toks: "tokv T ?i = V_KEYWORD (if is_const then KW_CONST else KW_VAR)" "tokv T (Suc ?i) = V_IDENT ?x"
    "tokv T (px_pos d) = V_PUNCT PUNCT_COLON" "px_pos d = Suc (Suc ?i)" "px_pos (advance d) = Suc (px_pos d)"
    and w': "wf T c'" and m: "Suc (px_pos (advance d)) \<le> px_pos c'"
  show "good T c' (Suc ?i) (\<lambda>j y. ?T \<longrightarrow> gdecl T is_pub ?i j y)
    ((if is_const then
        pseq (expect_punct PUNCT_ASSIGN)
          (pbind parse_expr (\<lambda>i. pseq (expect_punct PUNCT_SEMI) (node_new ?i (AST_GLOBAL_CONST_DECL ?x t i is_pub))))
      else pbind (popt (\<lambda>c. cur_is_punct c PUNCT_ASSIGN) (\<lambda>c. parse_expr (advance c)))
        (\<lambda>i. pseq (expect_punct PUNCT_SEMI) (node_new ?i (AST_GLOBAL_VAR_DECL ?x t i is_pub)))) c')"
  proof (cases is_const)
    case True
    have "good T c' (Suc ?i) (\<lambda>j y. ?T \<longrightarrow> gdecl T is_pub ?i j y)
      (pseq (expect_punct PUNCT_ASSIGN)
        (pbind parse_expr (\<lambda>i. pseq (expect_punct PUNCT_SEMI) (node_new ?i (AST_GLOBAL_CONST_DECL ?x t i is_pub)))) c')"
    proof (rule good_punct [OF w'], rule good_bindI, rule expr_good, assumption, rule good_expect_node)
      fix e c'' nd
      assume "px_pos (advance c') = Suc (px_pos c')"
        "tokv T (px_pos c') = V_PUNCT PUNCT_ASSIGN" "tokv T (px_pos c'') = V_PUNCT PUNCT_SEMI"
        "gnode T ?i (Suc (px_pos c'')) (AST_GLOBAL_CONST_DECL ?x t e is_pub) nd"
      then show "gram T G_EXPR (px_pos (advance c')) (px_pos c'') e \<longrightarrow> ?T \<longrightarrow> gdecl T is_pub ?i (Suc (px_pos c'')) nd"
        using toks True by (auto simp: gdecl_def intro: g_global_const)
    qed (use m toks in auto)
    with True show ?thesis by simp
  next
    case False
    have "good T c' (Suc ?i) (\<lambda>j y. ?T \<longrightarrow> gdecl T is_pub ?i j y)
      (pbind (popt (\<lambda>c. cur_is_punct c PUNCT_ASSIGN) (\<lambda>c. parse_expr (advance c)))
        (\<lambda>i. pseq (expect_punct PUNCT_SEMI) (node_new ?i (AST_GLOBAL_VAR_DECL ?x t i is_pub))) c')"
    proof (rule good_bindI, rule init_opt [OF w'], rule good_expect_node)
      fix e c'' nd
      assume "tokv T (px_pos c'') = V_PUNCT PUNCT_SEMI" "gnode T ?i (Suc (px_pos c'')) (AST_GLOBAL_VAR_DECL ?x t e is_pub) nd"
      then show "gopt (\<lambda>k j e. tokv T k = V_PUNCT PUNCT_ASSIGN \<and> gram T G_EXPR (Suc k) j e) (px_pos c') (px_pos c'') e \<longrightarrow>
          ?T \<longrightarrow> gdecl T is_pub ?i (Suc (px_pos c'')) nd"
        using toks False by (auto simp: gdecl_def intro: g_global_var)
    qed (use m toks in auto)
    with False show ?thesis by simp
  qed
qed

section \<open>Enums\<close>

lemma member_parses:
  assumes w: "wf T c"
  shows "good T c (Suc (px_pos c)) (gram T G_MEMBER (px_pos c)) (parse_enum_member c)"
  unfolding parse_enum_member_def
proof (intro good_if good_expected [OF w], goal_cases)
  case 1
  then have id: "cur_is_ident c" by simp
  note i = ident_step [OF w id]
  note a = advance_step [OF w i(1)]
  show ?case
  proof (rule good_advance [OF w i(1)], rule good_bindI, rule init_opt [OF a(3)])
    fix v c' assume "wf T c'" and "px_pos (advance c) \<le> px_pos c'"
    then show "good T c' (Suc (px_pos c)) (\<lambda>j y.
        gopt (\<lambda>k j e. tokv T k = V_PUNCT PUNCT_ASSIGN \<and> gram T G_EXPR (Suc k) j e) (px_pos (advance c)) (px_pos c') v \<longrightarrow>
        gram T G_MEMBER (px_pos c) j y) (node_new (px_pos c) (AST_ENUM_MEMBER (cur_ident c) v) c')"
      using a(2) i(2) by (intro good_node) (auto intro: g_enum_member)
  qed
qed

text \<open>The members so far: none, or a list whose last comma has been consumed, or one that ends at the
  closing brace.\<close>

definition members_at :: "tape \<Rightarrow> nat \<Rightarrow> nat \<Rightarrow> ast_node list \<Rightarrow> bool" where
  "members_at T i j ms \<longleftrightarrow>
     ms = [] \<and> i = j \<or>
     (\<exists>m. commas T (gram T G_MEMBER) i m ms \<and>
        (tokv T m = V_PUNCT PUNCT_COMMA \<and> j = Suc m \<or> tokv T m = V_PUNCT PUNCT_RBRACE \<and> j = m))"

lemma members_snoc:
  assumes "members_at T i j ms" and "tokv T j \<noteq> V_PUNCT PUNCT_RBRACE" and "gram T G_MEMBER j k x"
  shows "commas T (gram T G_MEMBER) i k (ms @ [x])"
  using assms by (auto simp: members_at_def intro: commas_snoc)

lemma members_items: "members_at T i j ms \<Longrightarrow> items T (gram T G_MEMBER) i j ms"
  by (auto simp: members_at_def items_def opt_comma_def)

lemma recovered:
  assumes "recovers T recover S" and "wf T c"
  obtains c' where "recover c = Some c'" "stepsto T c c'" "px_records c' = px_records c"
    "cur c \<noteq> V_EOF \<Longrightarrow> \<not> S (cur c) \<Longrightarrow> px_pos c < px_pos c'"
  using assms unfolding recovers_def by blast

text \<open>A result with a new record, whatever it is.\<close>

lemma good_reported:
  fixes c' :: parse_ctx
  assumes "stepsto T c c'" and "px_records c' \<noteq> px_records c" and "m \<le> px_pos c'"
  shows "good T c m Q (p_return x c')"
  by (rule goodI [of _ "Some x" c'], simp add: p_return_def, rule outcome_some) (use assms in simp_all)

lemma member_skip:
  assumes w: "wf T c" and st: "stepsto T c c'" and g: "px_records c' \<noteq> px_records c" and b: "before_close c"
  shows "good T c (Suc (px_pos c)) Q
    (Option.bind (recover_list_sep PUNCT_RBRACE c') (\<lambda>c''.
      p_return ms (if cur_is_punct c'' PUNCT_COMMA then advance c'' else c'')))"
proof -
  obtain c'' where r: "recover_list_sep PUNCT_RBRACE c' = Some c''" "stepsto T c' c''" "px_records c'' = px_records c'"
    and lt: "cur c' \<noteq> V_EOF \<Longrightarrow> \<not> (cur c' = V_PUNCT PUNCT_COMMA \<or> cur c' = V_PUNCT PUNCT_RBRACE) \<Longrightarrow> px_pos c' < px_pos c''"
    by (rule recovered [OF statement_recovers(5) stepsto_wf [OF st]]) blast
  let ?d = "if cur_is_punct c'' PUNCT_COMMA then advance c'' else c''"
  have w'': "wf T c''" by (rule stepsto_wf [OF r(2)])
  have d: "stepsto T c'' ?d" "px_records ?d = px_records c''" "px_pos c'' \<le> px_pos ?d"
    using w'' by (auto simp: cur_tests)
  have "px_pos c < px_pos ?d"
  proof (cases "px_pos c < px_pos c''")
    case False
    then have eq: "px_pos c' = px_pos c" "px_pos c'' = px_pos c" using stepsto_pos [OF st] stepsto_pos [OF r(2)] by simp_all
    then have "cur c' = cur c" "cur c'' = cur c"
      using cur_tokv [OF w] cur_tokv [OF w''] cur_tokv [OF stepsto_wf [OF st]] by simp_all
    with lt eq b have "cur c'' = V_PUNCT PUNCT_COMMA" by (auto simp: before_close_def cur_tests eof_iff)
    with w'' eq show ?thesis by (simp add: cur_tests)
  qed (use d(3) in simp)
  then show ?thesis
    using stepsto_trans [OF stepsto_trans [OF st r(2)] d(1)] r d(2) g
    by (simp add: good_reported del: if_split)
qed

lemma enum_step_good:
  assumes w: "wf T c" and b: "before_close c"
  shows "good T c (Suc (px_pos c)) (\<lambda>j xs. members_at T i (px_pos c) ms \<longrightarrow> members_at T i j xs) (enum_step ms c)"
  using member_parses [OF w]
proof (rule goodE)
  fix c' assume "parse_enum_member c = Some (None, c')" "stepsto T c c'" "px_records c' \<noteq> px_records c"
  then show ?thesis by (simp add: enum_step_def member_skip [OF w _ _ b])
next
  fix x c' assume r: "parse_enum_member c = Some (Some x, c')" and st: "stepsto T c c'" and m: "Suc (px_pos c) \<le> px_pos c'"
    and x: "px_records c' = px_records c \<Longrightarrow> gram T G_MEMBER (px_pos c) (px_pos c') x"
  note w' = stepsto_wf [OF st] and t = cur_tokv [OF stepsto_wf [OF st]]
  have "tokv T (px_pos c) \<noteq> V_PUNCT PUNCT_RBRACE" using b cur_tokv [OF w] by (simp add: before_close_def cur_tests)
  then have snoc: "px_records c' = px_records c \<Longrightarrow> members_at T i (px_pos c) ms \<Longrightarrow>
      commas T (gram T G_MEMBER) i (px_pos c') (ms @ [x])"
    using members_snoc x by blast
  consider "cur c' = V_PUNCT PUNCT_COMMA" | "cur c' = V_PUNCT PUNCT_RBRACE"
    | "cur c' \<noteq> V_PUNCT PUNCT_COMMA" "cur c' \<noteq> V_PUNCT PUNCT_RBRACE" by blast
  then show ?thesis
  proof cases
    case 1
    then have ne: "cur c' \<noteq> V_EOF" by simp
    note a = advance_step [OF w' ne]
    have "outcome T c (Suc (px_pos c)) (\<lambda>j xs. members_at T i (px_pos c) ms \<longrightarrow> members_at T i j xs)
        (Some (ms @ [x])) (advance c')"
      by (rule outcome_some [OF stepsto_trans [OF st a(1)]])
         (use 1 t a(2,4) m snoc in \<open>auto simp: members_at_def [of T i "Suc (px_pos c')"]\<close>)
    then show ?thesis by (rule goodI [rotated]) (simp add: enum_step_def r 1 cur_tests p_return_def)
  next
    case 2
    have "outcome T c (Suc (px_pos c)) (\<lambda>j xs. members_at T i (px_pos c) ms \<longrightarrow> members_at T i j xs)
        (Some (ms @ [x])) c'"
      by (rule outcome_some [OF st]) (use 2 t m snoc in \<open>auto simp: members_at_def [of T i "px_pos c'"]\<close>)
    then show ?thesis by (rule goodI [rotated]) (simp add: enum_step_def r 2 cur_tests p_return_def)
  next
    case 3
    let ?e = "err_expected c' (quoted '','' @ '' or '' @ quoted ''}'')"
    have e: "stepsto T c' ?e" "px_records ?e \<noteq> px_records c'"
      unfolding err_expected_def
      by (rule report_step(1,2) [OF w' _ err_span_ok [OF w']]; simp add: syn_codes_def)+
    obtain c'' where rc: "recover_list_sep PUNCT_RBRACE ?e = Some c''" "stepsto T ?e c''" "px_records c'' = px_records ?e"
      by (rule recovered [OF statement_recovers(5) stepsto_wf [OF e(1)]]) blast
    have "stepsto T c' c''" and ne: "px_records c'' \<noteq> px_records c'"
      using stepsto_trans [OF e(1) rc(2)] e(2) rc(3) by simp_all
    moreover have "px_records c'' \<noteq> px_records c"
      using clean_trans [OF st \<open>stepsto T c' c''\<close>] ne by blast
    ultimately show ?thesis
      using stepsto_trans [OF st] stepsto_pos [of T c' c''] m r 3 rc(1)
      by (simp add: enum_step_def cur_tests good_reported)
  qed
qed

lemma members_good:
  assumes w: "wf T c"
  shows "good T c (px_pos c) (items T (gram T G_MEMBER) (px_pos c)) (ploop before_close enum_step [] c)"
proof -
  have "good T c (px_pos c) (\<lambda>j xs. (members_at T (px_pos c) (px_pos c) [] \<longrightarrow> members_at T (px_pos c) j xs) \<and> True)
    (ploop before_close enum_step [] c)"
    by (rule good_loop [OF w]) (auto intro: enum_step_good stepsto_wf)
  then show ?thesis by (rule good_mono) (auto intro: members_items simp: members_at_def [of _ _ _ "[]"])
qed

definition underlying_at :: "tape \<Rightarrow> nat \<Rightarrow> nat \<Rightarrow> ast_node \<Rightarrow> bool" where
  "underlying_at T i j u \<longleftrightarrow> j = Suc i \<and>
     (\<exists>w p. tokv T i = V_KEYWORD w \<and> ast_prim_from_keyword w = Some p \<and>
        p \<notin> {AST_PRIM_VOID, AST_PRIM_BOOL, AST_PRIM_STR} \<and> nbody u = AST_TYPE_PRIM p \<and> nspan u = tok_sp (snd T) i)"

lemma underlying_good:
  assumes w: "wf T c"
  shows "good T c (Suc (px_pos c)) (underlying_at T (px_pos c)) (enum_underlying c)"
  unfolding enum_underlying_def
proof (intro good_if good_expected [OF w], goal_cases)
  case 1
  then have "cur_is_int_kw c" by simp
  then obtain k where k: "cur c = V_KEYWORD k"
    "k \<in> set [KW_I8, KW_I16, KW_I32, KW_I64, KW_U8, KW_U16, KW_U32, KW_U64, KW_ISIZE, KW_USIZE]"
    by (cases "cur c") (simp_all add: cur_is_int_kw_def)
  obtain p where p: "ast_prim_from_keyword k = Some p" "p \<notin> {AST_PRIM_VOID, AST_PRIM_BOOL, AST_PRIM_STR}"
    using k(2) by auto
  have ne: "cur c \<noteq> V_EOF" using k by simp
  let ?d = "c\<lparr>px_nodes := Suc (px_nodes c)\<rparr>"
  let ?u = "AstNode (px_nodes c) (tok_sp (px_tokens c) (px_pos c)) (AST_TYPE_PRIM p)"
  have d: "wf T ?d" "cur ?d = cur c" "stepsto T c ?d" using w by (simp_all add: wf_def cur_def stepsto_def)
  have ne': "cur ?d \<noteq> V_EOF" using d(2) ne by simp
  note a = advance_step [OF d(1) ne']
  have "underlying_at T (px_pos c) (Suc (px_pos c)) ?u"
    using k p cur_tokv [OF w] w by (auto simp: underlying_at_def wf_def)
  then have "outcome T c (Suc (px_pos c)) (underlying_at T (px_pos c)) (Some ?u) (advance ?d)"
    using a(2,4) by (intro outcome_some [OF stepsto_trans [OF d(3) a(1)]]) simp_all
  then show ?case by (rule goodI [rotated]) (simp add: k(1) p p_return_def)
qed

lemma enum_after:
  assumes w: "wf T c" and k: "cur_is_kw c KW_ENUM"
  shows "after_first T c (gdecl T is_pub) (parse_enum_decl is_pub c)"
  unfolding parse_enum_decl_def Let_def
proof (rule name_after [OF w k], rule good_punct, assumption, rule good_bindI, rule underlying_good, assumption,
    rule good_punct, assumption, rule good_bindI, rule members_good, assumption, rule good_expect_node, assumption)
  fix d u c' ms c'' nd
  let ?i = "px_pos c" and ?x = "cur_ident (advance c)"
  assume p: "px_pos d = Suc (Suc ?i)" "px_pos (advance d) = Suc (px_pos d)" "px_pos (advance c') = Suc (px_pos c')"
    and m: "Suc (px_pos (advance d)) \<le> px_pos c'" "px_pos (advance c') \<le> px_pos c''"
  show "Suc ?i \<le> Suc (px_pos c'')" using p m by simp
  assume t: "tokv T ?i = V_KEYWORD KW_ENUM" "tokv T (Suc ?i) = V_IDENT ?x" "tokv T (px_pos d) = V_PUNCT PUNCT_COLON"
    "tokv T (px_pos c') = V_PUNCT PUNCT_LBRACE" "tokv T (px_pos c'') = V_PUNCT PUNCT_RBRACE"
    and nd: "gnode T ?i (Suc (px_pos c'')) (AST_ENUM_DECL ?x u ms is_pub) nd"
  show "items T (gram T G_MEMBER) (px_pos (advance c')) (px_pos c'') ms \<longrightarrow>
      underlying_at T (px_pos (advance d)) (px_pos c') u \<longrightarrow> gdecl T is_pub ?i (Suc (px_pos c'')) nd"
    unfolding underlying_at_def gdecl_def
    using t nd p by (auto intro!: g_enum_decl)
qed

section \<open>Functions\<close>

text \<open>One item, with no promise of progress.\<close>

lemma item_step_any:
  assumes g: "good T c (Suc (px_pos c)) (P (px_pos c)) (p c)" and rec: "recovers T recover S"
  shows "good T c (px_pos c) (\<lambda>j xs. \<exists>x. xs = acc @ [x] \<and> P (px_pos c) j x) (item_step p recover acc c)"
  using g
proof (rule goodE)
  fix c' assume r: "p c = Some (None, c')" and st: "stepsto T c c'" and ne: "px_records c' \<noteq> px_records c"
  obtain c'' where rc: "recover c' = Some c''" "stepsto T c' c''"
    by (rule recovered [OF rec stepsto_wf [OF st]]) blast
  have st': "stepsto T c c''" by (rule stepsto_trans [OF st rc(2)])
  moreover have "px_records c'' \<noteq> px_records c" using clean_trans [OF st rc(2)] ne by blast
  ultimately show ?thesis using r rc(1) stepsto_pos [OF st'] by (simp add: item_step_def good_reported)
next
  fix x c' assume "p c = Some (Some x, c')" "stepsto T c c'" "Suc (px_pos c) \<le> px_pos c'"
    "px_records c' = px_records c \<Longrightarrow> P (px_pos c) (px_pos c') x"
  then show ?thesis
    by (intro goodI [of _ "Some (acc @ [x])" c'] outcome_some) (simp_all add: item_step_def p_return_def)
qed

lemma param_good:
  assumes w: "wf T c"
  shows "good T c (Suc (px_pos c)) (gram T G_PARAM (px_pos c)) (parse_param c)"
  unfolding parse_param_def
proof (rule name_type_good [OF w])
  fix t d
  let ?x = "cur_ident c"
  assume d: "wf T d" and m: "Suc (Suc (Suc (px_pos c))) \<le> px_pos d"
    and t: "tokv T (px_pos c) = V_IDENT ?x" "tokv T (Suc (px_pos c)) = V_PUNCT PUNCT_COLON"
  let ?d = "scope_declare_value ?x (px_pos c) d"
  have s: "stepsto T d ?d" "px_records ?d = px_records d" "px_pos ?d = px_pos d" "wf T ?d"
    using d by (auto simp: scope_declare_value_def stepsto_def wf_def split: list.splits)
  show "good T d (Suc (px_pos c)) (\<lambda>j y. gram T G_TYPE (Suc (Suc (px_pos c))) (px_pos d) t \<longrightarrow> gram T G_PARAM (px_pos c) j y)
    (node_new (px_pos c) (AST_PARAM ?x t) ?d)"
    by (rule good_after [OF s(1,2)], rule good_node [OF s(4)]) (use s(3) m t in \<open>auto intro: g_param\<close>)
qed

lemma params_good:
  assumes w: "wf T c"
  shows "good T c (px_pos c) (args T (gram T G_PARAM) (px_pos c)) (parse_params c)"
  unfolding parse_params_def
proof (intro good_if, goal_cases)
  case 1
  show ?case by (rule good_return [OF w]) (simp_all add: args_def)
next
  case 2
  have step: "good T d (px_pos d) (\<lambda>j xs. \<exists>x. xs = acc @ [x] \<and> gram T G_PARAM (px_pos d) j x)
      (item_step parse_param (recover_list_sep PUNCT_RPAREN) acc d)" if "wf T d" for d acc
    by (rule item_step_any [where P = "gram T G_PARAM"], rule param_good [OF that], rule statement_recovers(5))
  let ?G = "commas T (gram T G_PARAM) (px_pos c)"
  show ?case
    unfolding param_step_def
  proof (rule good_bindI, rule step [OF w])
    fix xs c' assume w': "wf T c'" and m: "px_pos c \<le> px_pos c'"
    have "good T c' (px_pos c') (\<lambda>j y. (?G (px_pos c') xs \<longrightarrow> ?G j y) \<and> True)
      (ploop (\<lambda>c. cur_is_punct c PUNCT_COMMA)
        (\<lambda>items c. item_step parse_param (recover_list_sep PUNCT_RPAREN) items (advance c)) xs c')"
    proof (rule good_loop [OF w'])
      fix acc d assume st: "stepsto T c' d" and b: "cur_is_punct d PUNCT_COMMA"
      note wd = stepsto_wf [OF st]
      note n = punct_step [OF wd b]
      note a = advance_step [OF wd n(1)]
      show "good T d (Suc (px_pos d)) (\<lambda>j y. ?G (px_pos d) acc \<longrightarrow> ?G j y)
        (item_step parse_param (recover_list_sep PUNCT_RPAREN) acc (advance d))"
        by (rule good_advance [OF wd n(1)], rule good_mono [OF step [OF a(3)]])
           (use a(2) n(2) in \<open>auto intro: commas_snoc\<close>)
    qed simp
    then show "good T c' (px_pos c)
      (\<lambda>j y. (\<exists>x. xs = [] @ [x] \<and> gram T G_PARAM (px_pos c) (px_pos c') x) \<longrightarrow> args T (gram T G_PARAM) (px_pos c) j y)
      (ploop (\<lambda>c. cur_is_punct c PUNCT_COMMA)
        (\<lambda>items c. item_step parse_param (recover_list_sep PUNCT_RPAREN) items (advance c)) xs c')"
      by (rule good_mono) (use m commas_ne in \<open>auto simp: args_def\<close>)
  qed
qed

lemma fn_block_good:
  assumes w: "wf T c"
  shows "good T c (Suc (px_pos c)) (gram T G_BLOCK (px_pos c)) (fn_block c)"
  unfolding fn_block_def
  by (intro good_if good_expected [OF w] block_good [OF w]) (simp add: cur_tests)

lemma fn_parts_good:
  assumes w: "wf T e" and k: "k \<le> px_pos e"
    and Q: "\<And>params l ret m body j nd. args T (gram T G_PARAM) (px_pos e) l params \<Longrightarrow>
      tokv T l = V_PUNCT PUNCT_RPAREN \<Longrightarrow> tokv T (Suc l) = V_PUNCT PUNCT_ARROW \<Longrightarrow>
      gram T G_TYPE (Suc (Suc l)) m ret \<Longrightarrow> gram T G_BLOCK m j body \<Longrightarrow>
      gnode T s j (AST_FN_DECL x params ret body is_pub) nd \<Longrightarrow> R j nd"
  shows "good T e (Suc k) (\<lambda>j b. \<forall>nd. gnode T s j b nd \<longrightarrow> R j nd)
    (pbind parse_params (\<lambda>params.
       pseq (expect_punct PUNCT_RPAREN)
      (pseq (expect_punct PUNCT_ARROW)
      (pbind (parse_type parse_expr) (\<lambda>ret.
       pbind fn_block (\<lambda>body. p_return (AST_FN_DECL x params ret body is_pub)))))) e)"
proof (rule good_bindI, rule params_good [OF w], rule good_punct, assumption, rule good_punct, assumption,
    rule good_bindI, rule type_good, assumption, rule good_bindI, rule fn_block_good, assumption, rule good_return, assumption)
  fix params c1 ret c2 body c3
  assume m: "px_pos e \<le> px_pos c1" "Suc (px_pos (advance (advance c1))) \<le> px_pos c2" "Suc (px_pos c2) \<le> px_pos c3"
    and p: "px_pos (advance c1) = Suc (px_pos c1)" "px_pos (advance (advance c1)) = Suc (px_pos (advance c1))"
  show "Suc k \<le> px_pos c3" using m p k by simp
  assume "tokv T (px_pos c1) = V_PUNCT PUNCT_RPAREN" "tokv T (px_pos (advance c1)) = V_PUNCT PUNCT_ARROW"
  then show "gram T G_BLOCK (px_pos c2) (px_pos c3) body \<longrightarrow>
      gram T G_TYPE (px_pos (advance (advance c1))) (px_pos c2) ret \<longrightarrow>
      args T (gram T G_PARAM) (px_pos e) (px_pos c1) params \<longrightarrow>
      (\<forall>nd. gnode T s (px_pos c3) (AST_FN_DECL x params ret body is_pub) nd \<longrightarrow> R (px_pos c3) nd)"
    using p by (auto intro: Q)
qed

lemma fn_after:
  assumes w: "wf T c" and k: "cur_is_kw c KW_FN"
  shows "after_first T c (gdecl T is_pub) (parse_fn_decl is_pub c)"
  unfolding parse_fn_decl_def Let_def
proof (rule name_after [OF w k], rule good_punct, assumption, rule good_bindI, rule scoped_good, assumption, rule fn_parts_good)
  fix d
  let ?i = "px_pos c" and ?x = "cur_ident (advance c)" and ?e = "scope_push (advance d)"
  assume p: "px_pos d = Suc (Suc ?i)" "px_pos (advance d) = Suc (px_pos d)" and w': "wf T (advance d)"
    and t: "tokv T ?i = V_KEYWORD KW_FN" "tokv T (Suc ?i) = V_IDENT ?x" "tokv T (px_pos d) = V_PUNCT PUNCT_LPAREN"
  show "wf T ?e" using w' by simp
  show "?i \<le> px_pos ?e" using p by simp
  show "gdecl T is_pub ?i j nd"
    if "args T (gram T G_PARAM) (px_pos ?e) l params" "tokv T l = V_PUNCT PUNCT_RPAREN"
      "tokv T (Suc l) = V_PUNCT PUNCT_ARROW" "gram T G_TYPE (Suc (Suc l)) m ret" "gram T G_BLOCK m j body"
      "gnode T ?i j (AST_FN_DECL ?x params ret body is_pub) nd" for params l ret m body j nd
    using that t p by (auto simp: gdecl_def intro!: g_fn_decl)
  fix b c' assume w'': "wf T c'" and m: "Suc ?i \<le> px_pos c'"
  show "good T c' (Suc ?i) (\<lambda>j y. (\<forall>nd. gnode T ?i (px_pos c') b nd \<longrightarrow> gdecl T is_pub ?i (px_pos c') nd) \<longrightarrow>
      gdecl T is_pub ?i j y) (node_new ?i b c')"
    by (rule good_node [OF w'']) (use m in auto)
qed

section \<open>Top-level declarations\<close>

lemma top_level_at:
  assumes w: "wf T c"
  shows "cur_is_kw c KW_STRUCT \<Longrightarrow> good T (advance c) (Suc (px_pos c)) (gdecl T is_pub (px_pos c)) (parse_struct_decl is_pub c)"
    and "cur_is_kw c KW_ENUM \<Longrightarrow> good T (advance c) (Suc (px_pos c)) (gdecl T is_pub (px_pos c)) (parse_enum_decl is_pub c)"
    and "cur_is_kw c KW_FN \<Longrightarrow> good T (advance c) (Suc (px_pos c)) (gdecl T is_pub (px_pos c)) (parse_fn_decl is_pub c)"
    and "cur_is_kw c KW_VAR \<Longrightarrow> good T (advance c) (Suc (px_pos c)) (gdecl T is_pub (px_pos c)) (parse_global_var is_pub False c)"
    and "cur_is_kw c KW_CONST \<Longrightarrow> good T (advance c) (Suc (px_pos c)) (gdecl T is_pub (px_pos c)) (parse_global_var is_pub True c)"
  using struct_after [OF w] enum_after [OF w] fn_after [OF w] global_after [OF w, of False] global_after [OF w, of True]
  by (simp_all add: after_first_def)

text \<open>What follows the optional \<open>pub\<close>.\<close>

definition decl_body :: "bool \<Rightarrow> node_parser" where
  "decl_body is_pub c =
     (if cur_is_kw c KW_STRUCT then parse_struct_decl is_pub c
      else if cur_is_kw c KW_ENUM then parse_enum_decl is_pub c
      else if cur_is_kw c KW_FN then parse_fn_decl is_pub c
      else if cur_is_kw c KW_VAR then parse_global_var is_pub False c
      else if cur_is_kw c KW_CONST then parse_global_var is_pub True c
      else p_null (err_expected c ''declaration''))"

lemma decl_body_after:
  assumes w: "wf T c" and k: "\<exists>k \<in> set [KW_STRUCT, KW_ENUM, KW_FN, KW_VAR, KW_CONST]. cur c = V_KEYWORD k"
  shows "after_first T c (gdecl T is_pub) (decl_body is_pub c)"
  unfolding after_first_def decl_body_def
  by (intro good_if top_level_at [OF w]) (use k in \<open>auto simp: cur_tests\<close>)

lemma decl_body_good:
  assumes w: "wf T c"
  shows "good T c (Suc (px_pos c)) (gdecl T is_pub (px_pos c)) (decl_body is_pub c)"
proof (cases "\<exists>k \<in> set [KW_STRUCT, KW_ENUM, KW_FN, KW_VAR, KW_CONST]. cur c = V_KEYWORD k")
  case True
  then have "cur c \<noteq> V_EOF" by auto
  then show ?thesis by (rule after_first_good [OF w _ decl_body_after [OF w True]])
next
  case False
  then show ?thesis using good_expected [OF w] by (simp add: decl_body_def cur_tests)
qed

lemma top_level_item:
  assumes w: "wf T c" and s: "tok_starts_top_level c"
  shows "item_ok T c parse_top_level_decl
    (\<lambda>v. v = V_KEYWORD KW_MODULE \<or> v = V_KEYWORD KW_IMPORT \<or> starts_top_level v) (gram T G_DECL)"
proof -
  have ne: "cur c \<noteq> V_EOF" using s by (auto simp: tok_starts_top_level_def starts_top_level_def)
  note a = advance_step [OF w ne]
  have "after_first T c (gram T G_DECL) (parse_top_level_decl c)"
  proof (cases "cur_is_kw c KW_PUB")
    case True
    note k = kw_step [OF w True]
    have "parse_top_level_decl c = decl_body True (advance c)"
      using True by (simp add: parse_top_level_decl_def decl_body_def Let_def)
    moreover have "good T (advance c) (Suc (px_pos c)) (gram T G_DECL (px_pos c)) (decl_body True (advance c))"
      by (rule good_mono [OF decl_body_good [OF a(3)]]) (use a(2) k(2) in \<open>auto simp: gdecl_def opt_pub_def\<close>)
    ultimately show ?thesis by (simp add: after_first_def)
  next
    case False
    then have eq: "parse_top_level_decl c = decl_body False c"
      by (simp add: parse_top_level_decl_def decl_body_def Let_def)
    have "\<exists>k \<in> set [KW_STRUCT, KW_ENUM, KW_FN, KW_VAR, KW_CONST]. cur c = V_KEYWORD k"
      using s False by (cases "cur c") (auto simp: tok_starts_top_level_def starts_top_level_def cur_tests)
    from decl_body_after [OF w this, of False] show ?thesis
      unfolding eq by (rule after_first_mono) (auto simp: gdecl_def opt_pub_def)
  qed
  then show ?thesis by (simp add: item_ok_def after_first_good [OF w ne] after_first_progress)
qed

end
