(* ===== verification/ParseProgram.thy ===== *)
theory ParseProgram
  imports ParseDeclSound
begin

text \<open>
  The loops of \<open>parse_program\<close>: the module declaration, the imports, the declarations. Every round
  consumes a token, so the parser returns on each token stream that ends in the end of file, with a
  program node, balanced scopes, and a tree in the grammar when there is no record.
\<close>

section \<open>The loops of the program\<close>

lemma skip_dotted_ok:
  assumes "wf T c"
  shows "\<exists>c'. skip_dotted c = Some c' \<and> stepsto T c c' \<and> px_records c' = px_records c"
  using assms
proof (induction "left T c" arbitrary: c rule: less_induct)
  case less
  note w = less.prems
  show ?case
  proof (cases "cur_is_punct c PUNCT_DOT")
    case False
    with w show ?thesis by (subst skip_dotted.simps) simp
  next
    case True
    note n = punct_step [OF w True]
    note a = advance_step [OF w n(1)]
    show ?thesis
    proof (cases "cur_is_ident (advance c)")
      case False
      with True a show ?thesis by (subst skip_dotted.simps) (auto simp: Let_def)
    next
      case id: True
      note i = ident_step [OF a(3) id]
      note b = advance_step [OF a(3) i(1)]
      have "px_pos c < length (snd T)" using w by (simp add: wf_def)
      then have "left T (advance (advance c)) < left T c" using b(2) a(2) by (simp add: left_def)
      from less.hyps [OF this b(3)] obtain c' where "skip_dotted (advance (advance c)) = Some c'"
        "stepsto T (advance (advance c)) c'" "px_records c' = px_records (advance (advance c))" by blast
      with True id a b stepsto_trans [OF stepsto_trans [OF a(1) b(1)]] show ?thesis
        by (subst skip_dotted.simps) (simp add: Let_def)
    qed
  qed
qed

text \<open>A step of a loop that only reports.\<close>

definition reported :: "tape \<Rightarrow> parse_ctx \<Rightarrow> parse_ctx option \<Rightarrow> bool" where
  "reported T c v \<longleftrightarrow>
     (\<exists>c'. v = Some c' \<and> stepsto T c c' \<and> px_records c' \<noteq> px_records c \<and> px_pos c < px_pos c')"

lemma reported_good: "reported T c v \<Longrightarrow> good T c (Suc (px_pos c)) Q (Option.bind v (p_return x))"
  by (auto simp: reported_def good_reported)

lemma module_not_first_ok:
  assumes w: "wf T c" and k: "cur_is_kw c KW_MODULE"
  shows "reported T c (report_module_not_first c)"
proof -
  note n = kw_step [OF w k]
  note a = advance_step [OF w n(1)]
  obtain c2 where c2: "(if cur_is_ident (advance c) then skip_dotted (advance (advance c)) else Some (advance c)) = Some c2"
    and st: "stepsto T (advance c) c2" and r: "px_records c2 = px_records (advance c)"
  proof (cases "cur_is_ident (advance c)")
    case True
    note i = ident_step [OF a(3) True]
    note b = advance_step [OF a(3) i(1)]
    from skip_dotted_ok [OF b(3)] True b stepsto_trans [OF b(1)] show thesis by (auto intro: that)
  next
    case False
    with a(3) show thesis by (auto intro: that)
  qed
  let ?d = "skip_semi c2"
  let ?e = "report_syntax ?d ''AIC-S0103'' ''module declaration must be the first element'' (span_from ?d (px_pos c) (px_pos ?d))"
  have d: "stepsto T c2 ?d" "px_records ?d = px_records c2" using skip_semi_step [OF stepsto_wf [OF st]] by simp_all
  have sd: "stepsto T (advance c) ?d" by (rule stepsto_trans [OF st d(1)])
  have p: "px_pos c < px_pos ?d" using stepsto_pos [OF sd] a(2) by simp
  have "syn_span T (span_from ?d (px_pos c) (px_pos ?d))"
    by (rule span_from_ok [OF stepsto_wf [OF sd]]) (use p in simp)
  note e = report_step [OF stepsto_wf [OF sd] _ this]
  have c: "''AIC-S0103'' \<in> set syn_codes" by (simp add: syn_codes_def)
  have "report_module_not_first c = Some ?e" by (simp add: report_module_not_first_def Let_def c2)
  moreover have "stepsto T c ?e" by (rule stepsto_trans [OF stepsto_trans [OF a(1) sd] e(1) [OF c]])
  moreover have "px_records ?e \<noteq> px_records c" using e(2) [OF c] a(4) r d(2) by simp
  moreover have "px_pos c < px_pos ?e" using e(3) [OF c] p by simp
  ultimately show ?thesis unfolding reported_def by blast
qed

lemma import_after_ok:
  assumes w: "wf T c" and k: "cur_is_kw c KW_IMPORT"
  shows "reported T c (report_import_after_decls c)"
proof -
  let ?d = "err_unexpected c"
  have "syn_span T (tok_sp (px_tokens c) (px_pos c))"
    unfolding syn_span_def using w
    by (intro disjI1 exI [of _ "px_pos c"] exI [of _ 0]) (simp add: toks_span_def wf_def)
  then have d: "stepsto T c ?d" "px_records ?d \<noteq> px_records c" "px_pos ?d = px_pos c"
    unfolding err_unexpected_def by (intro report_step [OF w]; simp add: syn_codes_def)+
  have r: "recovers T (\<lambda>c. map_option skip_semi (skip_until (\<lambda>c. cur_is_punct c PUNCT_SEMI) c)) (\<lambda>_. False)"
    by (rule skip_semi_recovers) (simp_all add: cur_tests)
  have cur: "cur ?d = V_KEYWORD KW_IMPORT"
    using cur_tokv [OF stepsto_wf [OF d(1)]] kw_step(2) [OF w k] d(3) by simp
  obtain c' where "map_option skip_semi (skip_until (\<lambda>c. cur_is_punct c PUNCT_SEMI) ?d) = Some c'"
    and st: "stepsto T ?d c'" and "px_records c' = px_records ?d" and "px_pos ?d < px_pos c'"
    by (rule recovered [OF r stepsto_wf [OF d(1)]]) (use cur in auto)
  with d stepsto_trans [OF d(1) st] show ?thesis by (auto simp: reported_def report_import_after_decls_def)
qed

lemma unexpected_run_ok:
  assumes w: "wf T c" and ne: "cur c \<noteq> V_EOF"
    and b: "\<not> tok_starts_top_level c" "\<not> cur_is_kw c KW_MODULE" "\<not> cur_is_kw c KW_IMPORT"
  shows "reported T c (report_unexpected_run c)"
proof -
  obtain d where s: "skip_until (\<lambda>c. tok_starts_top_level c \<or> cur_is_kw c KW_MODULE \<or> cur_is_kw c KW_IMPORT) c = Some d"
    and st: "stepsto T c d" and r: "px_records d = px_records c" and p: "px_pos c < px_pos d"
    by (rule skip_ok [OF w, of "\<lambda>c. tok_starts_top_level c \<or> cur_is_kw c KW_MODULE \<or> cur_is_kw c KW_IMPORT"])
       (use ne b in \<open>auto simp: eof_iff\<close>)
  have "syn_span T (span_from d (px_pos c) (px_pos d))"
    by (rule span_from_ok [OF stepsto_wf [OF st]]) (use p in simp)
  note e = report_step [OF stepsto_wf [OF st] _ this]
  have c: "''AIC-S0102'' \<in> set syn_codes" by (simp add: syn_codes_def)
  show ?thesis
    unfolding reported_def
    using s e [OF c] stepsto_trans [OF st e(1) [OF c]] r p by (auto simp: report_unexpected_run_def)
qed

lemma decl_step_good:
  assumes w: "wf T c" and ne: "\<not> cur_is_eof c"
  shows "good T c (Suc (px_pos c)) (\<lambda>j xs. chain (gram T G_DECL) i (px_pos c) acc \<longrightarrow> chain (gram T G_DECL) i j xs)
    (decl_step acc c)"
proof -
  have n: "cur c \<noteq> V_EOF" using ne by (simp add: eof_iff)
  show ?thesis
    unfolding decl_step_def
    by (intro good_if reported_good module_not_first_ok import_after_ok unexpected_run_ok
        item_step_good [OF w n top_level_item statement_recovers(4)] w n) simp_all
qed

lemma module_part_good:
  assumes w: "wf T c"
  shows "good T c (px_pos c) (gopt (gram T G_MODULE) (px_pos c)) (module_part c)"
  unfolding module_part_def
proof (intro good_if, goal_cases)
  case 1
  note n = kw_step [OF w 1]
  have "after_first T c (gram T G_MODULE) (parse_module_decl c)"
    unfolding parse_module_decl_def by (rule qname_decl_after [OF w n(1)]) (use n(2) in \<open>auto intro: g_module\<close>)
  from after_first_good [OF w n(1) this] show ?case
  proof (rule goodE)
    fix c' assume "parse_module_decl c = Some (None, c')" "stepsto T c c'" "px_records c' \<noteq> px_records c"
    then show ?thesis by (simp add: good_reported stepsto_pos)
  next
    fix x c' assume "parse_module_decl c = Some (Some x, c')" "stepsto T c c'" "Suc (px_pos c) \<le> px_pos c'"
      "px_records c' = px_records c \<Longrightarrow> gram T G_MODULE (px_pos c) (px_pos c') x"
    then show ?thesis
      by (intro goodI [of _ "Some (Some x)" c'] outcome_some) (simp_all add: p_return_def)
  qed
next
  case 2
  show ?case by (rule good_return [OF w]) simp_all
qed

lemma imports_good:
  assumes w: "wf T c"
  shows "good T c (px_pos c) (chain (gram T G_IMPORT) (px_pos c))
    (ploop (\<lambda>c. cur_is_kw c KW_IMPORT) (item_step parse_import recover_top_level) [] c)"
proof -
  have "good T c (px_pos c)
      (\<lambda>j xs. (chain (gram T G_IMPORT) (px_pos c) (px_pos c) [] \<longrightarrow> chain (gram T G_IMPORT) (px_pos c) j xs) \<and> True)
      (ploop (\<lambda>c. cur_is_kw c KW_IMPORT) (item_step parse_import recover_top_level) [] c)"
  proof (rule good_loop [OF w])
    fix acc d assume st: "stepsto T c d" and k: "cur_is_kw d KW_IMPORT"
    note n = kw_step [OF stepsto_wf [OF st] k]
    show "good T d (Suc (px_pos d))
        (\<lambda>j xs. chain (gram T G_IMPORT) (px_pos c) (px_pos d) acc \<longrightarrow> chain (gram T G_IMPORT) (px_pos c) j xs)
        (item_step parse_import recover_top_level acc d)"
      by (rule item_step_good [OF stepsto_wf [OF st] n(1) import_item [OF stepsto_wf [OF st] k] statement_recovers(4)])
  qed simp
  then show ?thesis by (rule good_mono) auto
qed

lemma decls_good:
  assumes w: "wf T c"
  shows "good T c (px_pos c) (\<lambda>j xs. chain (gram T G_DECL) (px_pos c) j xs \<and> tokv T j = V_EOF)
    (ploop (\<lambda>c. \<not> cur_is_eof c) decl_step [] c)"
proof -
  have "good T c (px_pos c)
      (\<lambda>j xs. (chain (gram T G_DECL) (px_pos c) (px_pos c) [] \<longrightarrow> chain (gram T G_DECL) (px_pos c) j xs) \<and> tokv T j = V_EOF)
      (ploop (\<lambda>c. \<not> cur_is_eof c) decl_step [] c)"
  proof (rule good_loop [OF w])
    fix acc d assume "stepsto T c d" "\<not> cur_is_eof d"
    then show "good T d (Suc (px_pos d))
        (\<lambda>j xs. chain (gram T G_DECL) (px_pos c) (px_pos d) acc \<longrightarrow> chain (gram T G_DECL) (px_pos c) j xs) (decl_step acc d)"
      by (intro decl_step_good) (auto intro: stepsto_wf)
  qed (auto simp: eof_iff dest: cur_tokv [OF stepsto_wf])
  then show ?thesis by (rule good_mono) auto
qed

lemma parse_all_good:
  assumes w: "wf T c" and z: "px_pos c = 0"
  shows "good T c 0 (\<lambda>_. gprogram T) (parse_all c)"
  unfolding parse_all_def
proof (rule good_bindI, rule module_part_good [OF w], rule good_bindI, rule imports_good, assumption,
    rule good_bindI, rule decls_good, assumption)
  fix m c1 ims c2 decls c3
  assume w3: "wf T c3"
  let ?n = "AstNode (px_nodes c3) (span_from c3 0 (length (px_tokens c3))) (AST_PROGRAM m ims decls)"
  let ?c = "c3\<lparr>px_nodes := Suc (px_nodes c3)\<rparr>"
  have w': "wf T ?c" "stepsto T c3 ?c" using w3 by (simp_all add: wf_def stepsto_def)
  have "gnode T 0 (length (snd T)) (AST_PROGRAM m ims decls) ?n"
    using w3 by (simp add: gnode_def span_from_def wf_def)
  then have "gopt (gram T G_MODULE) 0 (px_pos c1) m \<Longrightarrow> chain (gram T G_IMPORT) (px_pos c1) (px_pos c2) ims \<Longrightarrow>
      chain (gram T G_DECL) (px_pos c2) (px_pos c3) decls \<Longrightarrow> tokv T (px_pos c3) = V_EOF \<Longrightarrow> gprogram T ?n"
    using w3 unfolding gprogram_def wf_def by blast
  then show "good T c3 0
      (\<lambda>j y. chain (gram T G_DECL) (px_pos c2) (px_pos c3) decls \<and> tokv T (px_pos c3) = V_EOF \<longrightarrow>
         chain (gram T G_IMPORT) (px_pos c1) (px_pos c2) ims \<longrightarrow> gopt (gram T G_MODULE) (px_pos c) (px_pos c1) m \<longrightarrow>
         gprogram T y) (p_return ?n ?c)"
    using z by (intro good_after [OF w'(2)] good_return [OF w'(1)]) auto
qed

section \<open>The program is never \<open>NULL\<close>\<close>

definition never_null :: "'a parser \<Rightarrow> bool" where
  "never_null p \<longleftrightarrow> (\<forall>c c'. p c \<noteq> Some (None, c'))"

lemma never_null_bind: "never_null p \<Longrightarrow> (\<And>x. never_null (f x)) \<Longrightarrow> never_null (pbind p f)"
  by (auto simp: never_null_def pbind_def bind_eq_Some_conv split: option.splits)

lemma never_null_return: "never_null (p_return x)"
  by (simp add: never_null_def p_return_def)

lemma never_null_loop:
  assumes "\<And>x. never_null (body x)"
  shows "never_null (ploop b body acc)"
proof -
  have "fst r \<noteq> None" if run: "ploop b body acc c = Some r" for c r
  proof (rule ploop.raw_induct [where P = "\<lambda>b' q x c r. q = body \<longrightarrow> fst r \<noteq> None"
        and b = b and body = body and acc = acc and c = c and y = r, rule_format], goal_cases)
    case (1 L b' q x c r)
    note IH = 1(1) and eq = 1(2) and q = 1(3)
    show ?case
    proof (cases "b' c")
      case False
      with eq show ?thesis by (auto simp: p_return_def)
    next
      case True
      with eq obtain o' c' where b: "q x c = Some (o', c')"
        and r: "(case o' of None \<Rightarrow> p_null c' | Some y \<Rightarrow> L b' q y c') = Some r"
        by (auto simp: bind_eq_Some_conv)
      from b q assms [of x] obtain y where "o' = Some y" by (cases o') (auto simp: never_null_def)
      with r IH q show ?thesis by simp
    qed
  qed (use run in simp_all)
  then show ?thesis unfolding never_null_def by fastforce
qed

lemma never_null_step: "never_null (item_step p recover acc)"
  by (auto simp: never_null_def item_step_def p_return_def bind_eq_Some_conv split: option.splits)

lemma parse_all_never_null: "never_null parse_all"
  unfolding parse_all_def
proof (intro never_null_bind never_null_loop never_null_step)
  show "never_null module_part"
    by (auto simp: never_null_def module_part_def p_return_def bind_eq_Some_conv split: if_splits)
  show "never_null (decl_step acc)" for acc
    using never_null_step [of parse_top_level_decl recover_top_level acc]
    unfolding never_null_def decl_step_def p_return_def
    by (auto simp: bind_eq_Some_conv split: if_splits)
qed (simp add: never_null_def p_return_def)

section \<open>A token stream that ends in the end of file\<close>

definition stream_file :: "lex_token list \<Rightarrow> string" where
  "stream_file toks = (case tok_span (toks ! 0) of Some sp \<Rightarrow> span_file sp | None \<Rightarrow> ''input.ai'')"

lemma parse_ctx_init_wf:
  assumes "toks \<noteq> []" and "tok_val (last toks) = V_EOF"
  shows "wf (stream_file toks, toks) (parse_ctx_init toks)"
    and "px_pos (parse_ctx_init toks) = 0" and "px_records (parse_ctx_init toks) = []"
    and "px_scopes (parse_ctx_init toks) = []"
  using assms
  by (simp_all add: parse_ctx_init_def wf_def prescan_type_names_def stream_file_def recs_ok_def)

lemma parse_all_run:
  assumes "toks \<noteq> []" and "tok_val (last toks) = V_EOF"
  obtains p c where "parse_all (parse_ctx_init toks) = Some (Some p, c)" and "px_scopes c = []"
    and "recs_ok (stream_file toks, toks) (px_records c)"
    and "px_records c = [] \<Longrightarrow> gprogram (stream_file toks, toks) p"
proof -
  note i = parse_ctx_init_wf [OF assms]
  show thesis
    using parse_all_good [OF i(1,2)]
  proof (rule goodE)
    fix c' assume "parse_all (parse_ctx_init toks) = Some (None, c')"
    with parse_all_never_null show thesis by (auto simp: never_null_def)
  next
    fix p c assume "parse_all (parse_ctx_init toks) = Some (Some p, c)"
      and "stepsto (stream_file toks, toks) (parse_ctx_init toks) c"
      and "px_records c = px_records (parse_ctx_init toks) \<Longrightarrow> gprogram (stream_file toks, toks) p"
    then show thesis using i by (intro that [of p c]) (simp_all add: stepsto_def wf_def)
  qed
qed

end
