(* ===== verification/Names.thy ===== *)
theory Names
  imports Ast
begin

text \<open>
  The result of name resolution as later packages see it (\<open>bootstrap/src/name/name.h\<close>): symbols,
  modules and the reference table. A pointer to a symbol is its index in the ownership list of the
  result, a pointer to an AST node is the identity of the node.
\<close>

datatype name_symbol_kind =
    NAME_SYM_FN | NAME_SYM_STRUCT | NAME_SYM_ENUM | NAME_SYM_GLOBAL_VAR | NAME_SYM_GLOBAL_CONST
  | NAME_SYM_PARAM | NAME_SYM_LOCAL_VAR | NAME_SYM_LOCAL_CONST | NAME_SYM_FIELD
  | NAME_SYM_ENUM_MEMBER | NAME_SYM_MODULE_IMPORT

type_synonym sym_ref = nat

record name_symbol =
  sym_kind :: name_symbol_kind
  sym_name :: string
  sym_fqn :: string
  sym_is_pub :: bool
  sym_decl :: "ast_node option"
  sym_span :: "diag_span option"
  sym_module :: nat
  sym_scope_depth :: int
  sym_owner :: "sym_ref option"
  sym_members :: "sym_ref list"

record name_module =
  mod_parts :: "string list"
  mod_fqn :: string
  mod_path :: "string option"
  mod_program :: "ast_node option"
  mod_src :: "load_source option"
  mod_is_entry :: bool
  mod_is_runtime :: bool
  mod_scope :: "sym_ref list"
  mod_imports :: "nat list"
  mod_refs :: "(nat \<times> sym_ref) list"

record name_result =
  nr_modules :: "name_module list"
  nr_project_root :: string
  nr_entry_file :: string
  nr_syms :: "name_symbol list"

abbreviation sym_at :: "name_result \<Rightarrow> sym_ref \<Rightarrow> name_symbol" where
  "sym_at nr i \<equiv> nr_syms nr ! i"

text \<open>First matches in the tables of a module.\<close>

definition name_symbol_for_node :: "name_module \<Rightarrow> ast_node \<Rightarrow> sym_ref option" where
  "name_symbol_for_node m node = map_option snd (find (\<lambda>r. fst r = nid node) (mod_refs m))"

definition name_module_lookup :: "name_result \<Rightarrow> name_module \<Rightarrow> string \<Rightarrow> sym_ref option" where
  "name_module_lookup nr m name = find (\<lambda>s. sym_name (sym_at nr s) = name) (rev (mod_scope m))"

definition name_module_by_fqn :: "name_result \<Rightarrow> string \<Rightarrow> name_module option" where
  "name_module_by_fqn nr fqn = find (\<lambda>m. mod_fqn m = fqn) (nr_modules nr)"

text \<open>The module-scope symbol of a kind declared by a node, as \<open>struct_symbol_for_decl\<close> and
  \<open>type_symbol_for_decl\<close> look it up.\<close>

definition type_symbol_for_decl ::
  "name_result \<Rightarrow> name_module \<Rightarrow> ast_node \<Rightarrow> name_symbol_kind \<Rightarrow> sym_ref option" where
  "type_symbol_for_decl nr m decl kind =
     find (\<lambda>s. sym_kind (sym_at nr s) = kind \<and> map_option nid (sym_decl (sym_at nr s)) = Some (nid decl))
       (mod_scope m)"

end
