(* ===== verification/Types.thy ===== *)
theory Types
  imports Names DiagEmit
begin

text \<open>
  The type tables, type identity and rendering, and the completeness pass of
  \<open>bootstrap/src/types/type_identity.c\<close> and \<open>type_tables.c\<close>. The lists \<open>closed\<close>, \<open>used\<close> and
  \<open>reported\<close> of the pass hold symbol references.
\<close>

section \<open>Tables\<close>

record type_prim_info =
  tp_kind :: ast_prim
  tp_name :: string
  tp_is_integer :: bool
  tp_is_signed :: bool
  tp_is_pointer_sized :: bool
  tp_width_bits :: nat
  tp_size_bytes :: int
  tp_align_bytes :: int

definition prim_row :: "ast_prim \<Rightarrow> string \<Rightarrow> bool \<Rightarrow> bool \<Rightarrow> bool \<Rightarrow> nat \<Rightarrow> int \<Rightarrow> int \<Rightarrow> type_prim_info" where
  "prim_row k n i s p w sz al =
     \<lparr>tp_kind = k, tp_name = n, tp_is_integer = i, tp_is_signed = s, tp_is_pointer_sized = p,
      tp_width_bits = w, tp_size_bytes = sz, tp_align_bytes = al\<rparr>"

definition kPrims :: "type_prim_info list" where
  "kPrims =
    [prim_row AST_PRIM_VOID ''void'' False False False 0 0 0,
     prim_row AST_PRIM_BOOL ''bool'' False False False 0 1 1,
     prim_row AST_PRIM_STR ''str'' False False False 0 16 8,
     prim_row AST_PRIM_I8 ''i8'' True True False 8 1 1,
     prim_row AST_PRIM_I16 ''i16'' True True False 16 2 2,
     prim_row AST_PRIM_I32 ''i32'' True True False 32 4 4,
     prim_row AST_PRIM_I64 ''i64'' True True False 64 8 8,
     prim_row AST_PRIM_U8 ''u8'' True False False 8 1 1,
     prim_row AST_PRIM_U16 ''u16'' True False False 16 2 2,
     prim_row AST_PRIM_U32 ''u32'' True False False 32 4 4,
     prim_row AST_PRIM_U64 ''u64'' True False False 64 8 8,
     prim_row AST_PRIM_ISIZE ''isize'' True True True 64 8 8,
     prim_row AST_PRIM_USIZE ''usize'' True False True 64 8 8]"

definition types_prim_info :: "ast_prim \<Rightarrow> type_prim_info option" where
  "types_prim_info kind = find (\<lambda>p. tp_kind p = kind) kPrims"

definition types_prim_by_name :: "string option \<Rightarrow> type_prim_info option" where
  "types_prim_by_name name =
     (case name of None \<Rightarrow> None | Some n \<Rightarrow> find (\<lambda>p. tp_name p = n) kPrims)"

datatype type_composite_kind =
    TY_COMPOSITE_ARRAY | TY_COMPOSITE_SLICE | TY_COMPOSITE_PTR | TY_COMPOSITE_STRUCT | TY_COMPOSITE_ENUM

definition kComposites :: "(type_composite_kind \<times> string \<times> string \<times> string) list" where
  "kComposites =
    [(TY_COMPOSITE_ARRAY, ''array'', ''T[N]'', ''N * sizeof(T) bytes, alignment alignof(T)''),
     (TY_COMPOSITE_SLICE, ''slice'', ''T[]'',
        ''16 bytes: pointer (offset 0), usize length (offset 8); alignment 8''),
     (TY_COMPOSITE_PTR, ''pointer'', ''T*'', ''8 bytes; alignment 8''),
     (TY_COMPOSITE_STRUCT, ''struct'', ''struct S { ... }'',
        ''Section 7.4 (declaration order, alignment, zero padding)''),
     (TY_COMPOSITE_ENUM, ''enum'', ''enum E: T { ... }'', ''same size/alignment as underlying type T'')]"

definition types_composite_info :: "type_composite_kind \<Rightarrow> (type_composite_kind \<times> string \<times> string \<times> string) option" where
  "types_composite_info kind = find (\<lambda>e. fst e = kind) kComposites"

section \<open>Type descriptors\<close>

datatype ctype =
    TYPE_PRIM ast_prim
  | TYPE_ARRAY ctype int
  | TYPE_SLICE ctype
  | TYPE_PTR ctype
  | TYPE_STRUCT sym_ref
  | TYPE_ENUM sym_ref

fun type_same :: "ctype \<Rightarrow> ctype \<Rightarrow> bool" where
  "type_same (TYPE_PRIM p) (TYPE_PRIM q) = (p = q)"
| "type_same (TYPE_ARRAY a m) (TYPE_ARRAY b n) = (m = n \<and> type_same a b)"
| "type_same (TYPE_SLICE a) (TYPE_SLICE b) = type_same a b"
| "type_same (TYPE_PTR a) (TYPE_PTR b) = type_same a b"
| "type_same (TYPE_STRUCT s) (TYPE_STRUCT t) = (s = t)"
| "type_same (TYPE_ENUM s) (TYPE_ENUM t) = (s = t)"
| "type_same _ _ = False"

text \<open>With its NULL cases.\<close>

definition type_identical :: "ctype option \<Rightarrow> ctype option \<Rightarrow> bool" where
  "type_identical a b =
     (case (a, b) of (None, None) \<Rightarrow> True | (Some x, Some y) \<Rightarrow> type_same x y | _ \<Rightarrow> False)"

fun prim_name :: "ast_prim \<Rightarrow> string" where
  "prim_name AST_PRIM_VOID = ''void''"
| "prim_name AST_PRIM_BOOL = ''bool''"
| "prim_name AST_PRIM_STR = ''str''"
| "prim_name AST_PRIM_I8 = ''i8''"
| "prim_name AST_PRIM_I16 = ''i16''"
| "prim_name AST_PRIM_I32 = ''i32''"
| "prim_name AST_PRIM_I64 = ''i64''"
| "prim_name AST_PRIM_U8 = ''u8''"
| "prim_name AST_PRIM_U16 = ''u16''"
| "prim_name AST_PRIM_U32 = ''u32''"
| "prim_name AST_PRIM_U64 = ''u64''"
| "prim_name AST_PRIM_ISIZE = ''isize''"
| "prim_name AST_PRIM_USIZE = ''usize''"

fun type_kind_text :: "ctype \<Rightarrow> string" where
  "type_kind_text (TYPE_PRIM _) = ''prim''"
| "type_kind_text (TYPE_ARRAY _ _) = ''array''"
| "type_kind_text (TYPE_SLICE _) = ''slice''"
| "type_kind_text (TYPE_PTR _) = ''ptr''"
| "type_kind_text (TYPE_STRUCT _) = ''struct''"
| "type_kind_text (TYPE_ENUM _) = ''enum''"

text \<open>A missing symbol or name would be rendered \<open>?\<close>; a symbol reference of the model always has
  both.\<close>

fun type_describe :: "name_result \<Rightarrow> ctype \<Rightarrow> string" where
  "type_describe nr (TYPE_PRIM p) = prim_name p"
| "type_describe nr (TYPE_ARRAY e n) = type_describe nr e @ ''['' @ int_text n @ '']''"
| "type_describe nr (TYPE_SLICE e) = type_describe nr e @ ''[]''"
| "type_describe nr (TYPE_PTR e) = type_describe nr e @ ''*''"
| "type_describe nr (TYPE_STRUCT s) = sym_name (sym_at nr s)"
| "type_describe nr (TYPE_ENUM s) = sym_name (sym_at nr s)"

section \<open>The completeness pass\<close>

record type_ctx =
  tc_records :: "diag_record list"
  tc_oom :: bool
  tc_closed :: "sym_ref list"
  tc_used :: "sym_ref list"
  tc_reported :: "sym_ref list"

definition set_add :: "sym_ref list \<Rightarrow> sym_ref \<Rightarrow> sym_ref list" where
  "set_add arr sy = (if sy \<in> set arr then arr else arr @ [sy])"

text \<open>\<open>None\<close> stands for the out-of-memory exit of the record builders.\<close>

definition new_type_record :: "string \<Rightarrow> string \<Rightarrow> diag_span option \<Rightarrow> diag_record option" where
  "new_type_record code message primary =
     setters
       [\<lambda>r. diag_record_set_code r (Some code), \<lambda>r. diag_record_set_message r (Some message),
        \<lambda>r. diag_record_set_primary_span r primary,
        \<lambda>r. diag_record_set_recovery r (Some ''authoritative'')]
       diag_record_new"

subsection \<open>The span of a declared name\<close>

text \<open>One round of the local \<open>skip_trivia\<close> of this file; \<open>None\<close> leaves its loop.\<close>

definition decl_trivia_step :: "string \<Rightarrow> nat \<Rightarrow> nat option" where
  "decl_trivia_step t pos =
     (if length t \<le> pos then None
      else if t ! pos = CHR '' '' \<or> t ! pos = CHR 0x09 \<or> t ! pos = CR \<or> t ! pos = LF then Some (pos + 1)
      else if t ! pos = CHR ''/'' \<and> pos + 1 < length t \<and> t ! (pos + 1) = CHR ''/'' then
        Some (scan_while (\<lambda>c. c \<noteq> LF) t pos)
      else if t ! pos = CHR ''/'' \<and> pos + 1 < length t \<and> t ! (pos + 1) = CHR ''*'' then
        (let q = block_end t (pos + 2) in if q + 1 < length t then Some (q + 2) else Some (length t))
      else None)"

lemma decl_trivia_step_gt: "decl_trivia_step t pos = Some p \<Longrightarrow> pos < length t \<and> pos < p"
  using scan_while_gt [of pos t "\<lambda>c. c \<noteq> LF"] block_end_ge [of "pos + 2" t]
  by (auto simp: decl_trivia_step_def Let_def split: if_split_asm)

function decl_skip_trivia :: "string \<Rightarrow> nat \<Rightarrow> nat" where
  "decl_skip_trivia t pos =
     (case decl_trivia_step t pos of None \<Rightarrow> pos | Some p \<Rightarrow> decl_skip_trivia t p)"
  by pat_completeness auto
termination
  by (relation "measure (\<lambda>(t, pos). length t - pos)") (auto dest: decl_trivia_step_gt)

declare decl_skip_trivia.simps [simp del]

definition ident_end_at :: "string \<Rightarrow> nat \<Rightarrow> nat option" where
  "ident_end_at t pos =
     (if length t \<le> pos then None
      else if \<not> is_ident_start (t ! pos) then None
      else Some (scan_while is_ident_cont t pos))"

definition struct_name_span :: "load_source \<Rightarrow> ast_node \<Rightarrow> diag_span option" where
  "struct_name_span src decl =
     (let pos = nat (pos_offset (span_start (nspan decl))); t = src_text src in
      if length t < pos + 6 \<or> take 6 (drop pos t) \<noteq> ''struct'' then None
      else
        let p = decl_skip_trivia t (pos + 6) in
        (case ident_end_at t p of
           None \<Rightarrow> None
         | Some e \<Rightarrow>
             (case (diag_span_from_offset (src_file src) t (int p), diag_span_from_offset (src_file src) t (int e)) of
                (Some sp, Some ep) \<Rightarrow>
                  Some (diag_span_new_range (src_file src)
                    (pos_line (span_start sp)) (pos_col (span_start sp)) (pos_offset (span_start sp))
                    (pos_line (span_start ep)) (pos_col (span_start ep)) (pos_offset (span_start ep)))
              | _ \<Rightarrow> None)))"

subsection \<open>Value uses\<close>

text \<open>The scan only adds to \<open>used\<close>; \<open>oom\<close> cannot be raised in it when allocation succeeds.\<close>

definition mark_struct_use :: "name_result \<Rightarrow> sym_ref option \<Rightarrow> sym_ref list \<Rightarrow> sym_ref list" where
  "mark_struct_use nr sy used =
     (case sy of None \<Rightarrow> used
      | Some s \<Rightarrow> if sym_kind (sym_at nr s) = NAME_SYM_STRUCT then set_add used s else used)"

text \<open>The struct named at the end of a type's value positions: the type itself or the element of
  arrays and slices; pointers stop the walk.\<close>

function value_name :: "ast_node \<Rightarrow> ast_node option" where
  "value_name type =
     (case nbody type of
        AST_TYPE_NAMED _ \<Rightarrow> Some type
      | AST_TYPE_ARRAY base _ \<Rightarrow> value_name base
      | AST_TYPE_SLICE base \<Rightarrow> value_name base
      | _ \<Rightarrow> None)"
  by pat_completeness auto
termination
proof (relation "measure size")
  show "wf (measure size)" by simp
next
  fix type base len
  assume "nbody type = AST_TYPE_ARRAY base len"
  then show "(base, type) \<in> measure size" by (cases type) simp
next
  fix type base
  assume "nbody type = AST_TYPE_SLICE base"
  then show "(base, type) \<in> measure size" by (cases type) simp
qed

declare value_name.simps [simp del]

definition scan_type_value_use :: "name_result \<Rightarrow> name_module \<Rightarrow> ast_node \<Rightarrow> sym_ref list \<Rightarrow> sym_ref list" where
  "scan_type_value_use nr m type used =
     (case value_name type of None \<Rightarrow> used
      | Some t \<Rightarrow> mark_struct_use nr (name_symbol_for_node m t) used)"


lemma node_size: "nbody n = b \<Longrightarrow> size n = Suc (size b)"
  by (cases n) simp

lemma size_list_member: "x \<in> set xs \<Longrightarrow> size (nbody x) < size_list (\<lambda>x. Suc (size (nbody x))) xs"
  by (rule size_list_estimation [where f = "\<lambda>x. Suc (size (nbody x))" and x = x]) simp_all

function scan_expr_value_use :: "name_result \<Rightarrow> name_module \<Rightarrow> ast_node \<Rightarrow> sym_ref list \<Rightarrow> sym_ref list" where
  "scan_expr_value_use nr m expr used =
     (case nbody expr of
        AST_EXPR_STRUCT_INIT base inits \<Rightarrow>
          fold (\<lambda>fi u. case nbody fi of AST_FIELD_INIT _ v \<Rightarrow> scan_expr_value_use nr m v u | _ \<Rightarrow> u) inits
            (scan_expr_value_use nr m base (mark_struct_use nr (name_symbol_for_node m base) used))
      | AST_EXPR_ARRAY_LITERAL elems n \<Rightarrow>
          (let u = fold (\<lambda>e u. scan_expr_value_use nr m e u) elems used in
           case n of None \<Rightarrow> u | Some e \<Rightarrow> scan_expr_value_use nr m e u)
      | AST_EXPR_PAREN e \<Rightarrow> scan_expr_value_use nr m e used
      | AST_EXPR_UNARY _ e \<Rightarrow> scan_expr_value_use nr m e used
      | AST_EXPR_BINARY _ l r \<Rightarrow> scan_expr_value_use nr m r (scan_expr_value_use nr m l used)
      | AST_EXPR_ASSIGN _ l r \<Rightarrow> scan_expr_value_use nr m r (scan_expr_value_use nr m l used)
      | AST_EXPR_TERNARY c a b \<Rightarrow>
          scan_expr_value_use nr m b (scan_expr_value_use nr m a (scan_expr_value_use nr m c used))
      | AST_EXPR_INDEX b i \<Rightarrow> scan_expr_value_use nr m i (scan_expr_value_use nr m b used)
      | AST_EXPR_SLICE b lo hi \<Rightarrow>
          (let u = scan_expr_value_use nr m b used;
               u' = (case lo of None \<Rightarrow> u | Some e \<Rightarrow> scan_expr_value_use nr m e u)
           in case hi of None \<Rightarrow> u' | Some e \<Rightarrow> scan_expr_value_use nr m e u')
      | AST_EXPR_CALL callee args \<Rightarrow>
          fold (\<lambda>e u. scan_expr_value_use nr m e u) args (scan_expr_value_use nr m callee used)
      | AST_EXPR_MEMBER b _ \<Rightarrow> scan_expr_value_use nr m b used
      | AST_EXPR_ARROW b _ \<Rightarrow> scan_expr_value_use nr m b used
      | AST_EXPR_CAST ty e \<Rightarrow> scan_expr_value_use nr m e (scan_type_value_use nr m ty used)
      | AST_EXPR_WRAP ty e \<Rightarrow> scan_expr_value_use nr m e (scan_type_value_use nr m ty used)
      | AST_EXPR_SIZEOF_EXPR e \<Rightarrow> scan_expr_value_use nr m e used
      | AST_EXPR_LEN e \<Rightarrow> scan_expr_value_use nr m e used
      | AST_EXPR_PTR e \<Rightarrow> scan_expr_value_use nr m e used
      | _ \<Rightarrow> used)"
  by pat_completeness auto
termination
proof (relation "measure (\<lambda>(nr, m, e, u). size e)", goal_cases)
  case 1 show ?case by simp
qed (auto simp: node_size dest: size_list_member split: option.splits)


declare scan_expr_value_use.simps [simp del]

definition scan_opt_expr :: "name_result \<Rightarrow> name_module \<Rightarrow> ast_node option \<Rightarrow> sym_ref list \<Rightarrow> sym_ref list" where
  "scan_opt_expr nr m e used = (case e of None \<Rightarrow> used | Some x \<Rightarrow> scan_expr_value_use nr m x used)"

function scan_stmt_value_use :: "name_result \<Rightarrow> name_module \<Rightarrow> ast_node \<Rightarrow> sym_ref list \<Rightarrow> sym_ref list" where
  "scan_stmt_value_use nr m stmt used =
     (case nbody stmt of
        AST_BLOCK items \<Rightarrow> fold (\<lambda>s u. scan_stmt_value_use nr m s u) items used
      | AST_VAR_DECL _ ty e \<Rightarrow> scan_opt_expr nr m e (scan_type_value_use nr m ty used)
      | AST_CONST_DECL _ ty e \<Rightarrow> scan_expr_value_use nr m e (scan_type_value_use nr m ty used)
      | AST_IF c a b \<Rightarrow>
          (let u = scan_stmt_value_use nr m a (scan_expr_value_use nr m c used)
           in case b of None \<Rightarrow> u | Some e \<Rightarrow> scan_stmt_value_use nr m e u)
      | AST_WHILE c body \<Rightarrow> scan_stmt_value_use nr m body (scan_expr_value_use nr m c used)
      | AST_FOR ini c st body \<Rightarrow>
          scan_stmt_value_use nr m body
            (scan_opt_expr nr m st (scan_opt_expr nr m c
              (case ini of None \<Rightarrow> used | Some s \<Rightarrow> scan_stmt_value_use nr m s used)))
      | AST_SWITCH sel cases \<Rightarrow>
          fold (\<lambda>s u. scan_stmt_value_use nr m s u) cases (scan_expr_value_use nr m sel used)
      | AST_CASE_CLAUSE v body \<Rightarrow> scan_stmt_value_use nr m body (scan_expr_value_use nr m v used)
      | AST_DEFAULT_CLAUSE body \<Rightarrow> scan_stmt_value_use nr m body used
      | AST_RETURN v \<Rightarrow> scan_opt_expr nr m v used
      | AST_EXPR_STMT e \<Rightarrow> scan_expr_value_use nr m e used
      | _ \<Rightarrow> used)"
  by pat_completeness auto
termination
proof (relation "measure (\<lambda>(nr, m, s, u). size s)", goal_cases)
  case 1 show ?case by simp
qed (auto simp: node_size dest: size_list_member split: option.splits)

declare scan_stmt_value_use.simps [simp del]

definition param_type :: "ast_node \<Rightarrow> ast_node option" where
  "param_type p =
     (case nbody p of AST_PARAM _ ty \<Rightarrow> Some ty | AST_FIELD_DECL _ ty \<Rightarrow> Some ty | _ \<Rightarrow> None)"

definition scan_decl_value_uses :: "name_result \<Rightarrow> name_module \<Rightarrow> ast_node \<Rightarrow> sym_ref list \<Rightarrow> sym_ref list" where
  "scan_decl_value_uses nr m decl used =
     (case nbody decl of
        AST_GLOBAL_VAR_DECL _ ty e _ \<Rightarrow> scan_opt_expr nr m e (scan_type_value_use nr m ty used)
      | AST_GLOBAL_CONST_DECL _ ty e _ \<Rightarrow> scan_expr_value_use nr m e (scan_type_value_use nr m ty used)
      | AST_FN_DECL _ params ret body _ \<Rightarrow>
          scan_stmt_value_use nr m body
            (scan_type_value_use nr m ret
              (fold (\<lambda>p u. case param_type p of None \<Rightarrow> u | Some ty \<Rightarrow> scan_type_value_use nr m ty u)
                 params used))
      | _ \<Rightarrow> used)"

definition program_decls :: "ast_node option \<Rightarrow> ast_node list" where
  "program_decls program =
     (case program of None \<Rightarrow> []
      | Some p \<Rightarrow> (case nbody p of AST_PROGRAM _ _ decls \<Rightarrow> decls | _ \<Rightarrow> []))"

definition scan_module_value_uses :: "name_result \<Rightarrow> name_module \<Rightarrow> sym_ref list \<Rightarrow> sym_ref list" where
  "scan_module_value_uses nr m used =
     fold (scan_decl_value_uses nr m) (program_decls (mod_program m)) used"

subsection \<open>Fields of incomplete types\<close>

text \<open>A message written with \<open>snprintf\<close> into 256 bytes.\<close>

definition incomplete_msg :: "string \<Rightarrow> string" where
  "incomplete_msg name =
     take 255 (''use of incomplete struct type '' @ [CHR 0x27] @ name @ [CHR 0x27] @ '' as a value'')"

definition infinite_msg :: "string \<Rightarrow> string \<Rightarrow> string" where
  "infinite_msg name field =
     take 255 (''struct '' @ [CHR 0x27] @ name @ [CHR 0x27] @
       '' has infinite size due to recursive by-value field '' @ [CHR 0x27] @ field @ [CHR 0x27])"

text \<open>Push a record for a symbol and remember the symbol as reported.\<close>

definition report_sym :: "type_ctx \<Rightarrow> string \<Rightarrow> string \<Rightarrow> diag_span option \<Rightarrow> sym_ref \<Rightarrow> type_ctx" where
  "report_sym c code message span sy =
     (case new_type_record code message span of
        None \<Rightarrow> c\<lparr>tc_oom := True\<rparr>
      | Some r \<Rightarrow> c\<lparr>tc_records := tc_records c @ [r], tc_reported := set_add (tc_reported c) sy\<rparr>)"

definition walk_field_type ::
  "name_result \<Rightarrow> name_module \<Rightarrow> ast_node \<Rightarrow> sym_ref \<Rightarrow> type_ctx \<Rightarrow> bool \<times> type_ctx" where
  "walk_field_type nr m type self c =
     (if tc_oom c then (False, c)
      else
        case value_name type of
          None \<Rightarrow> (False, c)
        | Some t \<Rightarrow>
            (case name_symbol_for_node m t of
               None \<Rightarrow> (False, c)
             | Some sy \<Rightarrow>
                 if sym_kind (sym_at nr sy) \<noteq> NAME_SYM_STRUCT then (False, c)
                 else if sy = self then (True, c)
                 else if sy \<notin> set (tc_closed c) \<and> sy \<notin> set (tc_reported c) then
                   (let s = sym_at nr sy;
                        span = (case (sym_decl s, mod_src (nr_modules nr ! sym_module s)) of
                                  (Some d, Some src) \<Rightarrow> struct_name_span src d
                                | _ \<Rightarrow> None)
                    in (False, report_sym c ''AIC-T0302'' (incomplete_msg (sym_name s)) span sy))
                 else (False, c)))"

definition emit_struct_completeness ::
  "name_result \<Rightarrow> name_module \<Rightarrow> ast_node \<Rightarrow> sym_ref \<Rightarrow> string option \<Rightarrow> type_ctx \<Rightarrow> type_ctx" where
  "emit_struct_completeness nr m decl sy recursive_field c =
     (case recursive_field of
        None \<Rightarrow> c
      | Some field \<Rightarrow>
          if tc_oom c \<or> sy \<in> set (tc_reported c) then c
          else
            (let used = sy \<in> set (tc_used c); name = sym_name (sym_at nr sy);
                 span = (case mod_src m of None \<Rightarrow> None | Some src \<Rightarrow> struct_name_span src decl)
             in if used then report_sym c ''AIC-T0302'' (incomplete_msg name) span sy
                else report_sym c ''AIC-T0303'' (infinite_msg name field) span sy))"


subsection \<open>The entry point\<close>

definition field_parts :: "ast_node \<Rightarrow> (string \<times> ast_node) option" where
  "field_parts f = (case nbody f of AST_FIELD_DECL name ty \<Rightarrow> Some (name, ty) | _ \<Rightarrow> None)"

definition struct_fields :: "ast_node \<Rightarrow> (string \<times> ast_node) list" where
  "struct_fields decl =
     (case nbody decl of AST_STRUCT_DECL _ fs _ \<Rightarrow> List.map_filter field_parts fs | _ \<Rightarrow> [])"

text \<open>The loop over the fields keeps the name of the first field that recurses.\<close>

definition check_field ::
  "name_result \<Rightarrow> name_module \<Rightarrow> sym_ref \<Rightarrow> string \<times> ast_node \<Rightarrow> string option \<times> type_ctx
     \<Rightarrow> string option \<times> type_ctx" where
  "check_field nr m sy field acc =
     (case walk_field_type nr m (snd field) sy (snd acc) of
        (hit, c) \<Rightarrow> (if hit \<and> fst acc = None then Some (fst field) else fst acc, c))"

definition check_struct :: "name_result \<Rightarrow> name_module \<Rightarrow> ast_node \<Rightarrow> type_ctx \<Rightarrow> type_ctx" where
  "check_struct nr m decl c =
     (case nbody decl of
        AST_STRUCT_DECL _ _ _ \<Rightarrow>
          (case type_symbol_for_decl nr m decl NAME_SYM_STRUCT of
             None \<Rightarrow> c
           | Some sy \<Rightarrow>
               (case fold (check_field nr m sy) (struct_fields decl) (None, c) of
                  (recursive_field, c1) \<Rightarrow>
                    (let c2 = emit_struct_completeness nr m decl sy recursive_field c1
                     in c2\<lparr>tc_closed := set_add (tc_closed c2) sy\<rparr>)))
      | _ \<Rightarrow> c)"

definition check_structs :: "name_result \<Rightarrow> type_ctx \<Rightarrow> type_ctx" where
  "check_structs nr c =
     fold (\<lambda>m. fold (check_struct nr m) (program_decls (mod_program m))) (nr_modules nr) c"

datatype type_check_status =
    TYPE_CHECK_OK
  | TYPE_CHECK_DIAG_ERROR "diag_record option list"
  | TYPE_CHECK_OOM

definition type_ctx_init :: type_ctx where
  "type_ctx_init = \<lparr>tc_records = [], tc_oom = False, tc_closed = [], tc_used = [], tc_reported = []\<rparr>"

definition types_check_completeness ::
  "((diag_record option \<Rightarrow> diag_record option \<Rightarrow> int) \<Rightarrow> diag_record option list \<Rightarrow> diag_record option list)
     \<Rightarrow> name_result \<Rightarrow> type_check_status" where
  "types_check_completeness qsort nr =
     (let used = fold (scan_module_value_uses nr) (nr_modules nr) [];
          c = check_structs nr (type_ctx_init\<lparr>tc_used := used\<rparr>)
      in if tc_oom c then TYPE_CHECK_OOM
         else if tc_records c = [] then TYPE_CHECK_OK
         else TYPE_CHECK_DIAG_ERROR (the (diag_sort_records qsort (Some (map Some (tc_records c))))))"

end
