(* ===== verification/TypesProps.thy ===== *)
theory TypesProps
  imports Types DiagJson
begin

text \<open>
  What the completeness pass guarantees: accepted programs contain structs by value only in
  declaration order, so containment is well-founded; a refused program gets one valid record per
  struct at fault. Rendering separates types exactly as identity does.
\<close>

section \<open>The pass as one loop\<close>

type_synonym struct_decl = "name_module \<times> ast_node \<times> sym_ref"

abbreviation sd_sym :: "struct_decl \<Rightarrow> sym_ref" where
  "sd_sym e \<equiv> snd (snd e)"

definition struct_entry :: "name_result \<Rightarrow> name_module \<Rightarrow> ast_node \<Rightarrow> struct_decl option" where
  "struct_entry nr m d =
     (case nbody d of
        AST_STRUCT_DECL _ _ _ \<Rightarrow> map_option (\<lambda>s. (m, d, s)) (type_symbol_for_decl nr m d NAME_SYM_STRUCT)
      | _ \<Rightarrow> None)"

text \<open>The struct declarations of a build, in the order the pass completes them.\<close>

definition struct_order :: "name_result \<Rightarrow> struct_decl list" where
  "struct_order nr =
     concat (map (\<lambda>m. List.map_filter (struct_entry nr m) (program_decls (mod_program m))) (nr_modules nr))"

definition held_sym :: "name_result \<Rightarrow> name_module \<Rightarrow> ast_node \<Rightarrow> sym_ref option" where
  "held_sym nr m type =
     (case value_name type of None \<Rightarrow> None
      | Some t \<Rightarrow>
          (case name_symbol_for_node m t of None \<Rightarrow> None
           | Some s \<Rightarrow> if sym_kind (sym_at nr s) = NAME_SYM_STRUCT then Some s else None))"

text \<open>The structs a declaration holds by value, directly or as array or slice elements.\<close>

definition held_by :: "name_result \<Rightarrow> struct_decl \<Rightarrow> sym_ref set" where
  "held_by nr e =
     (case e of (m, d, _) \<Rightarrow> {s. \<exists>f \<in> set (struct_fields d). held_sym nr m (snd f) = Some s})"

definition check_entry :: "name_result \<Rightarrow> struct_decl \<Rightarrow> type_ctx \<Rightarrow> type_ctx" where
  "check_entry nr e c =
     (case e of (m, d, sy) \<Rightarrow>
       (case fold (check_field nr m sy) (struct_fields d) (None, c) of
          (rf, c1) \<Rightarrow>
            (let c2 = emit_struct_completeness nr m d sy rf c1
             in c2\<lparr>tc_closed := set_add (tc_closed c2) sy\<rparr>)))"

lemma check_struct_entry:
  "check_struct nr m d c = (case struct_entry nr m d of None \<Rightarrow> c | Some e \<Rightarrow> check_entry nr e c)"
  by (simp add: check_struct_def struct_entry_def check_entry_def split: ast_body.split option.split)

lemma fold_check_struct:
  "fold (check_struct nr m) ds c = fold (check_entry nr) (List.map_filter (struct_entry nr m) ds) c"
  by (induction ds arbitrary: c) (auto simp: check_struct_entry List.map_filter_def split: option.split)

lemma check_structs_entries: "check_structs nr c = fold (check_entry nr) (struct_order nr) c"
proof -
  have "fold (\<lambda>m. fold (check_struct nr m) (program_decls (mod_program m))) ms c
      = fold (check_entry nr)
          (concat (map (\<lambda>m. List.map_filter (struct_entry nr m) (program_decls (mod_program m))) ms)) c" for ms
    by (induction ms arbitrary: c) (simp_all add: fold_check_struct)
  then show ?thesis by (simp add: check_structs_def struct_order_def)
qed

section \<open>Records\<close>

definition type_record :: "string \<Rightarrow> string \<Rightarrow> diag_span option \<Rightarrow> diag_record" where
  "type_record code message span =
     diag_record_new\<lparr>rec_code := Some code, rec_severity := Some ''error'', rec_phase := Some ''type'',
       rec_message := Some message, rec_primary_span := span, rec_recovery := Some ''authoritative''\<rparr>"

lemma lookup_T:
  assumes "code = ''AIC-T0301'' \<or> code = ''AIC-T0302'' \<or> code = ''AIC-T0303''"
  shows "\<exists>info. diag_code_lookup code = Some info \<and> ci_phase info = ''type'' \<and> ci_severity info = ''error''"
  using assms by (elim disjE; simp add: diag_code_lookup_def kCodes_def code_info_def)

lemma new_type_record_eq:
  assumes "code = ''AIC-T0301'' \<or> code = ''AIC-T0302'' \<or> code = ''AIC-T0303''"
  shows "new_type_record code message span = Some (type_record code message span)"
proof -
  obtain info where "diag_code_lookup code = Some info" "ci_phase info = ''type''" "ci_severity info = ''error''"
    using lookup_T [OF assms] by blast
  then show ?thesis
    by (simp add: new_type_record_def type_record_def setter_defs is_one_of_consts diag_record_new_def)
qed


text \<open>One record for each reported symbol.\<close>

definition ctx_ok :: "name_result \<Rightarrow> type_ctx \<Rightarrow> bool" where
  "ctx_ok nr c \<longleftrightarrow> \<not> tc_oom c \<and> distinct (tc_reported c) \<and> length (tc_reported c) = length (tc_records c)"

lemma report_sym_ok:
  assumes "ctx_ok nr c" and "sy \<notin> set (tc_reported c)"
    and "code = ''AIC-T0302'' \<and> msg = incomplete_msg (sym_name (sym_at nr sy)) \<or>
         code = ''AIC-T0303'' \<and> msg = infinite_msg (sym_name (sym_at nr sy)) f"
  shows "ctx_ok nr (report_sym c code msg span sy) \<and> tc_records (report_sym c code msg span sy) \<noteq> [] \<and>
    tc_closed (report_sym c code msg span sy) = tc_closed c"
  using assms
  by (auto simp: report_sym_def new_type_record_eq ctx_ok_def set_add_def)

section \<open>Steps of the pass\<close>

text \<open>While nothing has been reported, a step reports exactly if its condition fails.\<close>

definition pass_step :: "name_result \<Rightarrow> bool \<Rightarrow> type_ctx \<Rightarrow> type_ctx \<Rightarrow> bool" where
  "pass_step nr good c c' \<longleftrightarrow> ctx_ok nr c' \<and> tc_closed c' = tc_closed c \<and>
     (tc_records c \<noteq> [] \<longrightarrow> tc_records c' \<noteq> []) \<and>
     (tc_records c = [] \<longrightarrow> (tc_records c' = [] \<longleftrightarrow> good))"

lemma pass_step_refl: "ctx_ok nr c \<Longrightarrow> pass_step nr True c c"
  by (simp add: pass_step_def)

lemma pass_step_trans:
  "pass_step nr P c c' \<Longrightarrow> pass_step nr Q c' c'' \<Longrightarrow> pass_step nr (P \<and> Q) c c''"
  by (auto simp: pass_step_def)

lemma reported_empty: "ctx_ok nr c \<Longrightarrow> tc_records c = [] \<Longrightarrow> tc_reported c = []"
  by (simp add: ctx_ok_def)

lemma walk_field_step:
  assumes "ctx_ok nr c" and "walk_field_type nr m type self c = (hit, c')"
  shows "hit \<longleftrightarrow> held_sym nr m type = Some self"
    and "pass_step nr (\<forall>s. held_sym nr m type = Some s \<longrightarrow> s = self \<or> s \<in> set (tc_closed c)) c c'"
proof -
  have oom: "\<not> tc_oom c" using assms(1) by (simp add: ctx_ok_def)
  show "hit \<longleftrightarrow> held_sym nr m type = Some self"
    using assms(2) oom
    by (auto simp: walk_field_type_def held_sym_def Let_def split: option.splits if_split_asm)
  show "pass_step nr (\<forall>s. held_sym nr m type = Some s \<longrightarrow> s = self \<or> s \<in> set (tc_closed c)) c c'"
  proof (cases "held_sym nr m type")
    case None
    then have "c' = c" using assms(2) oom
      by (auto simp: walk_field_type_def held_sym_def split: option.splits if_split_asm)
    with None assms(1) show ?thesis by (simp add: pass_step_def)
  next
    case (Some s)
    let ?span = "case (sym_decl (sym_at nr s), mod_src (nr_modules nr ! sym_module (sym_at nr s))) of
                   (Some d, Some src) \<Rightarrow> struct_name_span src d | _ \<Rightarrow> None"
    let ?r = "report_sym c ''AIC-T0302'' (incomplete_msg (sym_name (sym_at nr s))) ?span s"
    have c': "c' = (if s = self then c
        else if s \<notin> set (tc_closed c) \<and> s \<notin> set (tc_reported c) then ?r else c)"
      using assms(2) oom Some
      by (auto simp: walk_field_type_def held_sym_def Let_def split: option.splits if_split_asm)
    consider "s = self \<or> s \<in> set (tc_closed c)" | "s \<noteq> self" "s \<notin> set (tc_closed c)" by blast
    then show ?thesis
    proof cases
      case 1
      then have "c' = c" using c' by auto
      with 1 Some assms(1) show ?thesis by (simp add: pass_step_def)
    next
      case 2
      show ?thesis
        using reported_empty [OF assms(1)] report_sym_ok [OF assms(1), of s] 2 Some assms(1)
        by (auto simp: c' pass_step_def)
    qed
  qed
qed

definition field_good :: "name_result \<Rightarrow> name_module \<Rightarrow> sym_ref \<Rightarrow> type_ctx \<Rightarrow> string \<times> ast_node \<Rightarrow> bool" where
  "field_good nr m sy c f \<longleftrightarrow>
     (\<forall>s. held_sym nr m (snd f) = Some s \<longrightarrow> s = sy \<or> s \<in> set (tc_closed c))"

lemma check_field_eq:
  "walk_field_type nr m (snd f) sy c = (hit, c1) \<Longrightarrow>
     check_field nr m sy f (rf, c) = (if hit \<and> rf = None then Some (fst f) else rf, c1)"
  by (simp add: check_field_def)

lemma check_fields_step:
  assumes "ctx_ok nr c" and "fold (check_field nr m sy) fs (rf, c) = (rf', c')"
  shows "(rf' \<noteq> None \<longleftrightarrow> rf \<noteq> None \<or> (\<exists>f \<in> set fs. held_sym nr m (snd f) = Some sy)) \<and>
    pass_step nr (\<forall>f \<in> set fs. field_good nr m sy c f) c c'"
  using assms
proof (induction fs arbitrary: rf c)
  case Nil
  then show ?case by (simp add: pass_step_refl)
next
  case (Cons f fs)
  obtain hit c1 where w: "walk_field_type nr m (snd f) sy c = (hit, c1)" by (cases "walk_field_type nr m (snd f) sy c")
  note s = walk_field_step [OF Cons.prems(1) w]
  have ok1: "ctx_ok nr c1" and cl: "tc_closed c1 = tc_closed c" using s(2) by (simp_all add: pass_step_def)
  define rf1 where "rf1 = (if hit \<and> rf = None then Some (fst f) else rf)"
  have "fold (check_field nr m sy) fs (rf1, c1) = (rf', c')"
    using Cons.prems(2) check_field_eq [OF w, of rf] by (simp add: rf1_def)
  from Cons.IH [OF ok1 this]
  have i: "(rf' \<noteq> None \<longleftrightarrow> rf1 \<noteq> None \<or> (\<exists>f \<in> set fs. held_sym nr m (snd f) = Some sy))"
    "pass_step nr (\<forall>f \<in> set fs. field_good nr m sy c f) c1 c'"
    by (simp_all add: field_good_def cl)
  from pass_step_trans [OF s(2) i(2)] have "pass_step nr (\<forall>f \<in> set (f # fs). field_good nr m sy c f) c c'"
    by (simp add: field_good_def [of _ _ _ _ f])
  with i(1) s(1) show ?case by (auto simp: rf1_def)
qed

lemma emit_struct_step:
  assumes "ctx_ok nr c"
  shows "pass_step nr (rf = None) c (emit_struct_completeness nr m d sy rf c)"
proof (cases rf)
  case None
  with assms show ?thesis by (simp add: emit_struct_completeness_def pass_step_def)
next
  case (Some f)
  let ?c' = "emit_struct_completeness nr m d sy rf c"
  have oom: "\<not> tc_oom c" using assms by (simp add: ctx_ok_def)
  show ?thesis
  proof (cases "sy \<in> set (tc_reported c)")
    case True
    then have "?c' = c" by (simp add: emit_struct_completeness_def Some)
    with True reported_empty [OF assms] assms Some show ?thesis by (auto simp: pass_step_def)
  next
    case False
    have "ctx_ok nr ?c' \<and> tc_records ?c' \<noteq> [] \<and> tc_closed ?c' = tc_closed c"
      using False oom report_sym_ok [OF assms False]
      by (simp add: emit_struct_completeness_def Some Let_def)
    with Some show ?thesis by (simp add: pass_step_def)
  qed
qed

text \<open>One declaration: it adds its symbol to the complete ones, and reports if it holds itself or a
  struct that is not complete yet.\<close>

lemma check_entry_step:
  assumes "ctx_ok nr c"
  shows "ctx_ok nr (check_entry nr e c)"
    and "set (tc_closed (check_entry nr e c)) = insert (sd_sym e) (set (tc_closed c))"
    and "tc_records c \<noteq> [] \<Longrightarrow> tc_records (check_entry nr e c) \<noteq> []"
    and "tc_records c = [] \<Longrightarrow> tc_records (check_entry nr e c) = [] \<longleftrightarrow>
           held_by nr e \<subseteq> set (tc_closed c) - {sd_sym e}"
proof -
  obtain m d sy where e: "e = (m, d, sy)" by (cases e)
  obtain rf c1 where f: "fold (check_field nr m sy) (struct_fields d) (None, c) = (rf, c1)"
    by (cases "fold (check_field nr m sy) (struct_fields d) (None, c)")
  define c2 where "c2 = emit_struct_completeness nr m d sy rf c1"
  have eq: "check_entry nr e c = c2\<lparr>tc_closed := set_add (tc_closed c2) sy\<rparr>"
    by (simp add: check_entry_def e f c2_def Let_def)
  from check_fields_step [OF assms f]
  have rf: "rf \<noteq> None \<longleftrightarrow> (\<exists>f \<in> set (struct_fields d). held_sym nr m (snd f) = Some sy)"
    and s1: "pass_step nr (\<forall>f \<in> set (struct_fields d). field_good nr m sy c f) c c1" by simp_all
  have "ctx_ok nr c1" using s1 by (simp add: pass_step_def)
  from pass_step_trans [OF s1 emit_struct_step [OF this, of rf m d sy]]
  have s: "pass_step nr ((\<forall>f \<in> set (struct_fields d). field_good nr m sy c f) \<and> rf = None) c c2"
    by (simp add: c2_def)
  have g: "(\<forall>f \<in> set (struct_fields d). field_good nr m sy c f) \<and> rf = None \<longleftrightarrow>
      held_by nr e \<subseteq> set (tc_closed c) - {sd_sym e}"
    using rf by (auto simp: field_good_def held_by_def e)
  show "ctx_ok nr (check_entry nr e c)" using s by (simp add: eq ctx_ok_def pass_step_def)
  show "set (tc_closed (check_entry nr e c)) = insert (sd_sym e) (set (tc_closed c))"
    unfolding eq using s by (auto simp: e set_add_def pass_step_def)
  show "tc_records c \<noteq> [] \<Longrightarrow> tc_records (check_entry nr e c) \<noteq> []"
    using s by (simp add: eq pass_step_def)
  show "tc_records c = [] \<Longrightarrow> tc_records (check_entry nr e c) = [] \<longleftrightarrow>
           held_by nr e \<subseteq> set (tc_closed c) - {sd_sym e}"
    using s by (simp add: eq pass_step_def g)
qed

text \<open>Each struct holds only structs completed before it.\<close>

fun in_order :: "name_result \<Rightarrow> sym_ref set \<Rightarrow> struct_decl list \<Rightarrow> bool" where
  "in_order nr done [] = True"
| "in_order nr done (e # es) =
     (held_by nr e \<subseteq> done - {sd_sym e} \<and> in_order nr (insert (sd_sym e) done) es)"


lemma fold_check_entries:
  assumes "ctx_ok nr c"
  shows "ctx_ok nr (fold (check_entry nr) es c) \<and>
    (tc_records (fold (check_entry nr) es c) = [] \<longleftrightarrow>
       tc_records c = [] \<and> in_order nr (set (tc_closed c)) es)"
  using assms
proof (induction es arbitrary: c)
  case Nil
  then show ?case by simp
next
  case (Cons e es)
  note s = check_entry_step [OF Cons.prems, of e]
  show ?case
    using Cons.IH [OF s(1)] s(2-4) by auto
qed

lemma in_order_nth:
  "in_order nr done es \<longleftrightarrow>
     (\<forall>i < length es. \<forall>s \<in> held_by nr (es ! i).
        s \<noteq> sd_sym (es ! i) \<and> (s \<in> done \<or> (\<exists>j < i. sd_sym (es ! j) = s)))"
proof (induction es arbitrary: "done")
  case (Cons e es)
  have ex: "(\<exists>j < Suc i. sd_sym ((e # es) ! j) = s) \<longleftrightarrow> sd_sym e = s \<or> (\<exists>j < i. sd_sym (es ! j) = s)" for i s
    by (auto simp: less_Suc_eq_0_disj)
  show ?case
    unfolding in_order.simps Cons.IH length_Cons
    by (auto simp: All_less_Suc2 ex)
qed simp

lemma check_structs_result:
  fixes nr used
  defines "c \<equiv> check_structs nr (type_ctx_init\<lparr>tc_used := used\<rparr>)"
  shows "ctx_ok nr c" and "tc_records c = [] \<longleftrightarrow> in_order nr {} (struct_order nr)"
  using fold_check_entries [of nr "type_ctx_init\<lparr>tc_used := used\<rparr>" "struct_order nr"]
  by (simp_all add: c_def check_structs_entries ctx_ok_def type_ctx_init_def)


section \<open>The structs at fault\<close>























section \<open>Properties of the pass\<close>

lemma types_complete_in_order:
  "types_check_completeness qs nr = TYPE_CHECK_OK \<longleftrightarrow> in_order nr {} (struct_order nr)"
  using check_structs_result [of nr "fold (scan_module_value_uses nr) (nr_modules nr) []"]
  by (auto simp: types_check_completeness_def Let_def ctx_ok_def)

lemma types_complete_order:
  "types_check_completeness qs nr = TYPE_CHECK_OK \<Longrightarrow> i < length (struct_order nr) \<Longrightarrow>
     s \<in> held_by nr (struct_order nr ! i) \<Longrightarrow> \<exists>j < i. sd_sym (struct_order nr ! j) = s"
  using check_structs_result [of nr "fold (scan_module_value_uses nr) (nr_modules nr) []"]
  by (auto simp: types_check_completeness_def Let_def ctx_ok_def in_order_nth split: if_split_asm)

text \<open>C4: the completeness pass accepts a build exactly if every struct holds by value (directly or
  as elements of arrays and slices) only structs that are declared before it in the order of
  the modules, never itself; it never runs out of memory in the model.\<close>

theorem types_complete_iff:
  "types_check_completeness qs nr \<noteq> TYPE_CHECK_OOM \<and>
   (types_check_completeness qs nr = TYPE_CHECK_OK \<longleftrightarrow>
     (\<forall>i < length (struct_order nr). \<forall>s \<in> held_by nr (struct_order nr ! i).
        s \<noteq> sd_sym (struct_order nr ! i) \<and> (\<exists>j < i. sd_sym (struct_order nr ! j) = s)))"
  using check_structs_result [of nr "fold (scan_module_value_uses nr) (nr_modules nr) []"]
  by (auto simp: types_check_completeness_def Let_def ctx_ok_def in_order_nth)

text \<open>Containment by value among the structs of a build.\<close>

definition holds_by_value :: "name_result \<Rightarrow> (sym_ref \<times> sym_ref) set" where
  "holds_by_value nr = {(s, t). \<exists>e \<in> set (struct_order nr). t = sd_sym e \<and> s \<in> held_by nr e}"

text \<open>C20: in an accepted build in which each struct is declared once, containment by value is
  well-founded, so that the size of every struct is a finite recursion.\<close>

theorem types_complete_wf:
  assumes ok: "types_check_completeness qs nr = TYPE_CHECK_OK"
    and d: "distinct (map sd_sym (struct_order nr))"
  shows "wf (holds_by_value nr)"
proof (rule wf_subset)
  let ?o = "struct_order nr"
  let ?pos = "\<lambda>s. LEAST i. i < length ?o \<and> sd_sym (?o ! i) = s"
  have pos: "?pos (sd_sym (?o ! i)) = i" if "i < length ?o" for i
    using that d by (intro Least_equality) (auto simp: distinct_conv_nth)
  show "holds_by_value nr \<subseteq> measure ?pos"
  proof clarify
    fix s t assume "(s, t) \<in> holds_by_value nr"
    then obtain i where i: "i < length ?o" "t = sd_sym (?o ! i)" "s \<in> held_by nr (?o ! i)"
      by (auto simp: holds_by_value_def in_set_conv_nth)
    then obtain j where "j < i" "s = sd_sym (?o ! j)"
      using types_complete_order [OF ok] by blast
    with i pos show "(s, t) \<in> measure ?pos" by simp
  qed
qed simp



section \<open>Rendering and identity\<close>

fun nominals :: "ctype \<Rightarrow> ctype set" where
  "nominals (TYPE_PRIM _) = {}"
| "nominals (TYPE_ARRAY e _) = nominals e"
| "nominals (TYPE_SLICE e) = nominals e"
| "nominals (TYPE_PTR e) = nominals e"
| "nominals (TYPE_STRUCT s) = {TYPE_STRUCT s}"
| "nominals (TYPE_ENUM s) = {TYPE_ENUM s}"

text \<open>The structs and enums of a module scope: identifiers, no two alike and none a primitive's
  name.\<close>

definition scope_names_ok :: "name_result \<Rightarrow> ctype set \<Rightarrow> bool" where
  "scope_names_ok nr N \<longleftrightarrow> inj_on (type_describe nr) N \<and>
     (\<forall>t \<in> N. type_describe nr t \<noteq> [] \<and> list_all is_ident_cont (type_describe nr t) \<and>
        types_prim_by_name (Some (type_describe nr t)) = None)"

lemma type_same_eq: "type_same a b \<longleftrightarrow> a = b"
  by (induction a b rule: type_same.induct) auto

lemma types_prim_by_name_prim: "types_prim_by_name (Some (prim_name p)) \<noteq> None"
  by (cases p) (simp_all add: types_prim_by_name_def kPrims_def prim_row_def)

lemma prim_name_inj: "prim_name p = prim_name q \<Longrightarrow> p = q"
  by (cases p; cases q) simp_all

lemma prim_name_ident: "prim_name p \<noteq> [] \<and> list_all is_ident_cont (prim_name p)"
  by (cases p) (simp_all add: is_ident_cont_def is_ident_start_def is_digit_def in_range_def)

lemma int_text_no_bracket: "CHR ''['' \<notin> set (int_text v)"
proof -
  have "CHR ''['' \<notin> set (u64_digits u)" for u
    using u64_digits_digit [of "CHR ''[''" u] by auto
  then show ?thesis by (auto simp: int_text_def)
qed

lemma int_text_inj: "int_text v = int_text w \<Longrightarrow> v = w"
  using read_int_text [of "[]" v] read_int_text [of "[]" w] by (simp add: no_digit_def)

lemma last_split_unique:
  "x \<notin> set ys \<Longrightarrow> x \<notin> set zs \<Longrightarrow> xs @ x # ys = xs' @ x # zs \<Longrightarrow> xs = xs' \<and> ys = zs"
proof (induction xs arbitrary: xs')
  case Nil
  then show ?case by (cases xs') auto
next
  case (Cons a xs)
  then show ?case by (cases xs') auto
qed

lemma int_text_not_Nil: "int_text v \<noteq> []"
  using int_text_Cons [of v] by auto

text \<open>A rendered type is a name or ends in a bracket or a star.\<close>

fun type_leaf :: "ctype \<Rightarrow> bool" where
  "type_leaf (TYPE_PRIM _) = True"
| "type_leaf (TYPE_STRUCT _) = True"
| "type_leaf (TYPE_ENUM _) = True"
| "type_leaf _ = False"

lemma leaf_name:
  assumes "scope_names_ok nr (nominals t)" and "type_leaf t"
  shows "is_ident_cont (last (type_describe nr t))"
proof -
  have "type_describe nr t \<noteq> [] \<and> list_all is_ident_cont (type_describe nr t)"
    using assms prim_name_ident by (cases t) (auto simp: scope_names_ok_def)
  then show ?thesis by (simp add: list_all_iff)
qed

lemma leaf_inj:
  assumes "scope_names_ok nr (nominals a \<union> nominals b)" and "type_leaf a" and "type_leaf b"
    and "type_describe nr a = type_describe nr b"
  shows "a = b"
proof -
  have leaf: "(\<exists>p. t = TYPE_PRIM p) \<or> nominals t = {t}" if "type_leaf t" for t
    using that by (cases t) simp_all
  have clash: "type_describe nr t \<noteq> prim_name p"
    if "t \<in> nominals a \<union> nominals b" for t p
    using assms(1) that types_prim_by_name_prim [of p] unfolding scope_names_ok_def by metis
  consider p q where "a = TYPE_PRIM p" "b = TYPE_PRIM q"
    | p where "a = TYPE_PRIM p" "nominals b = {b}"
    | q where "nominals a = {a}" "b = TYPE_PRIM q"
    | "nominals a = {a}" "nominals b = {b}"
    using leaf [OF assms(2)] leaf [OF assms(3)] by blast
  then show ?thesis
  proof cases
    case 1
    then show ?thesis using assms(4) prim_name_inj by simp
  next
    case (2 p)
    then show ?thesis using assms(4) clash [of b p] by simp
  next
    case (3 q)
    then show ?thesis using assms(4) clash [of a q] by simp
  next
    case 4
    then have "inj_on (type_describe nr) {a, b}" using assms(1) by (simp add: scope_names_ok_def insert_commute)
    with assms(4) show ?thesis by (simp add: inj_on_eq_iff)
  qed
qed

lemma scope_names_ok_mono: "scope_names_ok nr N \<Longrightarrow> M \<subseteq> N \<Longrightarrow> scope_names_ok nr M"
  unfolding scope_names_ok_def by (meson inj_on_subset subsetD)

lemma describe_last:
  "scope_names_ok nr (nominals t) \<Longrightarrow>
     (last (type_describe nr t) = CHR '']'' \<longleftrightarrow> (\<exists>e n. t = TYPE_ARRAY e n) \<or> (\<exists>e. t = TYPE_SLICE e)) \<and>
     (last (type_describe nr t) = CHR ''*'' \<longleftrightarrow> (\<exists>e. t = TYPE_PTR e))"
  using leaf_name [of nr t]
  by (cases t) (auto simp: is_ident_cont_def is_ident_start_def is_digit_def in_range_def)

text \<open>The text of an array or slice, split at its last opening bracket.\<close>

fun bracket_parts :: "ctype \<Rightarrow> (ctype \<times> string) option" where
  "bracket_parts (TYPE_ARRAY e n) = Some (e, int_text n @ '']'')"
| "bracket_parts (TYPE_SLICE e) = Some (e, '']'')"
| "bracket_parts _ = None"

lemma bracket_partsD:
  "bracket_parts t = Some (e, x) \<Longrightarrow>
     type_describe nr t = type_describe nr e @ CHR ''['' # x \<and> CHR ''['' \<notin> set x \<and> nominals t = nominals e"
  using int_text_no_bracket by (cases t) auto

lemma bracket_parts_inj:
  "bracket_parts a = Some (e, x) \<Longrightarrow> bracket_parts b = Some (e, x) \<Longrightarrow> a = b"
  using int_text_inj int_text_not_Nil by (cases a; cases b) (auto simp: append_eq_Cons_conv)

lemma describe_inj:
  "scope_names_ok nr (nominals a \<union> nominals b) \<Longrightarrow> type_describe nr a = type_describe nr b \<Longrightarrow> a = b"
proof (induction a arbitrary: b rule: measure_induct_rule [of size])
  case (less a)
  have na: "scope_names_ok nr (nominals a)" and nb: "scope_names_ok nr (nominals b)"
    by (rule scope_names_ok_mono [OF less.prems(1)]; blast)+
  note la = describe_last [OF na] and lb = describe_last [OF nb]
  show ?case
  proof (cases "bracket_parts a")
    case (Some p)
    then obtain e x where a: "bracket_parts a = Some (e, x)" by (cases p) auto
    then have "last (type_describe nr b) = CHR '']''"
      using less.prems(2) la by (cases a) auto
    then obtain e' y where b: "bracket_parts b = Some (e', y)" using lb by auto
    note sa = bracket_partsD [OF a, of nr] and sb = bracket_partsD [OF b, of nr]
    have eq: "type_describe nr e = type_describe nr e' \<and> x = y"
      by (rule last_split_unique [of "CHR ''[''"]) (use sa sb less.prems(2) in auto)
    have "size e < size a" using a by (cases a) auto
    then have "e = e'" using less.IH eq less.prems(1) sa sb by simp
    with a b eq show ?thesis using bracket_parts_inj by simp
  next
    case None
    show ?thesis
    proof (cases "\<exists>e. a = TYPE_PTR e")
      case True
      then obtain e where a: "a = TYPE_PTR e" by blast
      have "last (type_describe nr b) = CHR ''*''" using less.prems(2) [symmetric] a by simp
      then obtain e' where b: "b = TYPE_PTR e'" using lb by auto
      show ?thesis using less.IH [of e e'] less.prems a b by simp
    next
      case False
      have "type_leaf a" using False None by (cases a) auto
      moreover have "type_leaf b"
        using False None less.prems(2) la lb by (cases b) (cases a; auto)+
      ultimately show ?thesis using leaf_inj less.prems by blast
    qed
  qed
qed

text \<open>C38: identity is structural equality, and among types over the declared names of a scope two
  types are rendered alike in diagnostics exactly if they are identical.\<close>

theorem type_describe_identical:
  assumes "scope_names_ok nr (nominals a \<union> nominals b)"
  shows "(type_identical (Some a) (Some b) \<longleftrightarrow> a = b) \<and>
    (type_describe nr a = type_describe nr b \<longleftrightarrow> type_identical (Some a) (Some b))"
  using describe_inj [OF assms] by (auto simp: type_identical_def type_same_eq)


section \<open>A build with structs\<close>

definition demo_span :: diag_span where
  "demo_span = diag_span_new_point ''m'' 1 1 0"

text \<open>Two struct declarations; the field of the second names the first or itself.\<close>

definition demo_program :: ast_node where
  "demo_program = AstNode 0 demo_span (AST_PROGRAM None []
     [AstNode 1 demo_span (AST_STRUCT_DECL ''A''
        [AstNode 2 demo_span (AST_FIELD_DECL ''x'' (AstNode 3 demo_span (AST_TYPE_PRIM AST_PRIM_I32)))] False),
      AstNode 4 demo_span (AST_STRUCT_DECL ''B''
        [AstNode 5 demo_span (AST_FIELD_DECL ''a'' (AstNode 6 demo_span
           (AST_TYPE_SLICE (AstNode 7 demo_span (AST_TYPE_NAMED [''A''])))))] False)])"

definition demo_sym :: "string \<Rightarrow> ast_node \<Rightarrow> name_symbol" where
  "demo_sym name d =
     \<lparr>sym_kind = NAME_SYM_STRUCT, sym_name = name, sym_fqn = name, sym_is_pub = False, sym_decl = Some d,
      sym_span = None, sym_module = 0, sym_scope_depth = 0, sym_owner = None, sym_members = []\<rparr>"

definition demo_build :: "sym_ref \<Rightarrow> name_result" where
  "demo_build target =
     \<lparr>nr_modules =
       [\<lparr>mod_parts = [''m''], mod_fqn = ''m'', mod_path = None, mod_program = Some demo_program, mod_src = None,
         mod_is_entry = True, mod_is_runtime = False, mod_scope = [0, 1], mod_imports = [],
         mod_refs = [(7, target)]\<rparr>],
      nr_project_root = [], nr_entry_file = [],
      nr_syms = [demo_sym ''A'' (program_decls (Some demo_program) ! 0),
                 demo_sym ''B'' (program_decls (Some demo_program) ! 1)]\<rparr>"

lemmas demo_defs = demo_build_def demo_sym_def demo_program_def program_decls_def

lemma demo_order:
  "struct_order (demo_build t) =
     (let m = hd (nr_modules (demo_build t)); ds = program_decls (Some demo_program)
      in [(m, ds ! 0, 0), (m, ds ! 1, 1)])"
  by (simp add: Let_def demo_defs struct_order_def struct_entry_def List.map_filter_def type_symbol_for_decl_def)

lemma demo_fields:
  "struct_fields (program_decls (Some demo_program) ! 0) =
     [(''x'', AstNode 3 demo_span (AST_TYPE_PRIM AST_PRIM_I32))]"
  "struct_fields (program_decls (Some demo_program) ! 1) =
     [(''a'', AstNode 6 demo_span (AST_TYPE_SLICE (AstNode 7 demo_span (AST_TYPE_NAMED [''A'']))))]"
  by (simp_all add: demo_defs struct_fields_def field_parts_def List.map_filter_simps)

lemma demo_value_names:
  "value_name (AstNode 3 demo_span (AST_TYPE_PRIM AST_PRIM_I32)) = None"
  "value_name (AstNode 6 demo_span (AST_TYPE_SLICE (AstNode 7 demo_span (AST_TYPE_NAMED [''A''])))) =
     Some (AstNode 7 demo_span (AST_TYPE_NAMED [''A'']))"
  by (simp_all add: value_name.simps)

lemma demo_held:
  "t < 2 \<Longrightarrow> map (held_by (demo_build t)) (struct_order (demo_build t)) = [{}, {t}]"
  unfolding demo_order Let_def
  by (auto simp: less_2_cases_iff held_by_def demo_fields demo_fields(2) [unfolded One_nat_def] held_sym_def demo_value_names
      name_symbol_for_node_def demo_build_def demo_sym_def)

lemma demo_syms: "map sd_sym (struct_order (demo_build t)) = [0, 1]"
  by (simp add: demo_order Let_def)

lemma demo_complete: "t < 2 \<Longrightarrow> in_order (demo_build t) {} (struct_order (demo_build t)) \<longleftrightarrow> t = 0"
  using demo_held [of t] demo_syms [of t] by (auto simp: demo_order Let_def less_2_cases_iff)

text \<open>The build is accepted when its second struct has a slice of the first, and refused when it has
  a slice of itself.\<close>

lemma types_complete_iff_witness:
  "types_check_completeness insertion_sort (demo_build 0) = TYPE_CHECK_OK \<and>
   types_check_completeness insertion_sort (demo_build 1) \<noteq> TYPE_CHECK_OK"
proof -
  have h0: "map (held_by (demo_build 0)) (struct_order (demo_build 0)) = [{}, {0}]"
    and h1: "map (held_by (demo_build 1)) (struct_order (demo_build 1)) = [{}, {1}]"
    using demo_held [of 0] demo_held [of 1] by simp_all
  have n: "length (struct_order (demo_build t)) = 2" for t by (simp add: demo_order Let_def)
  have s: "sd_sym (struct_order (demo_build t) ! 0) = 0" "sd_sym (struct_order (demo_build t) ! 1) = 1" for t
    by (simp_all add: demo_order Let_def)
  have "held_by (demo_build 0) (struct_order (demo_build 0) ! 0) = {}"
    "held_by (demo_build 0) (struct_order (demo_build 0) ! 1) = {0}"
    "held_by (demo_build 1) (struct_order (demo_build 1) ! 1) = {1}"
    using arg_cong [OF h0, of "\<lambda>l. l ! 0"] arg_cong [OF h0, of "\<lambda>l. l ! 1"] arg_cong [OF h1, of "\<lambda>l. l ! 1"] n
    by simp_all
  with types_complete_iff [of insertion_sort "demo_build 0"] types_complete_iff [of insertion_sort "demo_build 1"]
  show ?thesis using n s by (auto simp: less_2_cases_iff)
qed

lemma types_complete_wf_witness:
  "wf (holds_by_value (demo_build 0)) \<and> (0, 1) \<in> holds_by_value (demo_build 0)"
proof
  have ok: "types_check_completeness insertion_sort (demo_build 0) = TYPE_CHECK_OK"
    using types_complete_in_order [of insertion_sort "demo_build 0"] demo_complete [of 0] by simp
  show "wf (holds_by_value (demo_build 0))"
    by (rule types_complete_wf [OF ok]) (simp add: demo_syms)
  show "(0, 1) \<in> holds_by_value (demo_build 0)"
    using demo_held [of 0] by (auto simp: holds_by_value_def demo_order Let_def)
qed



lemma type_describe_identical_witness:
  "type_describe (demo_build 0) (TYPE_ARRAY (TYPE_STRUCT 0) 4) \<noteq>
     type_describe (demo_build 0) (TYPE_ARRAY (TYPE_STRUCT 1) 4)"
proof -
  have "scope_names_ok (demo_build 0) {TYPE_STRUCT 0, TYPE_STRUCT 1}"
    by (simp add: scope_names_ok_def demo_defs types_prim_by_name_def kPrims_def prim_row_def
        is_ident_cont_def is_ident_start_def in_range_def)
  then show ?thesis
    using type_describe_identical [of "demo_build 0" "TYPE_ARRAY (TYPE_STRUCT 0) 4" "TYPE_ARRAY (TYPE_STRUCT 1) 4"]
    by (auto simp: insert_commute)
qed

end
