(* ===== verification/ParseProps.thy ===== *)
theory ParseProps
  imports ParseProgram TypesProps LexProps
begin

text \<open>
  Properties of the parser on whole token streams, and of the lexer followed by the parser.
\<close>

section \<open>Blocks\<close>

lemma scoped_scopes:
  assumes "good T (scope_push e) m Q (p (scope_push c))" and "scoped p c = Some (r, c')"
  shows "px_scopes c' = px_scopes e"
  using assms
  by (auto simp: scoped_def good_def outcome_def stepsto_def scope_push_def scope_pop_def bind_eq_Some_conv)

lemma block_scopes:
  assumes w: "wf T c" and b: "cur c = V_PUNCT PUNCT_LBRACE" and r: "parse_stmt_nt NT_BLOCK c = Some (r, c')"
  shows "px_scopes c' = px_scopes c"
proof -
  let ?p = "\<lambda>c1. braced_items (parse_stmt_nt NT_STATEMENT) recover_statement (advance c1)"
  have ne: "cur c \<noteq> V_EOF" using b by simp
  note a = advance_step [OF w ne]
  have w': "wf T (advance (scope_push c))" using a(3) by simp
  have items: "item_ok T d (parse_stmt_nt NT_STATEMENT) (\<lambda>v. v = V_PUNCT PUNCT_RBRACE \<or> starts_stmt v) (gram T G_STMT)"
    if "stepsto T (advance (scope_push c)) d" "before_close d" for d
    using stmt_nt_parses [of T "left T d"] that stepsto_wf by blast
  have g: "good T (scope_push (advance c)) (Suc (px_pos (advance (scope_push c))))
      (\<lambda>j xs. \<exists>m. chain (gram T G_STMT) (px_pos (advance (scope_push c))) m xs \<and> tokv T m = V_PUNCT PUNCT_RBRACE \<and> j = Suc m)
      (?p (scope_push c))"
    using braced_items_good [OF w' statement_recovers(1) items] by simp
  have "parse_stmt_nt NT_BLOCK c = pbind (scoped ?p) (\<lambda>items. node_new (px_pos c) (AST_BLOCK items)) c"
    using b by (simp add: parse_stmt_eqs(1) [of c] parse_block_def cur_tests)
  with r obtain q d where d: "scoped ?p c = Some (q, d)" and "px_scopes c' = px_scopes d"
    by (auto simp: pbind_def p_null_def node_new_def p_return_def bind_eq_Some_conv split: option.splits)
  with scoped_scopes [where p = ?p, OF g d] a(1) w ne show ?thesis
    by (simp add: advance_eq)
qed

text \<open>C15: a block, from its opening brace, always returns, consumes a token, and leaves the scopes as
  they were, also when it fails. When it fails it has added a record; when it adds none, its result
  is a block of the grammar that spans exactly the tokens consumed.\<close>

theorem block_contract:
  assumes "wf T c" and "cur c = V_PUNCT PUNCT_LBRACE"
  shows "\<exists>r c'. parse_stmt_nt NT_BLOCK c = Some (r, c') \<and> wf T c' \<and> px_scopes c' = px_scopes c \<and>
    (\<exists>rs. px_records c' = px_records c @ rs \<and>
      (case r of
         None \<Rightarrow> rs \<noteq> []
       | Some n \<Rightarrow> px_pos c < px_pos c' \<and> (rs = [] \<longrightarrow> gram T G_BLOCK (px_pos c) (px_pos c') n)))"
  using block_good [OF assms]
proof (rule goodE)
  fix c' assume r: "parse_stmt_nt NT_BLOCK c = Some (None, c')" and "stepsto T c c'" "px_records c' \<noteq> px_records c"
  with block_scopes [OF assms r] show ?thesis unfolding stepsto_def by (intro exI [of _ None] exI [of _ c']) auto
next
  fix n c' assume r: "parse_stmt_nt NT_BLOCK c = Some (Some n, c')" and "stepsto T c c'" "Suc (px_pos c) \<le> px_pos c'"
    and "px_records c' = px_records c \<Longrightarrow> gram T G_BLOCK (px_pos c) (px_pos c') n"
  with block_scopes [OF assms r] show ?thesis unfolding stepsto_def by (intro exI [of _ "Some n"] exI [of _ c']) auto
qed

text \<open>Tokens of a small program; the spans are all the same.\<close>

definition demo_tok :: "lex_val \<Rightarrow> lex_token" where
  "demo_tok v = \<lparr>tok_val = v, tok_span = Some (diag_span_new_range ''m.ai'' 1 1 0 1 2 1)\<rparr>"

definition demo_block :: "lex_token list" where
  "demo_block = map demo_tok [V_PUNCT PUNCT_LBRACE, V_PUNCT PUNCT_SEMI, V_PUNCT PUNCT_RBRACE, V_EOF]"

lemma block_contract_witness:
  "\<exists>r c'. parse_stmt_nt NT_BLOCK (parse_ctx_init demo_block) = Some (r, c') \<and> px_scopes c' = []"
proof -
  have d: "demo_block \<noteq> []" "tok_val (last demo_block) = V_EOF" by (simp_all add: demo_block_def demo_tok_def)
  note i = parse_ctx_init_wf [OF d]
  have "cur (parse_ctx_init demo_block) = V_PUNCT PUNCT_LBRACE"
    using i(1,2) by (simp add: cur_tokv tokv_def demo_block_def demo_tok_def)
  from block_contract [OF i(1) this] show ?thesis using i(4) by auto
qed

section \<open>Programs\<close>

text \<open>C5: the parser terminates on every token stream that ends in the end-of-file token, well formed or
  not, and always returns a program node; the status is \<open>PARSE_OK\<close> exactly if there are no records.\<close>

theorem parse_total:
  assumes "toks \<noteq> []" and "tok_val (last toks) = V_EOF" and "c_qsort qs"
  shows "\<exists>st p recs. parse_program qs toks = Some (st, Some p, recs) \<and>
    (st = PARSE_OK \<and> recs = [] \<or> st = PARSE_DIAG_ERROR \<and> recs \<noteq> [])"
proof -
  obtain p c where c: "parse_all (parse_ctx_init toks) = Some (Some p, c)"
    using parse_all_run [OF assms(1,2)] by blast
  have "mset (the (diag_sort_records qs (Some (map Some (px_records c))))) = mset (map Some (px_records c))"
    by (rule sort_result(1) [OF assms(3) refl])
  then have "the (diag_sort_records qs (Some (map Some (px_records c)))) = [] \<longleftrightarrow> px_records c = []"
    by (metis map_is_Nil_conv mset_zero_iff)
  with c show ?thesis by (simp add: parse_program_def Let_def)
qed

lemma parse_total_witness:
  "\<exists>st p recs. parse_program insertion_sort demo_block = Some (st, Some p, recs)"
  using parse_total [OF _ _ insertion_sort.c_qsort_axioms, of demo_block]
  by (auto simp: demo_block_def demo_tok_def)

text \<open>
  The grammar of the language specification (section 5.2) is stricter than the one the parser accepts:
  a program begins with a module declaration, and an enum has at least one member.
\<close>

definition memberless_enum :: "ast_node \<Rightarrow> bool" where
  "memberless_enum d = (case nbody d of AST_ENUM_DECL _ _ members _ \<Rightarrow> members = [] | _ \<Rightarrow> False)"

definition spec_program :: "tape \<Rightarrow> ast_node \<Rightarrow> bool" where
  "spec_program T n \<longleftrightarrow>
     (\<exists>m imports decls i j k.
        gram T G_MODULE 0 i m \<and> chain (gram T G_IMPORT) i j imports \<and>
        chain (\<lambda>i j d. gram T G_DECL i j d \<and> \<not> memberless_enum d) j k decls \<and>
        k < length (snd T) \<and> tokv T k = V_EOF \<and>
        gnode T 0 (length (snd T)) (AST_PROGRAM (Some m) imports decls) n)"

definition tree_decls :: "ast_node \<Rightarrow> ast_node list" where
  "tree_decls n = (case nbody n of AST_PROGRAM _ _ decls \<Rightarrow> decls | _ \<Rightarrow> [])"

lemma chain_restrict: "chain P i j xs \<Longrightarrow> \<forall>x \<in> set xs. Q x \<Longrightarrow> chain (\<lambda>i j x. P i j x \<and> Q x) i j xs"
  by (induction xs arbitrary: i) auto

lemma chain_restrictD: "chain (\<lambda>i j x. P i j x \<and> Q x) i j xs \<Longrightarrow> \<forall>x \<in> set xs. Q x"
  by (induction xs arbitrary: i) auto

lemma opt_pub_first:
  "opt_pub T i k is_pub \<Longrightarrow> tokv T k = V_KEYWORD w \<Longrightarrow> w \<noteq> KW_MODULE \<Longrightarrow> tokv T i \<noteq> V_KEYWORD KW_MODULE"
  by (auto simp: opt_pub_def split: if_split_asm)

lemma module_first: "gram T G_MODULE i j n \<Longrightarrow> tokv T i = V_KEYWORD KW_MODULE"
  by (erule gram.cases; simp)

lemma import_first: "gram T G_IMPORT i j n \<Longrightarrow> tokv T i \<noteq> V_KEYWORD KW_MODULE"
  by (erule gram.cases; simp)

lemma decl_first: "gram T G_DECL i j n \<Longrightarrow> tokv T i \<noteq> V_KEYWORD KW_MODULE"
  by (erule gram.cases) (auto dest: opt_pub_first)

lemma first_of_chain:
  "chain (gram T S) i j xs \<Longrightarrow> S = G_IMPORT \<or> S = G_DECL \<Longrightarrow> xs \<noteq> [] \<Longrightarrow> tokv T i \<noteq> V_KEYWORD KW_MODULE"
  by (cases xs) (auto dest: import_first decl_first)

lemma no_module:
  assumes "chain (gram T G_IMPORT) i j ims" and "chain (gram T G_DECL) j k decls" and "tokv T k = V_EOF"
  shows "tokv T i \<noteq> V_KEYWORD KW_MODULE"
proof (cases "ims = []")
  case True
  with assms show ?thesis by (cases "decls = []") (auto dest: first_of_chain)
qed (use first_of_chain [OF assms(1)] in simp)

lemma spec_program_iff:
  assumes "gprogram T n"
  shows "spec_program T n \<longleftrightarrow>
    tokv T 0 = V_KEYWORD KW_MODULE \<and> (\<forall>d \<in> set (tree_decls n). \<not> memberless_enum d)"
proof
  assume "spec_program T n"
  then show "tokv T 0 = V_KEYWORD KW_MODULE \<and> (\<forall>d \<in> set (tree_decls n). \<not> memberless_enum d)"
    by (auto simp: spec_program_def gnode_def tree_decls_def dest!: module_first chain_restrictD)
next
  assume s: "tokv T 0 = V_KEYWORD KW_MODULE \<and> (\<forall>d \<in> set (tree_decls n). \<not> memberless_enum d)"
  obtain m ims decls i j k where g: "gopt (gram T G_MODULE) 0 i m" "chain (gram T G_IMPORT) i j ims"
    "chain (gram T G_DECL) j k decls" "k < length (snd T)" "tokv T k = V_EOF"
    "gnode T 0 (length (snd T)) (AST_PROGRAM m ims decls) n"
    using assms unfolding gprogram_def by blast
  then obtain x where m: "m = Some x" using s no_module [OF g(2,3,5)] by (cases m) auto
  have "chain (\<lambda>i j d. gram T G_DECL i j d \<and> \<not> memberless_enum d) j k decls"
    using chain_restrict [OF g(3)] s g(6) by (simp add: gnode_def tree_decls_def)
  moreover have "gram T G_MODULE 0 i x" using g(1) m by simp
  ultimately show "spec_program T n" using g(2,4-6) unfolding spec_program_def m by blast
qed

text \<open>C1: with status \<open>PARSE_OK\<close> the program is the syntax tree of the whole token stream in the grammar
  that the parser accepts: every token is accounted for, binary operators associate to the left by
  their levels, and each node spans exactly its tokens. It is a program of the specification's
  grammar (section 5.2) exactly if the stream begins with \<open>module\<close> and every enum has a member; in
  these two ways, and in no other, the parser accepts more.\<close>

theorem parse_sound:
  assumes "toks \<noteq> []" and "tok_val (last toks) = V_EOF"
    and "parse_program qs toks = Some (PARSE_OK, p, recs)"
  shows "\<exists>n. p = Some n \<and> gprogram (stream_file toks, toks) n \<and>
    (spec_program (stream_file toks, toks) n \<longleftrightarrow>
       tok_val (hd toks) = V_KEYWORD KW_MODULE \<and> (\<forall>d \<in> set (tree_decls n). \<not> memberless_enum d))"
proof -
  obtain n c where c: "parse_all (parse_ctx_init toks) = Some (Some n, c)"
    and g: "px_records c = [] \<Longrightarrow> gprogram (stream_file toks, toks) n"
    using parse_all_run [OF assms(1,2)] by blast
  have "p = Some n \<and> gprogram (stream_file toks, toks) n"
    using assms(3) c g by (auto simp: parse_program_def Let_def split: if_splits)
  moreover have "tokv (stream_file toks, toks) 0 = tok_val (hd toks)"
    using assms(1) by (simp add: tokv_def hd_conv_nth)
  ultimately show ?thesis using spec_program_iff by simp
qed

text \<open>\<open>module m; var x: i32 = 1 + 2;\<close>\<close>

definition demo_program :: "lex_token list" where
  "demo_program = map demo_tok
     [V_KEYWORD KW_MODULE, V_IDENT ''m'', V_PUNCT PUNCT_SEMI,
      V_KEYWORD KW_VAR, V_IDENT ''x'', V_PUNCT PUNCT_COLON, V_KEYWORD KW_I32, V_PUNCT PUNCT_ASSIGN,
      V_INT LEX_INT_I32 1 False, V_PUNCT PUNCT_PLUS, V_INT LEX_INT_I32 2 False, V_PUNCT PUNCT_SEMI, V_EOF]"

lemma demo_program_ok:
  "case parse_program insertion_sort demo_program of
     Some (st, Some n, recs) \<Rightarrow> st = PARSE_OK \<and> recs = [] \<and> list_all (\<lambda>d. \<not> memberless_enum d) (tree_decls n)
   | _ \<Rightarrow> False"
  by code_simp (simp add: memberless_enum_def)

lemma parse_sound_witness:
  "\<exists>n. parse_program insertion_sort demo_program = Some (PARSE_OK, Some n, []) \<and>
     gprogram (stream_file demo_program, demo_program) n \<and> spec_program (stream_file demo_program, demo_program) n"
proof -
  obtain n where r: "parse_program insertion_sort demo_program = Some (PARSE_OK, Some n, [])"
    and e: "\<forall>d \<in> set (tree_decls n). \<not> memberless_enum d"
    using demo_program_ok
    by (auto simp: list_all_iff split: option.splits prod.splits)
  have "demo_program \<noteq> []" "tok_val (last demo_program) = V_EOF" "tok_val (hd demo_program) = V_KEYWORD KW_MODULE"
    by (simp_all add: demo_program_def demo_tok_def)
  with parse_sound [OF this(1,2) r] r e show ?thesis by blast
qed

lemma recovery_marks:
  assumes "recs_ok T rs" and "rs \<noteq> []"
  shows "rec_recovery (hd rs) = Some ''authoritative''"
    and "\<forall>r \<in> set (tl rs). rec_recovery r = Some ''recovery_derived''"
proof -
  have r: "rec_recovery (rs ! i) = Some (if 0 < i then ''recovery_derived'' else ''authoritative'')" if "i < length rs" for i
    using assms(1) that by (fastforce simp: recs_ok_def syn_record_def)
  show "rec_recovery (hd rs) = Some ''authoritative''" using r [of 0] assms(2) by (simp add: hd_conv_nth)
  show "\<forall>r \<in> set (tl rs). rec_recovery r = Some ''recovery_derived''"
    using r [of "Suc i" for i] by (force simp: in_set_conv_nth nth_tl)
qed

text \<open>C14: with status \<open>PARSE_DIAG_ERROR\<close> the result holds the records of the run, each once, sorted
  for emission. In the order in which the run reported them, the first is authoritative and all
  others are marked as derived from the recovery; each is a valid syntax error of the registered codes at
  a span of the stream's tokens (or at the gap before its end).\<close>

theorem parse_errors:
  assumes "toks \<noteq> []" and "tok_val (last toks) = V_EOF" and "c_qsort qs"
    and "parse_program qs toks = Some (PARSE_DIAG_ERROR, p, recs)"
  shows "\<exists>c. parse_all (parse_ctx_init toks) = Some (p, c) \<and> px_records c \<noteq> [] \<and>
    recs_ok (stream_file toks, toks) (px_records c) \<and>
    rec_recovery (hd (px_records c)) = Some ''authoritative'' \<and>
    (\<forall>r \<in> set (tl (px_records c)). rec_recovery r = Some ''recovery_derived'') \<and>
    (\<forall>r \<in> set (px_records c). diag_record_validate r = None) \<and>
    mset recs = mset (map Some (px_records c)) \<and> cmp_sorted diag_record_compare recs"
proof -
  obtain n c where c: "parse_all (parse_ctx_init toks) = Some (Some n, c)"
    and rs: "recs_ok (stream_file toks, toks) (px_records c)"
    using parse_all_run [OF assms(1,2)] by blast
  with assms(4) have ne: "px_records c \<noteq> []" and p: "p = Some n"
    and recs: "recs = the (diag_sort_records qs (Some (map Some (px_records c))))"
    by (auto simp: parse_program_def Let_def split: if_splits)
  have "diag_record_validate r = None" if "r \<in> set (px_records c)" for r
    using rs that syn_record_valid by (fastforce simp: recs_ok_def in_set_conv_nth)
  moreover note recovery_marks [OF rs ne]
  ultimately show ?thesis using c p ne rs sort_result [OF assms(3) recs] by blast
qed

lemma parse_errors_witness:
  "\<exists>p recs. parse_program insertion_sort demo_block = Some (PARSE_DIAG_ERROR, p, recs) \<and>
     cmp_sorted diag_record_compare recs"
proof -
  have "case parse_program insertion_sort demo_block of Some (PARSE_DIAG_ERROR, _, _) \<Rightarrow> True | _ \<Rightarrow> False"
    by code_simp
  then obtain p recs where r: "parse_program insertion_sort demo_block = Some (PARSE_DIAG_ERROR, p, recs)"
    by (auto split: option.splits prod.splits parse_status.splits)
  with parse_errors [OF _ _ insertion_sort.c_qsort_axioms r] show ?thesis
    by (auto simp: demo_block_def demo_tok_def)
qed

section \<open>The lexer and the parser\<close>

lemma eof_token_val [simp]: "tok_val (eof_token src) = V_EOF"
  by (simp add: eof_token_def make_token_def)

lemma span_range_file: "load_span_range src b e = Some sp \<Longrightarrow> span_file sp = src_file src"
  by (auto simp: load_span_range_def diag_span_new_range_def split: if_splits prod.splits)

lemma token_chain_file:
  assumes "token_chain src 0 ts (length (src_text src))"
  shows "stream_file (ts @ [eof_token src]) = src_file src"
proof -
  have "\<exists>b e. tok_span ((ts @ [eof_token src]) ! 0) = load_span_range src (int b) (int e) \<and> b \<le> e \<and> e \<le> length (src_text src)"
  proof (cases ts)
    case Nil
    then show ?thesis by (auto simp: eof_token_def make_token_def)
  next
    case (Cons t ts')
    with assms show ?thesis by (auto simp: tok_at_def intro: less_imp_le)
  qed
  then obtain b e where s: "tok_span ((ts @ [eof_token src]) ! 0) = load_span_range src (int b) (int e)"
    and "b \<le> e" "e \<le> length (src_text src)" by blast
  then obtain sp where "load_span_range src (int b) (int e) = Some sp"
    by (auto simp: load_span_range_def split: prod.splits)
  with s span_range_file [OF this] show ?thesis by (simp add: stream_file_def)
qed

text \<open>C7: on every source, whatever its bytes, lexing and then parsing the tokens returns, with a
  program node. The tokens are the text's, and on a stream without syntax errors the node is their
  tree in the grammar, with spans in the source file.\<close>

theorem front_end_total:
  "\<exists>ts st p recs.
     (lex_tokenize qs src = LEX_OK (ts @ [eof_token src]) \<or>
      (\<exists>lrecs. lex_tokenize qs src = LEX_DIAG_ERROR (ts @ [eof_token src]) lrecs)) \<and>
     token_chain src 0 ts (length (src_text src)) \<and>
     parse_program qs (ts @ [eof_token src]) = Some (st, Some p, recs) \<and>
     (st = PARSE_DIAG_ERROR \<or> gprogram (src_file src, ts @ [eof_token src]) p)"
proof -
  obtain ts where ts: "token_chain src 0 ts (length (src_text src))"
    and lex: "lex_tokenize qs src = LEX_OK (ts @ [eof_token src]) \<or>
      (\<exists>lrecs. lex_tokenize qs src = LEX_DIAG_ERROR (ts @ [eof_token src]) lrecs)"
    using lex_tokenize_run [of src] by (auto simp: lex_tokenize_def Let_def)
  let ?toks = "ts @ [eof_token src]"
  obtain p c where c: "parse_all (parse_ctx_init ?toks) = Some (Some p, c)"
    and g: "px_records c = [] \<Longrightarrow> gprogram (src_file src, ?toks) p"
    by (rule parse_all_run [of ?toks]) (simp_all add: token_chain_file [OF ts])
  have "\<exists>st recs. parse_program qs ?toks = Some (st, Some p, recs) \<and>
      (st = PARSE_DIAG_ERROR \<or> gprogram (src_file src, ?toks) p)"
    using c g by (cases "px_records c = []") (simp_all add: parse_program_def Let_def)
  with lex ts show ?thesis by blast
qed

end
