(* ===== verification/Layout.thy ===== *)
theory Layout
  imports Types
begin

text \<open>
  Struct and enum layout (\<open>bootstrap/src/types/layout.c\<close>): the bounded constant evaluator used for
  array extents and member values, sizes and alignments of types, field offsets and padding, member
  values with implicit continuation and the representability check, and the two phases of a build.
  A 64-bit integer of the C code is an \<open>int\<close>, its wrap-around casts are written out.
\<close>

section \<open>Bounded constant evaluation\<close>

fun lex_int_width :: "lex_int_type \<Rightarrow> nat" where
  "lex_int_width LEX_INT_I8 = 8"
| "lex_int_width LEX_INT_U8 = 8"
| "lex_int_width LEX_INT_I16 = 16"
| "lex_int_width LEX_INT_U16 = 16"
| "lex_int_width LEX_INT_I32 = 32"
| "lex_int_width LEX_INT_U32 = 32"
| "lex_int_width _ = 64"

fun lex_int_signed :: "lex_int_type \<Rightarrow> bool" where
  "lex_int_signed LEX_INT_I8 = True"
| "lex_int_signed LEX_INT_I16 = True"
| "lex_int_signed LEX_INT_I32 = True"
| "lex_int_signed LEX_INT_I64 = True"
| "lex_int_signed LEX_INT_ISIZE = True"
| "lex_int_signed _ = False"

text \<open>\<open>None\<close> is the overflow result.\<close>

definition i64_add_ovf :: "int \<Rightarrow> int \<Rightarrow> int option" where
  "i64_add_ovf a b =
     (if b > 0 \<and> a > INT64_MAX - b then None
      else if b < 0 \<and> a < INT64_MIN - b then None
      else Some (a + b))"

definition i64_sub_ovf :: "int \<Rightarrow> int \<Rightarrow> int option" where
  "i64_sub_ovf a b =
     (if b < 0 \<and> a > INT64_MAX + b then None
      else if b > 0 \<and> a < INT64_MIN + b then None
      else Some (a - b))"

definition i64_mul_ovf :: "int \<Rightarrow> int \<Rightarrow> int option" where
  "i64_mul_ovf a b =
     (if a = 0 \<or> b = 0 then Some 0
      else if a = -1 then (if b = INT64_MIN then None else Some (- b))
      else if b = -1 then (if a = INT64_MIN then None else Some (- a))
      else if a > 0 then
        (if b > 0 then (if a > c_div INT64_MAX b then None else Some (a * b))
         else (if b < c_div INT64_MIN a then None else Some (a * b)))
      else
        (if b > 0 then (if a < c_div INT64_MIN b then None else Some (a * b))
         else (if b < c_div INT64_MAX a then None else Some (a * b))))"

definition i64_ashr :: "int \<Rightarrow> nat \<Rightarrow> int" where
  "i64_ashr a b = (if a \<ge> 0 then a div 2 ^ b else NOT ((NOT a) div 2 ^ b))"

datatype layout_eval_status =
    LAYOUT_EVAL_UNEVALUABLE | LAYOUT_EVAL_OVERFLOW | LAYOUT_EVAL_DIV_ZERO | LAYOUT_EVAL_SHIFT_RANGE

record layout_eval_value =
  lev_v :: int
  lev_big :: bool

abbreviation lev :: "int \<Rightarrow> layout_eval_value" where
  "lev n \<equiv> \<lparr>lev_v = n, lev_big = False\<rparr>"

definition eval_literal :: "lex_int_type \<Rightarrow> nat \<Rightarrow> bool \<Rightarrow> layout_eval_value" where
  "eval_literal t mag is_min =
     (if is_min then
        (let w = lex_int_width t in if w \<ge> 64 then lev INT64_MIN else lev (- (2 ^ (w - 1))))
      else if lex_int_signed t then lev (to_i64 (int mag))
      else if int mag > INT64_MAX then \<lparr>lev_v = to_i64 (int mag), lev_big = True\<rparr>
      else lev (to_i64 (int mag)))"

definition or_overflow :: "int option \<Rightarrow> layout_eval_status + layout_eval_value" where
  "or_overflow r = (case r of None \<Rightarrow> Inl LAYOUT_EVAL_OVERFLOW | Some n \<Rightarrow> Inr (lev n))"

definition eval_shl :: "int \<Rightarrow> int \<Rightarrow> layout_eval_status + layout_eval_value" where
  "eval_shl a b =
     (if b < 0 \<or> b \<ge> 64 then Inl LAYOUT_EVAL_SHIFT_RANGE
      else if b = 0 then Inr (lev a)
      else if a > 0 \<and> a > INT64_MAX div 2 ^ nat b then Inl LAYOUT_EVAL_OVERFLOW
      else if a < 0 \<and> a < - (2 ^ nat (63 - b)) then Inl LAYOUT_EVAL_OVERFLOW
      else Inr (lev (to_i64 (to_u64 (to_u64 a * 2 ^ nat b)))))"

definition eval_binary :: "ast_binary_op \<Rightarrow> int \<Rightarrow> int \<Rightarrow> layout_eval_status + layout_eval_value" where
  "eval_binary op a b =
     (case op of
        AST_BIN_ADD \<Rightarrow> or_overflow (i64_add_ovf a b)
      | AST_BIN_SUB \<Rightarrow> or_overflow (i64_sub_ovf a b)
      | AST_BIN_MUL \<Rightarrow> or_overflow (i64_mul_ovf a b)
      | AST_BIN_DIV \<Rightarrow>
          (if b = 0 then Inl LAYOUT_EVAL_DIV_ZERO
           else if a = INT64_MIN \<and> b = -1 then Inl LAYOUT_EVAL_OVERFLOW
           else Inr (lev (c_div a b)))
      | AST_BIN_MOD \<Rightarrow>
          (if b = 0 then Inl LAYOUT_EVAL_DIV_ZERO
           else Inr (lev (if a = INT64_MIN \<and> b = -1 then 0 else c_mod a b)))
      | AST_BIN_SHL \<Rightarrow> eval_shl a b
      | AST_BIN_SHR \<Rightarrow>
          (if b < 0 \<or> b \<ge> 64 then Inl LAYOUT_EVAL_SHIFT_RANGE else Inr (lev (i64_ashr a (nat b))))
      | AST_BIN_BAND \<Rightarrow> Inr (lev (a AND b))
      | AST_BIN_BXOR \<Rightarrow> Inr (lev (a XOR b))
      | AST_BIN_BOR \<Rightarrow> Inr (lev (a OR b))
      | _ \<Rightarrow> Inl LAYOUT_EVAL_UNEVALUABLE)"

definition is_min_literal :: "ast_node \<Rightarrow> bool" where
  "is_min_literal e = (case nbody e of AST_EXPR_INT_LITERAL _ _ is_min \<Rightarrow> is_min | _ \<Rightarrow> False)"

function layout_eval_int_expr :: "ast_node \<Rightarrow> layout_eval_status + layout_eval_value" where
  "layout_eval_int_expr e =
     (case nbody e of
        AST_EXPR_INT_LITERAL t mag is_min \<Rightarrow> Inr (eval_literal t mag is_min)
      | AST_EXPR_PAREN x \<Rightarrow> layout_eval_int_expr x
      | AST_EXPR_UNARY op x \<Rightarrow>
          (case op of
             AST_UN_PLUS \<Rightarrow> layout_eval_int_expr x
           | AST_UN_NEG \<Rightarrow>
               (if is_min_literal x then layout_eval_int_expr x
                else
                  case layout_eval_int_expr x of
                    Inl st \<Rightarrow> Inl st
                  | Inr a \<Rightarrow>
                      if lev_big a \<or> lev_v a = INT64_MIN then Inl LAYOUT_EVAL_OVERFLOW
                      else Inr (lev (- lev_v a)))
           | AST_UN_BNOT \<Rightarrow>
               (case layout_eval_int_expr x of
                  Inl st \<Rightarrow> Inl st
                | Inr a \<Rightarrow>
                    if lev_big a then Inl LAYOUT_EVAL_OVERFLOW else Inr (lev (NOT (lev_v a))))
           | _ \<Rightarrow> Inl LAYOUT_EVAL_UNEVALUABLE)
      | AST_EXPR_BINARY op l r \<Rightarrow>
          (case layout_eval_int_expr l of
             Inl st \<Rightarrow> Inl st
           | Inr a \<Rightarrow>
               (case layout_eval_int_expr r of
                  Inl st \<Rightarrow> Inl st
                | Inr b \<Rightarrow>
                    if lev_big a \<or> lev_big b then Inl LAYOUT_EVAL_OVERFLOW
                    else eval_binary op (lev_v a) (lev_v b)))
      | _ \<Rightarrow> Inl LAYOUT_EVAL_UNEVALUABLE)"
  by pat_completeness auto
termination
proof (relation "measure size", goal_cases)
  case 1 show ?case by simp
qed (simp_all add: node_size)

declare layout_eval_int_expr.simps [simp del]


section \<open>The tables of a build\<close>

record layout_size_align =
  lsa_size :: int
  lsa_align :: int

record layout_pad_range =
  pr_offset :: int
  pr_length :: int

record layout_field =
  lf_name :: string
  lf_offset :: int
  lf_type :: layout_size_align
  lf_pad_before :: int

record layout_struct =
  ls_size :: int
  ls_align :: int
  ls_fields :: "layout_field list"
  ls_tail_padding :: int

record layout_enum_member =
  lem_name :: string
  lem_value :: int
  lem_has_explicit :: bool
  lem_big_unsigned :: bool
  lem_domain_overflow :: bool

record layout_enum =
  le_underlying :: layout_size_align
  le_size :: int
  le_align :: int
  le_members :: "layout_enum_member list"

record layout_build =
  lb_structs :: "(sym_ref \<times> layout_struct) list"
  lb_enums :: "(sym_ref \<times> layout_enum) list"
  lb_struct_unevaluable :: "sym_ref list"
  lb_enum_unevaluable :: "sym_ref list"

datatype layout_status =
    LAYOUT_OK | LAYOUT_DIAG_ERROR | LAYOUT_UNEVALUABLE | LAYOUT_UNSUPPORTED | LAYOUT_OOM

record layout_ctx =
  lc_build :: layout_build
  lc_records :: "diag_record list"
  lc_oom :: bool
  lc_unevaluable :: bool

definition build_push_struct :: "layout_build \<Rightarrow> sym_ref \<Rightarrow> layout_struct \<Rightarrow> layout_build" where
  "build_push_struct b sy l = b\<lparr>lb_structs := lb_structs b @ [(sy, l)]\<rparr>"

definition build_push_enum :: "layout_build \<Rightarrow> sym_ref \<Rightarrow> layout_enum \<Rightarrow> layout_build" where
  "build_push_enum b sy l = b\<lparr>lb_enums := lb_enums b @ [(sy, l)]\<rparr>"

definition build_mark_struct_unevaluable :: "layout_build \<Rightarrow> sym_ref \<Rightarrow> layout_build" where
  "build_mark_struct_unevaluable b sy = b\<lparr>lb_struct_unevaluable := lb_struct_unevaluable b @ [sy]\<rparr>"

definition build_mark_enum_unevaluable :: "layout_build \<Rightarrow> sym_ref \<Rightarrow> layout_build" where
  "build_mark_enum_unevaluable b sy = b\<lparr>lb_enum_unevaluable := lb_enum_unevaluable b @ [sy]\<rparr>"

definition build_struct_unevaluable :: "layout_build \<Rightarrow> sym_ref \<Rightarrow> bool" where
  "build_struct_unevaluable b sy \<longleftrightarrow> sy \<in> set (lb_struct_unevaluable b)"

definition build_enum_unevaluable :: "layout_build \<Rightarrow> sym_ref \<Rightarrow> bool" where
  "build_enum_unevaluable b sy \<longleftrightarrow> sy \<in> set (lb_enum_unevaluable b)"

text \<open>First matches in the parallel arrays.\<close>

definition layout_build_struct :: "layout_build \<Rightarrow> sym_ref \<Rightarrow> layout_struct option" where
  "layout_build_struct b sy = map_of (lb_structs b) sy"

definition layout_build_enum :: "layout_build \<Rightarrow> sym_ref \<Rightarrow> layout_enum option" where
  "layout_build_enum b sy = map_of (lb_enums b) sy"

section \<open>Size and alignment of a type\<close>

text \<open>\<open>None\<close> is the overflow flag.\<close>

definition align_up :: "int \<Rightarrow> int \<Rightarrow> int option" where
  "align_up value al =
     (if al \<le> 1 then Some value
      else
        let pad = al - 1
        in if value > INT64_MAX - pad then None else Some (c_div (value + pad) al * al))"

definition size_align :: "int \<Rightarrow> int \<Rightarrow> layout_size_align" where
  "size_align s a = \<lparr>lsa_size = s, lsa_align = a\<rparr>"

text \<open>A named type, resolved through the build tables.\<close>

definition named_type_info ::
  "name_result \<Rightarrow> name_module \<Rightarrow> ast_node \<Rightarrow> layout_ctx \<Rightarrow> (layout_status + layout_size_align) \<times> layout_ctx" where
  "named_type_info nr m ty c =
     (case name_symbol_for_node m ty of
        None \<Rightarrow> (Inl LAYOUT_UNSUPPORTED, c)
      | Some sy \<Rightarrow>
          (case sym_kind (sym_at nr sy) of
             NAME_SYM_STRUCT \<Rightarrow>
               (case layout_build_struct (lc_build c) sy of
                  None \<Rightarrow>
                    if build_struct_unevaluable (lc_build c) sy
                    then (Inl LAYOUT_UNEVALUABLE, c\<lparr>lc_unevaluable := True\<rparr>)
                    else (Inl LAYOUT_UNSUPPORTED, c)
                | Some l \<Rightarrow> (Inr (size_align (ls_size l) (ls_align l)), c))
           | NAME_SYM_ENUM \<Rightarrow>
               (case layout_build_enum (lc_build c) sy of
                  None \<Rightarrow>
                    if build_enum_unevaluable (lc_build c) sy
                    then (Inl LAYOUT_UNEVALUABLE, c\<lparr>lc_unevaluable := True\<rparr>)
                    else (Inl LAYOUT_UNSUPPORTED, c)
                | Some l \<Rightarrow> (Inr (size_align (le_size l) (le_align l)), c))
           | _ \<Rightarrow> (Inl LAYOUT_UNSUPPORTED, c)))"

definition array_info ::
  "layout_size_align \<Rightarrow> ast_node \<Rightarrow> layout_ctx \<Rightarrow> (layout_status + layout_size_align) \<times> layout_ctx" where
  "array_info e len c =
     (case layout_eval_int_expr len of
        Inl _ \<Rightarrow> (Inl LAYOUT_UNEVALUABLE, c\<lparr>lc_unevaluable := True\<rparr>)
      | Inr ev \<Rightarrow>
          if lev_big ev \<or> lev_v ev < 0 then (Inl LAYOUT_UNEVALUABLE, c\<lparr>lc_unevaluable := True\<rparr>)
          else if lsa_size e \<noteq> 0 \<and> lev_v ev > c_div INT64_MAX (lsa_size e) then (Inl LAYOUT_UNSUPPORTED, c)
          else (Inr (size_align (lsa_size e * lev_v ev) (lsa_align e)), c))"

function type_info ::
  "name_result \<Rightarrow> name_module \<Rightarrow> ast_node \<Rightarrow> layout_ctx \<Rightarrow> (layout_status + layout_size_align) \<times> layout_ctx" where
  "type_info nr m ty c =
     (case nbody ty of
        AST_TYPE_PRIM p \<Rightarrow>
          (case types_prim_info p of
             None \<Rightarrow> (Inl LAYOUT_UNSUPPORTED, c)
           | Some i \<Rightarrow> (Inr (size_align (tp_size_bytes i) (tp_align_bytes i)), c))
      | AST_TYPE_NAMED _ \<Rightarrow> named_type_info nr m ty c
      | AST_TYPE_PTR _ \<Rightarrow> (Inr (size_align 8 8), c)
      | AST_TYPE_SLICE _ \<Rightarrow> (Inr (size_align 16 8), c)
      | AST_TYPE_ARRAY base len \<Rightarrow>
          (case type_info nr m base c of
             (Inl st, c') \<Rightarrow> (Inl st, c')
           | (Inr e, c') \<Rightarrow> array_info e len c')
      | _ \<Rightarrow> (Inl LAYOUT_UNSUPPORTED, c))"
  by pat_completeness auto
termination
proof (relation "measure (\<lambda>(nr, m, ty, c). size ty)", goal_cases)
  case 1 show ?case by simp
qed (simp_all add: node_size)

declare type_info.simps [simp del]

definition layout_ctx_for :: "layout_build \<Rightarrow> layout_ctx" where
  "layout_ctx_for b = \<lparr>lc_build = b, lc_records = [], lc_oom = False, lc_unevaluable = False\<rparr>"

definition layout_build_type_info ::
  "layout_build \<Rightarrow> name_result \<Rightarrow> name_module \<Rightarrow> ast_node \<Rightarrow> layout_status + layout_size_align" where
  "layout_build_type_info b nr m ty = fst (type_info nr m ty (layout_ctx_for b))"

section \<open>Struct layout\<close>

text \<open>One field behind the bytes laid out so far: the field, and the new end.\<close>

definition place_field :: "string \<Rightarrow> layout_size_align \<Rightarrow> int \<Rightarrow> (layout_field \<times> int) option" where
  "place_field name ta end =
     (case align_up end (lsa_align ta) of
        None \<Rightarrow> None
      | Some offset \<Rightarrow>
          if lsa_size ta > INT64_MAX - offset then None
          else Some (\<lparr>lf_name = name, lf_offset = offset, lf_type = ta, lf_pad_before = offset - end\<rparr>,
                     offset + lsa_size ta))"

fun place_fields ::
  "name_result \<Rightarrow> name_module \<Rightarrow> (string \<times> ast_node) list \<Rightarrow> int \<Rightarrow> int \<Rightarrow> layout_ctx
     \<Rightarrow> (layout_status + layout_field list \<times> int \<times> int) \<times> layout_ctx" where
  "place_fields nr m [] end al c = (Inr ([], end, al), c)"
| "place_fields nr m (f # fs) end al c =
     (case type_info nr m (snd f) c of
        (Inl st, c1) \<Rightarrow> (Inl st, c1)
      | (Inr ta, c1) \<Rightarrow>
          (case place_field (fst f) ta end of
             None \<Rightarrow> (Inl LAYOUT_UNSUPPORTED, c1)
           | Some (lf, end1) \<Rightarrow>
               (case place_fields nr m fs end1 (if lsa_align ta > al then lsa_align ta else al) c1 of
                  (Inl st, c2) \<Rightarrow> (Inl st, c2)
                | (Inr (lfs, end2, al2), c2) \<Rightarrow> (Inr (lf # lfs, end2, al2), c2))))"

definition finish_struct :: "layout_field list \<Rightarrow> int \<Rightarrow> int \<Rightarrow> layout_struct option" where
  "finish_struct lfs end al =
     (case align_up end al of
        None \<Rightarrow> None
      | Some sz \<Rightarrow> Some \<lparr>ls_size = sz, ls_align = al, ls_fields = lfs, ls_tail_padding = sz - end\<rparr>)"

definition compute_struct ::
  "name_result \<Rightarrow> name_module \<Rightarrow> ast_node \<Rightarrow> layout_ctx \<Rightarrow> (layout_status + layout_struct) \<times> layout_ctx" where
  "compute_struct nr m decl c =
     (case place_fields nr m (struct_fields decl) 0 1 c of
        (Inl st, c1) \<Rightarrow> (Inl st, c1)
      | (Inr (lfs, end, al), c1) \<Rightarrow>
          (case finish_struct lfs end al of
             None \<Rightarrow> (Inl LAYOUT_UNSUPPORTED, c1)
           | Some l \<Rightarrow> (Inr l, c1)))"

definition pad_ranges :: "layout_struct \<Rightarrow> layout_pad_range list" where
  "pad_ranges l =
     List.map_filter
       (\<lambda>f. if lf_pad_before f > 0
             then Some \<lparr>pr_offset = lf_offset f - lf_pad_before f, pr_length = lf_pad_before f\<rparr> else None)
       (ls_fields l) @
     (if ls_tail_padding l > 0
      then [\<lparr>pr_offset = ls_size l - ls_tail_padding l, pr_length = ls_tail_padding l\<rparr>] else [])"

text \<open>The number of padding ranges and the first \<open>cap\<close> of them, which a caller's array receives.\<close>

definition layout_struct_padding :: "layout_struct option \<Rightarrow> nat \<Rightarrow> nat \<times> layout_pad_range list" where
  "layout_struct_padding l cap =
     (case l of None \<Rightarrow> (0, []) | Some x \<Rightarrow> (length (pad_ranges x), take cap (pad_ranges x)))"


section \<open>Enum layout\<close>

text \<open>\<open>(lo, hi, unsigned hi, is_signed)\<close>; the width of an integer type is at least 8.\<close>

definition int_range :: "type_prim_info \<Rightarrow> int \<times> int \<times> int \<times> bool" where
  "int_range p =
     (let umax = (if tp_width_bits p \<ge> 64 then UINT64_MAX else 2 ^ tp_width_bits p - 1)
      in (to_i64 (to_u64 (UINT64_MAX - 2 ^ (tp_width_bits p - 1) + 1)), to_i64 (umax div 2), umax, tp_is_signed p))"

definition member_representable :: "layout_enum_member \<Rightarrow> type_prim_info \<Rightarrow> bool" where
  "member_representable mm p =
     (if lem_domain_overflow mm then False
      else
        case int_range p of
          (lo, hi, uhi, is_signed) \<Rightarrow>
            if is_signed then
              (if lem_big_unsigned mm then False else lo \<le> lem_value mm \<and> lem_value mm \<le> hi)
            else if lem_big_unsigned mm then to_u64 (lem_value mm) \<le> uhi
            else 0 \<le> lem_value mm \<and> to_u64 (lem_value mm) \<le> uhi)"

definition render_member_value :: "layout_enum_member \<Rightarrow> string" where
  "render_member_value mm =
     (if lem_domain_overflow mm then ''18446744073709551616''
      else if lem_big_unsigned mm then int_text (to_u64 (lem_value mm))
      else int_text (lem_value mm))"

definition member_value_node :: "ast_node \<Rightarrow> ast_node option" where
  "member_value_node member = (case nbody member of AST_ENUM_MEMBER _ v \<Rightarrow> v | _ \<Rightarrow> None)"

definition member_name :: "ast_node \<Rightarrow> string" where
  "member_name member = (case nbody member of AST_ENUM_MEMBER n _ \<Rightarrow> n | _ \<Rightarrow> [])"

text \<open>A message written with \<open>snprintf\<close> into 192 bytes.\<close>

definition unrepresentable_msg :: "layout_enum_member \<Rightarrow> type_prim_info \<Rightarrow> string" where
  "unrepresentable_msg mm p =
     take 191 (''enum member value '' @ render_member_value mm @
       '' is not representable in underlying type '' @ tp_name p)"

definition emit_t0301 :: "layout_ctx \<Rightarrow> ast_node \<Rightarrow> layout_enum_member \<Rightarrow> type_prim_info \<Rightarrow> layout_ctx" where
  "emit_t0301 c member mm p =
     (let span = (case member_value_node member of Some v \<Rightarrow> nspan v | None \<Rightarrow> nspan member)
      in case new_type_record ''AIC-T0301'' (unrepresentable_msg mm p) (Some span) of
           None \<Rightarrow> c\<lparr>lc_oom := True\<rparr>
         | Some r \<Rightarrow> c\<lparr>lc_records := lc_records c @ [r]\<rparr>)"

text \<open>The value the next implicit member continues from.\<close>

record enum_prev =
  ep_prev :: int
  ep_big :: bool
  ep_overflow :: bool
  ep_valid :: bool

definition enum_prev_init :: enum_prev where
  "enum_prev_init = \<lparr>ep_prev = 0, ep_big = False, ep_overflow = False, ep_valid = True\<rparr>"

definition enum_member :: "string \<Rightarrow> int \<Rightarrow> bool \<Rightarrow> bool \<Rightarrow> bool \<Rightarrow> layout_enum_member" where
  "enum_member name v explicit big ovf =
     \<lparr>lem_name = name, lem_value = v, lem_has_explicit = explicit, lem_big_unsigned = big,
      lem_domain_overflow = ovf\<rparr>"

text \<open>The value of one member: \<open>None\<close> where the value cannot be known (the \<open>continue\<close> branches).\<close>

definition member_value ::
  "bool \<Rightarrow> ast_node \<Rightarrow> enum_prev \<Rightarrow> layout_enum_member option \<times> enum_prev" where
  "member_value first member ep =
     (let name = member_name member in
      case member_value_node member of
        Some e \<Rightarrow>
          (case layout_eval_int_expr e of
             Inl _ \<Rightarrow> (None, ep\<lparr>ep_valid := False\<rparr>)
           | Inr ev \<Rightarrow>
               (Some (enum_member name (lev_v ev) True (lev_big ev) False),
                \<lparr>ep_prev = lev_v ev, ep_big = lev_big ev, ep_overflow = False, ep_valid = True\<rparr>))
      | None \<Rightarrow>
          if first then (Some (enum_member name 0 False False False), enum_prev_init)
          else if \<not> ep_valid ep then (None, ep)
          else if ep_overflow ep then (Some (enum_member name 0 False False True), ep)
          else if ep_big ep then
            (if to_u64 (ep_prev ep) = UINT64_MAX
             then (Some (enum_member name 0 False False True), ep\<lparr>ep_overflow := True\<rparr>)
             else (Some (enum_member name (ep_prev ep + 1) False True False), ep\<lparr>ep_prev := ep_prev ep + 1\<rparr>))
          else if ep_prev ep = INT64_MAX then
            (Some (enum_member name INT64_MIN False True False), ep\<lparr>ep_prev := INT64_MIN, ep_big := True\<rparr>)
          else (Some (enum_member name (ep_prev ep + 1) False False False), ep\<lparr>ep_prev := ep_prev ep + 1\<rparr>))"

fun enum_members ::
  "type_prim_info \<Rightarrow> bool \<Rightarrow> ast_node list \<Rightarrow> enum_prev \<Rightarrow> layout_ctx
     \<Rightarrow> (layout_status + layout_enum_member list) \<times> layout_ctx" where
  "enum_members p first [] ep c = (Inr [], c)"
| "enum_members p first (m # ms) ep c =
     (case member_value first m ep of
        (v, ep1) \<Rightarrow>
          (let mm = (case v of None \<Rightarrow> enum_member (member_name m) 0 False False False | Some x \<Rightarrow> x);
               c1 = (case v of
                       None \<Rightarrow> c\<lparr>lc_unevaluable := True\<rparr>
                     | Some x \<Rightarrow> if member_representable x p then c else emit_t0301 c m x p)
           in if v \<noteq> None \<and> \<not> member_representable mm p \<and> lc_oom c1 then (Inl LAYOUT_OOM, c1)
              else
                case enum_members p False ms ep1 c1 of
                  (Inl st, c2) \<Rightarrow> (Inl st, c2)
                | (Inr mms, c2) \<Rightarrow> (Inr (mm # mms), c2)))"

definition enum_parts :: "ast_node \<Rightarrow> ast_prim option \<times> ast_node list" where
  "enum_parts decl =
     (case nbody decl of
        AST_ENUM_DECL _ underlying ms _ \<Rightarrow> ((case nbody underlying of AST_TYPE_PRIM p \<Rightarrow> Some p | _ \<Rightarrow> None), ms)
      | _ \<Rightarrow> (None, []))"

definition compute_enum ::
  "ast_node \<Rightarrow> layout_ctx \<Rightarrow> (layout_status + layout_enum) \<times> layout_ctx" where
  "compute_enum decl c =
     (case enum_parts decl of
        (None, ms) \<Rightarrow> (Inl LAYOUT_UNSUPPORTED, c)
      | (Some prim, ms) \<Rightarrow>
          (case types_prim_info prim of
             None \<Rightarrow> (Inl LAYOUT_UNSUPPORTED, c)
           | Some p \<Rightarrow>
               if \<not> tp_is_integer p then (Inl LAYOUT_UNSUPPORTED, c)
               else
                 case enum_members p True ms enum_prev_init c of
                   (Inl st, c1) \<Rightarrow> (Inl st, c1)
                 | (Inr mms, c1) \<Rightarrow>
                     if lc_unevaluable c1 \<noteq> lc_unevaluable c then (Inl LAYOUT_UNEVALUABLE, c1)
                     else
                       (Inr \<lparr>le_underlying = size_align (tp_size_bytes p) (tp_align_bytes p),
                             le_size = tp_size_bytes p, le_align = tp_align_bytes p, le_members = mms\<rparr>, c1)))"

section \<open>The build\<close>

text \<open>The declarations of a build in the order of both phases.\<close>

definition build_decls :: "name_result \<Rightarrow> (name_module \<times> ast_node) list" where
  "build_decls nr = concat (map (\<lambda>m. map (Pair m) (program_decls (mod_program m))) (nr_modules nr))"

text \<open>One declaration of a phase: \<open>Inl\<close> leaves through the labels \<open>unsupported\<close> and \<open>oom\<close>; the flag
  remembers that some layout was skipped (\<open>worst\<close>).\<close>

definition enum_decl_step ::
  "name_result \<Rightarrow> name_module \<times> ast_node \<Rightarrow> layout_ctx \<times> bool \<Rightarrow> layout_status + layout_ctx \<times> bool" where
  "enum_decl_step nr d s =
     (case (d, s) of
        ((m, decl), (c, worst)) \<Rightarrow>
          (case nbody decl of
             AST_ENUM_DECL _ _ _ _ \<Rightarrow>
               (case type_symbol_for_decl nr m decl NAME_SYM_ENUM of
                  None \<Rightarrow> Inl LAYOUT_UNSUPPORTED
                | Some sy \<Rightarrow>
                    if layout_build_enum (lc_build c) sy \<noteq> None then Inr (c, worst)
                    else
                      case compute_enum decl c of
                        (Inl LAYOUT_UNEVALUABLE, c1) \<Rightarrow>
                          Inr (c1\<lparr>lc_build := build_mark_enum_unevaluable (lc_build c1) sy\<rparr>, True)
                      | (Inl LAYOUT_OOM, _) \<Rightarrow> Inl LAYOUT_OOM
                      | (Inl _, _) \<Rightarrow> Inl LAYOUT_UNSUPPORTED
                      | (Inr l, c1) \<Rightarrow> Inr (c1\<lparr>lc_build := build_push_enum (lc_build c1) sy l\<rparr>, worst))
           | _ \<Rightarrow> Inr (c, worst)))"

definition struct_decl_step ::
  "name_result \<Rightarrow> name_module \<times> ast_node \<Rightarrow> layout_ctx \<times> bool \<Rightarrow> layout_status + layout_ctx \<times> bool" where
  "struct_decl_step nr d s =
     (case (d, s) of
        ((m, decl), (c, worst)) \<Rightarrow>
          (case nbody decl of
             AST_STRUCT_DECL _ _ _ \<Rightarrow>
               (case type_symbol_for_decl nr m decl NAME_SYM_STRUCT of
                  None \<Rightarrow> Inl LAYOUT_UNSUPPORTED
                | Some sy \<Rightarrow>
                    if layout_build_struct (lc_build c) sy \<noteq> None then Inr (c, worst)
                    else
                      case compute_struct nr m decl c of
                        (Inl LAYOUT_UNEVALUABLE, c1) \<Rightarrow>
                          Inr (c1\<lparr>lc_build := build_mark_struct_unevaluable (lc_build c1) sy\<rparr>, True)
                      | (Inl LAYOUT_OOM, _) \<Rightarrow> Inl LAYOUT_OOM
                      | (Inl _, _) \<Rightarrow> Inl LAYOUT_UNSUPPORTED
                      | (Inr l, c1) \<Rightarrow> Inr (c1\<lparr>lc_build := build_push_struct (lc_build c1) sy l\<rparr>, worst))
           | _ \<Rightarrow> Inr (c, worst)))"

fun run_phase ::
  "('d \<Rightarrow> 's \<Rightarrow> layout_status + 's) \<Rightarrow> 'd list \<Rightarrow> 's \<Rightarrow> layout_status + 's" where
  "run_phase step [] s = Inr s"
| "run_phase step (d # ds) s = (case step d s of Inl st \<Rightarrow> Inl st | Inr s1 \<Rightarrow> run_phase step ds s1)"

definition layout_build_empty :: layout_build where
  "layout_build_empty = \<lparr>lb_structs = [], lb_enums = [], lb_struct_unevaluable = [], lb_enum_unevaluable = []\<rparr>"

text \<open>The status with the build and the sorted records; nothing is owned after \<open>Inl\<close>.\<close>

definition types_layout_build ::
  "((diag_record option \<Rightarrow> diag_record option \<Rightarrow> int) \<Rightarrow> diag_record option list \<Rightarrow> diag_record option list)
     \<Rightarrow> name_result \<Rightarrow> layout_status + layout_status \<times> layout_build \<times> diag_record option list" where
  "types_layout_build qsort nr =
     (case run_phase (enum_decl_step nr) (build_decls nr) (layout_ctx_for layout_build_empty, False) of
        Inl st \<Rightarrow> Inl st
      | Inr (c1, worst1) \<Rightarrow>
          if lc_oom c1 then Inl LAYOUT_OOM
          else
            case run_phase (struct_decl_step nr) (build_decls nr) (c1, worst1) of
              Inl st \<Rightarrow> Inl st
            | Inr (c2, worst2) \<Rightarrow>
                if lc_oom c2 then Inl LAYOUT_OOM
                else
                  let recs = the (diag_sort_records qsort (Some (map Some (lc_records c2))))
                  in Inr (if worst2 then LAYOUT_UNEVALUABLE
                          else if lc_records c2 \<noteq> [] then LAYOUT_DIAG_ERROR else LAYOUT_OK,
                          lc_build c2, recs))"

end
