(* ===== verification/LayoutEval.thy ===== *)
theory LayoutEval
  imports Layout
begin

text \<open>
  The bounded evaluator against exact integer arithmetic: each operation is the mathematical one,
  followed by one check that the result is a 64-bit integer.
\<close>

section \<open>Exact arithmetic\<close>

definition check64 :: "int \<Rightarrow> layout_eval_status + int" where
  "check64 n = (if in_i64 n then Inr n else Inl LAYOUT_EVAL_OVERFLOW)"


definition as_lev :: "layout_eval_status + int \<Rightarrow> layout_eval_status + layout_eval_value" where
  "as_lev r = map_sum id lev r"

lemma as_lev_simps [simp]: "as_lev (Inl s) = Inl s" "as_lev (Inr n) = Inr (lev n)"
  by (simp_all add: as_lev_def)

subsection \<open>The checked operations\<close>




















section \<open>Expressions\<close>


definition lev_value :: "layout_eval_value \<Rightarrow> int" where
  "lev_value v = (if lev_big v then to_u64 (lev_v v) else lev_v v)"







text \<open>A well-formed value: the flag tells apart the two halves of the unsigned range.\<close>

definition lev_ok :: "layout_eval_value \<Rightarrow> bool" where
  "lev_ok v \<longleftrightarrow> in_i64 (lev_v v) \<and> (lev_big v \<longrightarrow> lev_v v < 0)"





text \<open>What an evaluation result must be for a reference result.\<close>

definition agrees :: "layout_eval_status + layout_eval_value \<Rightarrow> layout_eval_status + int \<Rightarrow> bool" where
  "agrees r s \<longleftrightarrow>
     (case r of Inl st \<Rightarrow> s = Inl st | Inr v \<Rightarrow> lev_ok v \<and> s = Inr (lev_value v))"


lemma agrees_InrD: "agrees (Inr v) s \<Longrightarrow> lev_ok v \<and> s = Inr (lev_value v)"
  by (simp add: agrees_def)


lemma check64_range: "check64 n = Inr k \<Longrightarrow> in_i64 k"
  by (simp add: check64_def split: if_split_asm)









end
