(* ===== verification/LayoutProps.thy ===== *)
theory LayoutProps
  imports LayoutEval TypesProps
begin

text \<open>
  Correctness of the layouts of a build: offsets, padding, sizes and alignments of structs, values
  and representability of enum members, and the invariant of the build tables.
\<close>

section \<open>Alignment\<close>

lemma align_up_mult:
  assumes "1 < al" and "0 \<le> v" and "align_up v al = Some r"
  shows "v \<le> r" and "r - v < al" and "al dvd r"
proof -
  have r: "r = (v + (al - 1)) div al * al"
    using assms by (simp add: align_up_def Let_def c_div_nonneg split: if_split_asm)
  have m: "(v + (al - 1)) div al * al = v + (al - 1) - (v + (al - 1)) mod al" by (simp add: minus_mod_eq_div_mult)
  have "0 \<le> (v + (al - 1)) mod al" "(v + (al - 1)) mod al < al" using assms(1) by simp_all
  with m show "v \<le> r" "r - v < al" by (simp_all add: r)
  show "al dvd r" by (simp add: r)
qed

lemma align_up_one: "al \<le> 1 \<Longrightarrow> align_up v al = Some v"
  by (simp add: align_up_def)

text \<open>The smallest multiple of the alignment that is not below the value.\<close>

definition aligned_from :: "int \<Rightarrow> int \<Rightarrow> int \<Rightarrow> bool" where
  "aligned_from v al r \<longleftrightarrow> v \<le> r \<and> (if al \<le> 1 then r = v else al dvd r \<and> r - v < al)"

lemma align_up_aligned: "0 \<le> v \<Longrightarrow> align_up v al = Some r \<Longrightarrow> aligned_from v al r"
  using align_up_mult [of al v r] align_up_one [of al v] by (auto simp: aligned_from_def not_le)

section \<open>Struct layout\<close>

text \<open>Fields one behind the other from a byte offset to an end.\<close>

fun placed :: "int \<Rightarrow> layout_field list \<Rightarrow> int \<Rightarrow> bool" where
  "placed pos [] end = (end = pos)"
| "placed pos (f # fs) end =
     (aligned_from pos (lsa_align (lf_type f)) (lf_offset f) \<and> lf_pad_before f = lf_offset f - pos \<and>
      0 \<le> lsa_size (lf_type f) \<and> placed (lf_offset f + lsa_size (lf_type f)) fs end)"

definition align_ok :: "int \<Rightarrow> bool" where
  "align_ok a \<longleftrightarrow> a \<in> {0, 1, 2, 4, 8}"

definition size_align_ok :: "layout_size_align \<Rightarrow> bool" where
  "size_align_ok s \<longleftrightarrow> 0 \<le> lsa_size s \<and> align_ok (lsa_align s)"

definition struct_ok :: "layout_struct \<Rightarrow> bool" where
  "struct_ok l \<longleftrightarrow> placed 0 (ls_fields l) (ls_size l - ls_tail_padding l) \<and>
     aligned_from (ls_size l - ls_tail_padding l) (ls_align l) (ls_size l) \<and> 0 \<le> ls_size l - ls_tail_padding l \<and>
     align_ok (ls_align l) \<and> 1 \<le> ls_align l \<and>
     (\<forall>f \<in> set (ls_fields l). size_align_ok (lf_type f) \<and> lsa_align (lf_type f) \<le> ls_align l)"

definition enum_sizes_ok :: "layout_enum \<Rightarrow> bool" where
  "enum_sizes_ok l \<longleftrightarrow> size_align_ok (size_align (le_size l) (le_align l)) \<and>
     le_underlying l = size_align (le_size l) (le_align l)"

definition build_ok :: "layout_build \<Rightarrow> bool" where
  "build_ok b \<longleftrightarrow> (\<forall>e \<in> set (lb_structs b). struct_ok (snd e)) \<and> (\<forall>e \<in> set (lb_enums b). enum_sizes_ok (snd e))"

lemma placed_le: "placed pos fs end \<Longrightarrow> pos \<le> end"
  by (induction fs arbitrary: pos) (fastforce simp: aligned_from_def)+

lemma prim_size_align_ok:
  "types_prim_info p = Some i \<Longrightarrow> size_align_ok (size_align (tp_size_bytes i) (tp_align_bytes i))"
  by (cases p) (auto simp: types_prim_info_def kPrims_def prim_row_def size_align_ok_def size_align_def align_ok_def)

lemma array_info_ok:
  assumes "size_align_ok e" and "array_info e len c = (Inr s, c')"
  shows "size_align_ok s \<and> lc_build c' = lc_build c"
  using assms
  by (auto simp: array_info_def size_align_ok_def size_align_def split: sum.splits if_split_asm)

lemma array_info_build: "array_info e len c = (r, c') \<Longrightarrow> lc_build c' = lc_build c"
  by (auto simp: array_info_def split: sum.splits if_split_asm)

lemma named_type_info_ok:
  assumes "build_ok (lc_build c)" and "named_type_info nr m ty c = (r, c')"
  shows "lc_build c' = lc_build c \<and> (\<forall>s. r = Inr s \<longrightarrow> size_align_ok s)"
proof -
  have s: "struct_ok l" if "layout_build_struct (lc_build c) sy = Some l" for sy l
    using that assms(1) map_of_SomeD by (fastforce simp: layout_build_struct_def build_ok_def)
  have e: "enum_sizes_ok l" if "layout_build_enum (lc_build c) sy = Some l" for sy l
    using that assms(1) map_of_SomeD by (fastforce simp: layout_build_enum_def build_ok_def)
  have "size_align_ok (size_align (ls_size l) (ls_align l))" if "struct_ok l" for l
    using that by (auto simp: struct_ok_def size_align_ok_def size_align_def aligned_from_def)
  moreover have "size_align_ok (size_align (le_size l) (le_align l))" if "enum_sizes_ok l" for l
    using that by (simp add: enum_sizes_ok_def)
  ultimately show ?thesis using assms(2) s e
    by (auto simp: named_type_info_def split: option.splits name_symbol_kind.splits if_split_asm)
qed

lemma type_info_ok:
  "build_ok (lc_build c) \<Longrightarrow> type_info nr m ty c = (r, c') \<Longrightarrow>
     lc_build c' = lc_build c \<and> (\<forall>s. r = Inr s \<longrightarrow> size_align_ok s)"
proof (induction nr m ty c arbitrary: r c' rule: type_info.induct)
  case (1 nr m ty c)
  show ?case
  proof (cases "nbody ty")
    case (AST_TYPE_ARRAY base len)
    obtain r1 c1 where b: "type_info nr m base c = (r1, c1)" by (cases "type_info nr m base c")
    note ih = "1.IH" [OF AST_TYPE_ARRAY "1.prems"(1) b]
    show ?thesis
    proof (cases r1)
      case (Inr e)
      then have "array_info e len c1 = (r, c')" using "1.prems"(2) b AST_TYPE_ARRAY by (simp add: type_info.simps [of nr m ty])
      with ih Inr array_info_build [of e len c1 r c'] array_info_ok [of e len c1 _ c'] show ?thesis by auto
    qed (use ih b "1.prems"(2) AST_TYPE_ARRAY in \<open>auto simp: type_info.simps [of nr m ty]\<close>)
  next
    case (AST_TYPE_NAMED n)
    with "1.prems" named_type_info_ok show ?thesis by (simp add: type_info.simps)
  next
    case (AST_TYPE_PRIM p)
    with "1.prems" prim_size_align_ok show ?thesis by (auto simp: type_info.simps split: option.splits)
  qed (use "1.prems" in \<open>auto simp: type_info.simps size_align_ok_def size_align_def align_ok_def\<close>)
qed


lemma place_fields_ok:
  assumes "place_fields nr m fs pos al c = (Inr (lfs, end, al'), c')" and "build_ok (lc_build c)"
    and "0 \<le> pos" and "align_ok al" and "1 \<le> al"
  shows "placed pos lfs end \<and> al \<le> al' \<and> align_ok al' \<and> map lf_name lfs = map fst fs \<and> lc_build c' = lc_build c \<and>
    (\<forall>f \<in> set lfs. size_align_ok (lf_type f) \<and> lsa_align (lf_type f) \<le> al')"
  using assms
proof (induction fs arbitrary: pos al c lfs)
  case Nil
  then show ?case by auto
next
  case (Cons f fs)
  from Cons.prems(1) obtain ta c1 lf e1 lfs1 where
    ti: "type_info nr m (snd f) c = (Inr ta, c1)" and pf: "place_field (fst f) ta pos = Some (lf, e1)"
    and rest: "place_fields nr m fs e1 (if lsa_align ta > al then lsa_align ta else al) c1 = (Inr (lfs1, end, al'), c')"
    and lfs: "lfs = lf # lfs1"
    by (auto split: prod.splits sum.splits option.splits)
  note ti' = type_info_ok [OF Cons.prems(2) ti]
  then have ta: "size_align_ok ta" and b1: "lc_build c1 = lc_build c" by simp_all
  obtain off where off: "align_up pos (lsa_align ta) = Some off" and
    lf: "lf = \<lparr>lf_name = fst f, lf_offset = off, lf_type = ta, lf_pad_before = off - pos\<rparr>" "e1 = off + lsa_size ta"
    using pf by (auto simp: place_field_def split: option.splits if_split_asm)
  have al: "aligned_from pos (lsa_align ta) off" by (rule align_up_aligned [OF Cons.prems(3) off])
  have "0 \<le> e1" using al ta Cons.prems(3) by (simp add: lf aligned_from_def size_align_ok_def)
  moreover have "align_ok (if lsa_align ta > al then lsa_align ta else al)"
    using ta Cons.prems(4) by (simp add: size_align_ok_def)
  moreover have "1 \<le> (if lsa_align ta > al then lsa_align ta else al)" using Cons.prems(5) by simp
  ultimately have "placed e1 lfs1 end \<and> (if lsa_align ta > al then lsa_align ta else al) \<le> al' \<and> align_ok al' \<and>
      map lf_name lfs1 = map fst fs \<and> lc_build c' = lc_build c1 \<and>
      (\<forall>f \<in> set lfs1. size_align_ok (lf_type f) \<and> lsa_align (lf_type f) \<le> al')"
    by (intro Cons.IH [OF rest]) (simp_all add: b1 Cons.prems(2))
  then show ?case using al ta lf
    by (auto simp: lfs b1 size_align_ok_def split: if_split_asm)
qed

lemma finish_struct_ok:
  assumes "finish_struct lfs end al = Some l" and "placed 0 lfs end" and "align_ok al" and "1 \<le> al"
    and "\<forall>f \<in> set lfs. size_align_ok (lf_type f) \<and> lsa_align (lf_type f) \<le> al"
  shows "struct_ok l \<and> ls_fields l = lfs"
proof -
  have e: "0 \<le> end" using placed_le [OF assms(2)] .
  obtain sz where "align_up end al = Some sz"
    and l: "l = \<lparr>ls_size = sz, ls_align = al, ls_fields = lfs, ls_tail_padding = sz - end\<rparr>"
    using assms(1) by (auto simp: finish_struct_def split: option.splits)
  with align_up_aligned [OF e this(1)] e assms(2-5) show ?thesis by (simp add: struct_ok_def)
qed

lemma compute_struct_ok:
  assumes "compute_struct nr m d c = (Inr l, c')" and "build_ok (lc_build c)"
  shows "struct_ok l \<and> map lf_name (ls_fields l) = map fst (struct_fields d) \<and> lc_build c' = lc_build c"
proof -
  obtain lfs e al where p: "place_fields nr m (struct_fields d) 0 1 c = (Inr (lfs, e, al), c')"
    and f: "finish_struct lfs e al = Some l"
    using assms(1) by (auto simp: compute_struct_def split: prod.splits sum.splits option.splits)
  have "placed 0 lfs e \<and> 1 \<le> al \<and> align_ok al \<and> map lf_name lfs = map fst (struct_fields d) \<and> lc_build c' = lc_build c \<and>
      (\<forall>f \<in> set lfs. size_align_ok (lf_type f) \<and> lsa_align (lf_type f) \<le> al)"
    by (rule place_fields_ok [OF p assms(2)]) (simp_all add: align_ok_def)
  with finish_struct_ok [OF f] show ?thesis by simp
qed

subsection \<open>Bytes\<close>

text \<open>The byte ranges of the fields and of the padding; how often a byte is covered.\<close>

definition in_range_of :: "int \<Rightarrow> int \<times> int \<Rightarrow> bool" where
  "in_range_of b r \<longleftrightarrow> fst r \<le> b \<and> b < fst r + snd r"

definition covers :: "(int \<times> int) list \<Rightarrow> int \<Rightarrow> nat" where
  "covers rs b = length (filter (in_range_of b) rs)"

definition field_ranges :: "layout_field list \<Rightarrow> (int \<times> int) list" where
  "field_ranges fs = map (\<lambda>f. (lf_offset f, lsa_size (lf_type f))) fs"

definition gap_ranges :: "layout_field list \<Rightarrow> layout_pad_range list" where
  "gap_ranges fs =
     List.map_filter
       (\<lambda>f. if lf_pad_before f > 0
             then Some \<lparr>pr_offset = lf_offset f - lf_pad_before f, pr_length = lf_pad_before f\<rparr> else None) fs"

abbreviation pr_range :: "layout_pad_range \<Rightarrow> int \<times> int" where
  "pr_range p \<equiv> (pr_offset p, pr_length p)"

lemma covers_Cons: "covers (r # rs) b = (if in_range_of b r then 1 else 0) + covers rs b"
  by (simp add: covers_def)

lemma covers_append: "covers (rs @ rs') b = covers rs b + covers rs' b"
  by (simp add: covers_def)

lemma gap_ranges_Cons:
  "gap_ranges (f # fs) = (if lf_pad_before f > 0
     then [\<lparr>pr_offset = lf_offset f - lf_pad_before f, pr_length = lf_pad_before f\<rparr>] else []) @ gap_ranges fs"
  by (simp add: gap_ranges_def List.map_filter_def)

lemma placed_covers:
  "placed pos fs end \<Longrightarrow>
     covers (field_ranges fs) b + covers (map pr_range (gap_ranges fs)) b = (if pos \<le> b \<and> b < end then 1 else 0)"
proof (induction fs arbitrary: pos)
  case Nil
  then show ?case by (simp add: covers_def field_ranges_def gap_ranges_def List.map_filter_def)
next
  case (Cons f fs)
  let ?e = "lf_offset f + lsa_size (lf_type f)"
  have p: "placed ?e fs end" and al: "pos \<le> lf_offset f" "lf_pad_before f = lf_offset f - pos" "0 \<le> lsa_size (lf_type f)"
    using Cons.prems by (auto simp: aligned_from_def)
  have "covers (field_ranges (f # fs)) b + covers (map pr_range (gap_ranges (f # fs))) b =
      (if lf_offset f \<le> b \<and> b < ?e then 1 else 0) + (if pos \<le> b \<and> b < lf_offset f then 1 else 0) +
      (covers (field_ranges fs) b + covers (map pr_range (gap_ranges fs)) b)"
    using al by (simp add: field_ranges_def gap_ranges_Cons covers_Cons covers_append in_range_of_def covers_def)
  also have "\<dots> = (if pos \<le> b \<and> b < end then 1 else 0)"
    using Cons.IH [OF p] al placed_le [OF p] by auto
  finally show ?case .
qed

lemma struct_ok_covers:
  assumes "struct_ok l"
  shows "covers (field_ranges (ls_fields l) @ map pr_range (pad_ranges l)) b = (if 0 \<le> b \<and> b < ls_size l then 1 else 0)"
proof -
  let ?e = "ls_size l - ls_tail_padding l"
  have p: "placed 0 (ls_fields l) ?e" and t: "0 \<le> ls_tail_padding l" "0 \<le> ?e"
    using assms by (auto simp: struct_ok_def aligned_from_def)
  have pr: "pad_ranges l = gap_ranges (ls_fields l) @
      (if ls_tail_padding l > 0 then [\<lparr>pr_offset = ?e, pr_length = ls_tail_padding l\<rparr>] else [])"
    by (simp add: pad_ranges_def gap_ranges_def)
  have "covers (map pr_range (if ls_tail_padding l > 0 then [\<lparr>pr_offset = ?e, pr_length = ls_tail_padding l\<rparr>] else [])) b
      = (if ?e \<le> b \<and> b < ls_size l then 1 else 0)"
    using t by (auto simp: covers_def in_range_of_def)
  then show ?thesis using placed_covers [OF p, of b] t
    by (auto simp: pr covers_append)
qed

lemma placed_offsets:
  "placed pos fs end \<Longrightarrow> f \<in> set fs \<Longrightarrow>
     pos \<le> lf_offset f \<and> lf_offset f + lsa_size (lf_type f) \<le> end \<and>
     (1 < lsa_align (lf_type f) \<longrightarrow> lsa_align (lf_type f) dvd lf_offset f)"
proof (induction fs arbitrary: pos)
  case (Cons g fs)
  from Cons.prems(1) have p: "placed (lf_offset g + lsa_size (lf_type g)) fs end"
    and g: "aligned_from pos (lsa_align (lf_type g)) (lf_offset g)" "0 \<le> lsa_size (lf_type g)" by simp_all
  show ?case
  proof (cases "f = g")
    case True
    then show ?thesis using placed_le [OF p] g by (auto simp: aligned_from_def)
  next
    case False
    with Cons.IH [OF p] Cons.prems(2) g show ?thesis by (auto simp: aligned_from_def)
  qed
qed simp

lemma align_ok_dvd: "align_ok a \<Longrightarrow> align_ok b \<Longrightarrow> 1 \<le> a \<Longrightarrow> a \<le> b \<Longrightarrow> a dvd b"
  by (auto simp: align_ok_def)


section \<open>Enum layout\<close>













text \<open>The record of a member that is not representable.\<close>

definition t0301_record :: "type_prim_info \<Rightarrow> ast_node \<times> layout_enum_member \<Rightarrow> diag_record" where
  "t0301_record p mm =
     type_record ''AIC-T0301'' (unrepresentable_msg (snd mm) p)
       (Some (case member_value_node (fst mm) of Some v \<Rightarrow> nspan v | None \<Rightarrow> nspan (fst mm)))"

lemma emit_t0301_eq: "emit_t0301 c m mm p = c\<lparr>lc_records := lc_records c @ [t0301_record p (m, mm)]\<rparr>"
  by (simp add: emit_t0301_def t0301_record_def Let_def new_type_record_eq split: option.split)




lemma enum_members_first_flag:
  "enum_members p first ms ep c = (Inr mms, c') \<Longrightarrow> lc_build c' = lc_build c"
proof (induction ms arbitrary: first ep c mms)
  case (Cons m ms)
  then show ?case
    by (fastforce simp: Let_def emit_t0301_eq split: prod.splits option.splits sum.splits if_split_asm)
qed simp


lemma compute_enumD:
  assumes "compute_enum d c = (Inr l, c')"
  obtains prim p where "fst (enum_parts d) = Some prim" "types_prim_info prim = Some p" "tp_is_integer p"
    "enum_members p True (snd (enum_parts d)) enum_prev_init c = (Inr (le_members l), c')"
    "lc_unevaluable c' = lc_unevaluable c"
    "le_size l = tp_size_bytes p" "le_align l = tp_align_bytes p" "le_underlying l = size_align (le_size l) (le_align l)"
  using assms
  by (cases "enum_parts d") (auto simp: compute_enum_def split: option.splits if_split_asm prod.splits sum.splits)

lemma compute_enum_ok: "compute_enum d c = (Inr l, c') \<Longrightarrow> enum_sizes_ok l \<and> lc_build c' = lc_build c"
  by (erule compute_enumD) (auto simp: enum_sizes_ok_def prim_size_align_ok enum_members_first_flag)

lemma compute_enum_build: "compute_enum d c = (r, c') \<Longrightarrow> lc_build c' = lc_build c"
proof -
  have "lc_build c' = lc_build c" if "enum_members p first ms ep c = (r, c')" for p first ms ep and c :: layout_ctx and r c'
    using that
  proof (induction ms arbitrary: first ep c r)
    case (Cons m ms)
    then show ?case
      by (fastforce simp: Let_def emit_t0301_eq split: prod.splits option.splits sum.splits if_split_asm)
  qed simp
  then show "compute_enum d c = (r, c') \<Longrightarrow> lc_build c' = lc_build c"
    by (auto simp: compute_enum_def split: prod.splits option.splits sum.splits if_split_asm)
qed

lemma place_fields_build:
  "place_fields nr m fs pos al c = (r, c') \<Longrightarrow> build_ok (lc_build c) \<Longrightarrow> lc_build c' = lc_build c"
proof (induction fs arbitrary: pos al c r)
  case (Cons f fs)
  obtain r1 c1 where ti: "type_info nr m (snd f) c = (r1, c1)" by (cases "type_info nr m (snd f) c")
  have "lc_build c1 = lc_build c" using type_info_ok [OF Cons.prems(2) ti] by simp
  with Cons.prems Cons.IH ti show ?case
    by (fastforce split: sum.splits option.splits prod.splits)
qed simp

lemma compute_struct_build:
  "compute_struct nr m d c = (r, c') \<Longrightarrow> build_ok (lc_build c) \<Longrightarrow> lc_build c' = lc_build c"
  by (auto simp: compute_struct_def dest: place_fields_build split: prod.splits sum.splits option.splits)

section \<open>The build\<close>

lemma run_phase_inv:
  assumes "\<And>d s s'. d \<in> set ds \<Longrightarrow> P s \<Longrightarrow> step d s = Inr s' \<Longrightarrow> P s'" and "P s"
    and "run_phase step ds s = Inr s'"
  shows "P s'"
  using assms
proof (induction ds arbitrary: s)
  case (Cons d ds)
  from Cons.prems(3) obtain s1 where s1: "step d s = Inr s1" "run_phase step ds s1 = Inr s'"
    by (auto split: sum.splits)
  show ?case
    by (rule Cons.IH [OF _ _ s1(2)]) (use Cons.prems(1,2) s1(1) in auto)
qed simp

text \<open>A published struct layout belongs to a declaration, lists its fields and is well-formed.\<close>

definition struct_of_decl :: "name_result \<Rightarrow> sym_ref \<Rightarrow> layout_struct \<Rightarrow> bool" where
  "struct_of_decl nr sy l \<longleftrightarrow>
     struct_ok l \<and>
     (\<exists>m d. (m, d) \<in> set (build_decls nr) \<and> type_symbol_for_decl nr m d NAME_SYM_STRUCT = Some sy \<and>
        map lf_name (ls_fields l) = map fst (struct_fields d))"

definition tables_ok :: "name_result \<Rightarrow> layout_build \<Rightarrow> bool" where
  "tables_ok nr b \<longleftrightarrow> (\<forall>(sy, l) \<in> set (lb_structs b). struct_of_decl nr sy l) \<and>
     (\<forall>e \<in> set (lb_enums b). enum_sizes_ok (snd e))"

lemma tables_build_ok: "tables_ok nr b \<Longrightarrow> build_ok b"
  by (auto simp: tables_ok_def build_ok_def struct_of_decl_def)

lemma enum_decl_step_tables:
  assumes "tables_ok nr (lc_build (fst s))" and "enum_decl_step nr d s = Inr s'"
  shows "tables_ok nr (lc_build (fst s'))"
proof -
  obtain m decl where d: "d = (m, decl)" by (cases d)
  obtain c w where s: "s = (c, w)" by (cases s)
  show ?thesis
  proof (cases "s' = s")
    case False
    then obtain sy r c1 where ce: "compute_enum decl c = (r, c1)"
      and s': "r = Inl LAYOUT_UNEVALUABLE \<and> s' = (c1\<lparr>lc_build := build_mark_enum_unevaluable (lc_build c1) sy\<rparr>, True) \<or>
        (\<exists>l. r = Inr l \<and> s' = (c1\<lparr>lc_build := build_push_enum (lc_build c1) sy l\<rparr>, w))"
      using assms(2)
      by (auto simp: enum_decl_step_def d s split: ast_body.splits option.splits if_split_asm prod.splits sum.splits
          layout_status.splits)
    with assms(1) compute_enum_build [OF ce] compute_enum_ok [of decl c _ c1] show ?thesis
      by (auto simp: s tables_ok_def build_mark_enum_unevaluable_def build_push_enum_def)
  qed (use assms in simp)
qed

lemma struct_decl_step_cases:
  assumes "struct_decl_step nr (m, decl) (c, w) = Inr s'"
  obtains (skip) "s' = (c, w)" "struct_entry nr m decl = None"
  | (present) sy where "s' = (c, w)" "struct_entry nr m decl = Some (m, decl, sy)" "layout_build_struct (lc_build c) sy \<noteq> None"
  | (mark) sy c1 where "struct_entry nr m decl = Some (m, decl, sy)" "compute_struct nr m decl c = (Inl LAYOUT_UNEVALUABLE, c1)"
      "s' = (c1\<lparr>lc_build := build_mark_struct_unevaluable (lc_build c1) sy\<rparr>, True)"
  | (push) sy l c1 where "struct_entry nr m decl = Some (m, decl, sy)" "compute_struct nr m decl c = (Inr l, c1)"
      "s' = (c1\<lparr>lc_build := build_push_struct (lc_build c1) sy l\<rparr>, w)"
proof (cases "\<exists>n fs b. nbody decl = AST_STRUCT_DECL n fs b")
  case False
  then have "struct_entry nr m decl = None" "s' = (c, w)"
    using assms by (auto simp: struct_decl_step_def struct_entry_def split: ast_body.splits)
  then show ?thesis by (rule skip [rotated])
next
  case True
  then obtain n fs b where d: "nbody decl = AST_STRUCT_DECL n fs b" by blast
  then obtain sy where sy: "type_symbol_for_decl nr m decl NAME_SYM_STRUCT = Some sy"
    using assms by (auto simp: struct_decl_step_def split: option.splits)
  then have e: "struct_entry nr m decl = Some (m, decl, sy)" by (simp add: struct_entry_def d)
  obtain r c1 where cs: "compute_struct nr m decl c = (r, c1)" by (cases "compute_struct nr m decl c")
  show ?thesis
  proof (cases "layout_build_struct (lc_build c) sy")
    case (Some l)
    then show ?thesis using assms d sy e present by (simp add: struct_decl_step_def)
  next
    case None
    show ?thesis
    proof (cases r)
      case (Inl st)
      then have "st = LAYOUT_UNEVALUABLE"
        using assms None d sy cs by (auto simp: struct_decl_step_def split: layout_status.splits)
      then show ?thesis using assms None d sy cs e mark Inl by (simp add: struct_decl_step_def)
    next
      case (Inr l)
      then show ?thesis using assms None d sy cs e push by (simp add: struct_decl_step_def)
    qed
  qed
qed

lemma struct_decl_step_tables:
  assumes "tables_ok nr (lc_build (fst s))" and "struct_decl_step nr d s = Inr s'" and "d \<in> set (build_decls nr)"
  shows "tables_ok nr (lc_build (fst s'))"
proof -
  obtain m decl where d: "d = (m, decl)" by (cases d)
  obtain c w where s: "s = (c, w)" by (cases s)
  have ok: "build_ok (lc_build c)" using tables_build_ok assms(1) s by simp
  have ts: "type_symbol_for_decl nr m decl NAME_SYM_STRUCT = Some sy" if "struct_entry nr m decl = Some (m, decl, sy)" for sy
    using that by (auto simp: struct_entry_def split: ast_body.splits)
  from assms(2)[unfolded d s] show ?thesis
  proof (cases rule: struct_decl_step_cases)
    case (mark sy c1)
    then show ?thesis using assms(1) s compute_struct_build [OF mark(2) ok]
      by (simp add: tables_ok_def build_mark_struct_unevaluable_def)
  next
    case (push sy l c1)
    from compute_struct_ok [OF push(2) ok] ts [OF push(1)] assms(3) d
    have "struct_of_decl nr sy l" by (auto simp: struct_of_decl_def)
    then show ?thesis using assms(1) s compute_struct_build [OF push(2) ok] push(3)
      by (auto simp: tables_ok_def build_push_struct_def)
  qed (use assms(1) s in simp_all)
qed

lemma types_layout_build_phases:
  assumes "types_layout_build qs nr = Inr (st, b, recs)"
  obtains c1 w1 c2 w2 where
    "run_phase (enum_decl_step nr) (build_decls nr) (layout_ctx_for layout_build_empty, False) = Inr (c1, w1)"
    "run_phase (struct_decl_step nr) (build_decls nr) (c1, w1) = Inr (c2, w2)"
    "b = lc_build c2" "st = (if w2 then LAYOUT_UNEVALUABLE else if lc_records c2 \<noteq> [] then LAYOUT_DIAG_ERROR else LAYOUT_OK)"
    "recs = the (diag_sort_records qs (Some (map Some (lc_records c2))))"
  using assms
  by (auto simp: types_layout_build_def Let_def split: sum.splits prod.splits if_split_asm)

lemma phase1_tables:
  assumes "run_phase (enum_decl_step nr) (build_decls nr) (layout_ctx_for layout_build_empty, False) = Inr s"
  shows "tables_ok nr (lc_build (fst s))"
proof (rule run_phase_inv [OF _ _ assms, where P = "\<lambda>s. tables_ok nr (lc_build (fst s))"])
  show "tables_ok nr (lc_build (fst (layout_ctx_for layout_build_empty, False)))"
    by (simp add: layout_ctx_for_def layout_build_empty_def tables_ok_def)
qed (rule enum_decl_step_tables)

lemma build_tables:
  assumes "types_layout_build qs nr = Inr (st, b, recs)"
  shows "tables_ok nr b"
proof -
  from assms obtain c1 w1 c2 w2 where
    p1: "run_phase (enum_decl_step nr) (build_decls nr) (layout_ctx_for layout_build_empty, False) = Inr (c1, w1)"
    and p2: "run_phase (struct_decl_step nr) (build_decls nr) (c1, w1) = Inr (c2, w2)" and b: "b = lc_build c2"
    by (rule types_layout_build_phases)
  have "tables_ok nr (lc_build (fst (c2, w2)))"
    by (rule run_phase_inv [OF _ _ p2, where P = "\<lambda>s. tables_ok nr (lc_build (fst s))"])
      (use struct_decl_step_tables phase1_tables [OF p1] in auto)
  then show ?thesis by (simp add: b)
qed


section \<open>Properties\<close>

text \<open>C8: every published struct layout is that of a declaration with its fields in order; each byte of
  the struct belongs to exactly one field or padding range and no range leaves it; offsets are
  multiples of the alignments of their fields, the size is a multiple of the struct's alignment, and
  each field's alignment divides it, so fields stay aligned in arrays and nested structs.\<close>

theorem struct_layout_partition:
  assumes b: "types_layout_build qs nr = Inr (st, b, recs)" and l: "layout_build_struct b sy = Some l"
  shows "(\<exists>m d. (m, d) \<in> set (build_decls nr) \<and> type_symbol_for_decl nr m d NAME_SYM_STRUCT = Some sy \<and>
            map lf_name (ls_fields l) = map fst (struct_fields d)) \<and>
    (\<forall>byte. covers (field_ranges (ls_fields l) @ map pr_range (pad_ranges l)) byte =
       (if 0 \<le> byte \<and> byte < ls_size l then 1 else 0)) \<and>
    (\<forall>f \<in> set (ls_fields l). 1 \<le> lsa_align (lf_type f) \<longrightarrow>
       lsa_align (lf_type f) dvd lf_offset f \<and> lsa_align (lf_type f) dvd ls_align l) \<and>
    ls_align l dvd ls_size l"
proof -
  have "struct_of_decl nr sy l"
    using build_tables [OF b] map_of_SomeD [of "lb_structs b" sy l] l
    by (auto simp: tables_ok_def layout_build_struct_def)
  then have ok: "struct_ok l" and d: "\<exists>m d. (m, d) \<in> set (build_decls nr) \<and>
      type_symbol_for_decl nr m d NAME_SYM_STRUCT = Some sy \<and> map lf_name (ls_fields l) = map fst (struct_fields d)"
    by (auto simp: struct_of_decl_def)
  have p: "placed 0 (ls_fields l) (ls_size l - ls_tail_padding l)" using ok by (simp add: struct_ok_def)
  have "lsa_align (lf_type f) dvd lf_offset f \<and> lsa_align (lf_type f) dvd ls_align l"
    if "f \<in> set (ls_fields l)" "1 \<le> lsa_align (lf_type f)" for f
    using placed_offsets [OF p that(1)] that ok
    by (auto simp: struct_ok_def size_align_ok_def intro: align_ok_dvd)
  moreover have "ls_align l dvd ls_size l"
    using ok by (auto simp: struct_ok_def aligned_from_def split: if_split_asm)
  ultimately show ?thesis using d struct_ok_covers [OF ok] by blast
qed


lemma map_filter_append: "List.map_filter g (xs @ ys) = List.map_filter g xs @ List.map_filter g ys"
  by (simp add: List.map_filter_def)

lemma struct_order_decls: "struct_order nr = List.map_filter (\<lambda>(m, d). struct_entry nr m d) (build_decls nr)"
proof -
  have "concat (map (\<lambda>m. List.map_filter (struct_entry nr m) (ds m)) ms)
      = List.map_filter (\<lambda>(m, d). struct_entry nr m d) (concat (map (\<lambda>m. map (Pair m) (ds m)) ms))" for ms ds
  proof (induction ms)
    case (Cons m ms)
    have "List.map_filter (struct_entry nr m) xs = List.map_filter (\<lambda>(m, d). struct_entry nr m d) (map (Pair m) xs)" for xs
      by (induction xs) (simp_all add: List.map_filter_simps split: option.split)
    then show ?case using Cons by (simp add: map_filter_append)
  qed (simp add: List.map_filter_simps)
  then show ?thesis by (simp add: struct_order_def build_decls_def)
qed


definition laid_out :: "layout_build \<Rightarrow> sym_ref \<Rightarrow> bool" where
  "laid_out b sy \<longleftrightarrow> layout_build_struct b sy \<noteq> None \<or> build_struct_unevaluable b sy"

lemma laid_out_grow:
  "laid_out b sy \<Longrightarrow> laid_out (build_push_struct b sy' l) sy"
  "laid_out b sy \<Longrightarrow> laid_out (build_mark_struct_unevaluable b sy') sy"
  "laid_out (build_push_struct b sy l) sy" "laid_out (build_mark_struct_unevaluable b sy) sy"
  by (auto simp: laid_out_def layout_build_struct_def build_struct_unevaluable_def build_push_struct_def
      build_mark_struct_unevaluable_def map_add_def split: option.split)

lemma struct_decl_step_laid_out:
  assumes "struct_decl_step nr (m, decl) (c, w) = Inr (c', w')" and "build_ok (lc_build c)"
  shows "(laid_out (lc_build c) s \<longrightarrow> laid_out (lc_build c') s) \<and>
    (struct_entry nr m decl = Some (m, decl, s) \<longrightarrow> laid_out (lc_build c') s)"
  using assms(1)
proof (cases rule: struct_decl_step_cases)
  case (mark sy c1)
  then show ?thesis using compute_struct_build [OF mark(2) assms(2)] by (auto simp: laid_out_grow)
next
  case (push sy l c1)
  then show ?thesis using compute_struct_build [OF push(2) assms(2)] by (auto simp: laid_out_grow)
qed (auto simp: laid_out_def)

lemma phase2_laid_out:
  assumes "run_phase (struct_decl_step nr) ds (c, w) = Inr (c', w')" and "tables_ok nr (lc_build c)"
    and "set ds \<subseteq> set (build_decls nr)"
  shows "(laid_out (lc_build c) s \<longrightarrow> laid_out (lc_build c') s) \<and>
    (\<forall>e \<in> set (List.map_filter (\<lambda>(m, d). struct_entry nr m d) ds). laid_out (lc_build c') (sd_sym e))"
  using assms
proof (induction ds arbitrary: c w s)
  case Nil
  then show ?case by (simp add: List.map_filter_simps)
next
  case (Cons d ds)
  obtain m decl where d: "d = (m, decl)" by (cases d)
  obtain c1 w1 where s1: "struct_decl_step nr (m, decl) (c, w) = Inr (c1, w1)"
    "run_phase (struct_decl_step nr) ds (c1, w1) = Inr (c', w')"
    using Cons.prems(1) d by (auto split: sum.splits)
  have t1: "tables_ok nr (lc_build c1)"
    using struct_decl_step_tables [of nr "(c, w)" "(m, decl)" "(c1, w1)"] s1(1) Cons.prems d by auto
  note step = struct_decl_step_laid_out [OF s1(1) tables_build_ok [OF Cons.prems(2)]]
  note ih = Cons.IH [OF s1(2) t1]
  have "snd e = (decl, sd_sym e) \<and> fst e = m" if "struct_entry nr m decl = Some e" for e
    using that by (auto simp: struct_entry_def split: ast_body.splits)
  then have "laid_out (lc_build c') (sd_sym e)" if "struct_entry nr m decl = Some e" for e
    using that step [of "sd_sym e"] ih [of "sd_sym e"] Cons.prems(3) by (metis prod.collapse set_subset_Cons subset_trans)
  then show ?case using step [of s] ih [of s] Cons.prems(3)
    by (auto simp: d List.map_filter_simps split: option.splits)
qed

text \<open>C22: in a build that the completeness pass accepts, when a struct is laid out every struct it
  holds by value already has a published layout or is marked as not evaluable: the defensive
  branch for unknown structs is not taken.\<close>

theorem layout_lookup_hits:
  assumes ok: "types_check_completeness qs nr = TYPE_CHECK_OK"
    and p1: "run_phase (enum_decl_step nr) (build_decls nr) (layout_ctx_for layout_build_empty, False) = Inr (c1, w1)"
    and ds: "build_decls nr = ds @ (m, d) # rest"
    and p2: "run_phase (struct_decl_step nr) ds (c1, w1) = Inr (c, w)"
    and e: "struct_entry nr m d = Some (m, d, sy)" and s: "s \<in> held_by nr (m, d, sy)"
  shows "layout_build_struct (lc_build c) s \<noteq> None \<or> build_struct_unevaluable (lc_build c) s"
proof -
  let ?A = "List.map_filter (\<lambda>(m, d). struct_entry nr m d) ds"
  have o: "struct_order nr = ?A @ (m, d, sy) # List.map_filter (\<lambda>(m, d). struct_entry nr m d) rest"
    by (simp add: struct_order_decls ds map_filter_append List.map_filter_simps e)
  have "\<exists>j < length ?A. sd_sym (struct_order nr ! j) = s"
    by (rule types_complete_order [OF ok]) (use o s in simp_all)
  then obtain e where "e \<in> set ?A" "sd_sym e = s" using nth_mem [of _ ?A] unfolding o nth_append by fastforce
  moreover have "tables_ok nr (lc_build c1)" using phase1_tables [OF p1] by simp
  ultimately have "laid_out (lc_build c) s" using phase2_laid_out [OF p2, of s] ds by auto
  then show ?thesis by (simp add: laid_out_def)
qed


section \<open>Examples\<close>





text \<open>A build of one module whose structs are \<open>A { x: i32 }\<close> and \<open>B { a: A[] }\<close> is \<open>demo_build 0\<close>.\<close>

abbreviation demo_module :: name_module where
  "demo_module \<equiv> hd (nr_modules (demo_build 0))"

abbreviation demo_decl :: "nat \<Rightarrow> ast_node" where
  "demo_decl i \<equiv> program_decls (Some demo_program) ! i"

lemma demo_decls: "build_decls (demo_build 0) = [(demo_module, demo_decl 0), (demo_module, demo_decl 1)]"
  by (simp add: build_decls_def demo_defs)

lemma demo_bodies:
  "\<exists>fs. nbody (demo_decl 0) = AST_STRUCT_DECL ''A'' fs False" "\<exists>fs. nbody (demo_decl 1) = AST_STRUCT_DECL ''B'' fs False"
  by (simp_all add: demo_defs)

lemma demo_type_symbols:
  "type_symbol_for_decl (demo_build 0) demo_module (demo_decl 0) NAME_SYM_STRUCT = Some 0"
  "type_symbol_for_decl (demo_build 0) demo_module (demo_decl 1) NAME_SYM_STRUCT = Some 1"
  by (simp_all add: demo_defs type_symbol_for_decl_def)

lemma demo_phase1: "run_phase (enum_decl_step (demo_build 0)) (build_decls (demo_build 0)) s = Inr s"
  using demo_bodies by (cases s) (auto simp: demo_decls enum_decl_step_def)

lemma demo_struct0:
  "compute_struct (demo_build 0) demo_module (demo_decl 0) c =
      (Inr \<lparr>ls_size = 4, ls_align = 4, ls_fields = [\<lparr>lf_name = ''x'', lf_offset = 0, lf_type = size_align 4 4, lf_pad_before = 0\<rparr>],
            ls_tail_padding = 0\<rparr>, c)"
  by (simp add: compute_struct_def demo_fields type_info.simps types_prim_info_def kPrims_def prim_row_def
      place_field_def align_up_def Let_def size_align_def finish_struct_def c_div_def)

lemma demo_struct1:
  "compute_struct (demo_build 0) demo_module (demo_decl 1) c =
      (Inr \<lparr>ls_size = 16, ls_align = 8, ls_fields = [\<lparr>lf_name = ''a'', lf_offset = 0, lf_type = size_align 16 8, lf_pad_before = 0\<rparr>],
            ls_tail_padding = 0\<rparr>, c)"
  by (simp add: compute_struct_def demo_fields demo_fields(2) [unfolded One_nat_def] type_info.simps
      place_field_def align_up_def Let_def size_align_def finish_struct_def c_div_def)

lemma demo_layout:
  "\<exists>b. types_layout_build insertion_sort (demo_build 0) = Inr (LAYOUT_OK, b, []) \<and>
     map_option ls_size (layout_build_struct b 1) = Some 16"
  using demo_phase1 demo_bodies demo_type_symbols demo_struct0 demo_struct1
  by (auto simp: types_layout_build_def demo_decls struct_decl_step_def layout_ctx_for_def layout_build_empty_def
      layout_build_struct_def build_push_struct_def Let_def diag_sort_records_def)

lemma struct_layout_partition_witness:
  "\<exists>b l. layout_build_struct b 1 = Some l \<and> ls_align l dvd 16 \<and>
     covers (field_ranges (ls_fields l) @ map pr_range (pad_ranges l)) 15 = 1"
proof -
  obtain b where b: "types_layout_build insertion_sort (demo_build 0) = Inr (LAYOUT_OK, b, [])"
    "map_option ls_size (layout_build_struct b 1) = Some 16"
    using demo_layout by blast
  then obtain l where l: "layout_build_struct b 1 = Some l" "ls_size l = 16" by auto
  note p = struct_layout_partition [OF b(1) l(1)]
  then have "covers (field_ranges (ls_fields l) @ map pr_range (pad_ranges l)) 15 = (if 0 \<le> (15::int) \<and> 15 < ls_size l then 1 else 0)"
    by blast
  moreover have "ls_align l dvd 16" using p l(2) by simp
  ultimately show ?thesis using l by auto
qed

lemma layout_lookup_hits_witness:
  "\<exists>c. run_phase (struct_decl_step (demo_build 0)) [(demo_module, demo_decl 0)] (layout_ctx_for layout_build_empty, False) =
        Inr (c, False) \<and>
     (layout_build_struct (lc_build c) 0 \<noteq> None \<or> build_struct_unevaluable (lc_build c) 0)"
proof -
  let ?nr = "demo_build 0"
  have ok: "types_check_completeness insertion_sort ?nr = TYPE_CHECK_OK"
    using types_complete_in_order [of insertion_sort ?nr] demo_complete [of 0] by simp
  obtain c where r: "run_phase (struct_decl_step ?nr) [(demo_module, demo_decl 0)] (layout_ctx_for layout_build_empty, False) =
      Inr (c, False)"
    using demo_bodies(1) demo_type_symbols(1) demo_struct0
    by (auto simp: struct_decl_step_def layout_ctx_for_def layout_build_empty_def layout_build_struct_def)
  have e: "struct_entry ?nr demo_module (demo_decl 1) = Some (demo_module, demo_decl 1, 1)"
    using demo_bodies(2) demo_type_symbols(2) by (auto simp: struct_entry_def)
  have "map (held_by ?nr) (struct_order ?nr) = [{}, {0}]" using demo_held [of 0] by simp
  then have "0 \<in> held_by ?nr (demo_module, demo_decl 1, 1)" by (simp add: demo_order Let_def)
  from layout_lookup_hits [OF ok demo_phase1 _ r e this, of "[]"] r show ?thesis
    by (auto simp: demo_decls)
qed

text \<open>Two enums whose only member has a value outside the evaluator's subset (a name).\<close>

definition opaque_enum :: "nat \<Rightarrow> ast_node" where
  "opaque_enum n = AstNode n demo_span (AST_ENUM_DECL ''E'' (AstNode (n + 1) demo_span (AST_TYPE_PRIM AST_PRIM_U8))
     [AstNode (n + 2) demo_span (AST_ENUM_MEMBER ''A'' (Some (AstNode (n + 3) demo_span (AST_EXPR_IDENT ''K''))))] False)"

definition opaque_build :: name_result where
  "opaque_build =
     \<lparr>nr_modules =
       [\<lparr>mod_parts = [''m''], mod_fqn = ''m'', mod_path = None,
         mod_program = Some (AstNode 0 demo_span (AST_PROGRAM None [] [opaque_enum 10, opaque_enum 20])), mod_src = None,
         mod_is_entry = True, mod_is_runtime = False, mod_scope = [0, 1], mod_imports = [], mod_refs = []\<rparr>],
      nr_project_root = [], nr_entry_file = [],
      nr_syms = [(demo_sym ''E'' (opaque_enum 10))\<lparr>sym_kind := NAME_SYM_ENUM\<rparr>,
                 (demo_sym ''F'' (opaque_enum 20))\<lparr>sym_kind := NAME_SYM_ENUM\<rparr>]\<rparr>"

text \<open>Of two enums with the same member value that the evaluator cannot know, the first is marked as
  not evaluable and withheld, but the second is published with the value zero, because
  \<open>compute_enum\<close> compares the build-wide flag before and after.\<close>

theorem second_unevaluable_enum_published:
  "\<exists>b l. types_layout_build insertion_sort opaque_build = Inr (LAYOUT_UNEVALUABLE, b, []) \<and>
     layout_build_enum b 0 = None \<and> build_enum_unevaluable b 0 \<and>
     layout_build_enum b 1 = Some l \<and> map lem_value (le_members l) = [0]"
proof -
  let ?m = "hd (nr_modules opaque_build)"
  have decls: "build_decls opaque_build = [(?m, opaque_enum 10), (?m, opaque_enum 20)]"
    by (simp add: build_decls_def opaque_build_def program_decls_def)
  have sy: "type_symbol_for_decl opaque_build ?m (opaque_enum 10) NAME_SYM_ENUM = Some 0"
    "type_symbol_for_decl opaque_build ?m (opaque_enum 20) NAME_SYM_ENUM = Some 1"
    by (simp_all add: opaque_build_def type_symbol_for_decl_def opaque_enum_def demo_sym_def)
  have body: "\<exists>a b. nbody (opaque_enum n) = AST_ENUM_DECL ''E'' a b False" for n by (simp add: opaque_enum_def)
  have ev: "compute_enum (opaque_enum n) c =
      (if lc_unevaluable c then (Inr \<lparr>le_underlying = size_align 1 1, le_size = 1, le_align = 1,
           le_members = [enum_member ''A'' 0 False False False]\<rparr>, c)
       else (Inl LAYOUT_UNEVALUABLE, c\<lparr>lc_unevaluable := True\<rparr>))" for n c
    by (auto simp: compute_enum_def opaque_enum_def enum_parts_def types_prim_info_def kPrims_def prim_row_def
        member_value_def member_value_node_def member_name_def Let_def layout_eval_int_expr.simps)
  show ?thesis
    using sy body [of 10] body [of 20]
    by (auto simp: types_layout_build_def decls enum_decl_step_def struct_decl_step_def ev layout_ctx_for_def layout_build_empty_def
        layout_build_enum_def build_push_enum_def build_mark_enum_unevaluable_def build_enum_unevaluable_def
        Let_def diag_sort_records_def enum_member_def)
qed

end
