(* ===== verification/Reach.thy ===== *)
theory Reach
  imports Types
begin

text \<open>
  The reachability check of statements (\<open>bootstrap/src/sema/stmt_reach.c\<close>): AIC-E0416 for a function
  with a result type whose body may fall off its end, and AIC-E0417 for a statement behind a
  terminator of its block. Loop and switch depths are the counters the C code passes down.
\<close>

section \<open>Records and spans\<close>

record reach_ctx =
  rc_records :: "diag_record list"
  rc_oom :: bool
  rc_unsupported :: bool

definition reach_new_record :: "string \<Rightarrow> string \<Rightarrow> diag_span option \<Rightarrow> diag_record option" where
  "reach_new_record code message primary =
     setters
       [\<lambda>r. diag_record_set_code r (Some code), \<lambda>r. diag_record_set_message r (Some message),
        \<lambda>r. diag_record_set_primary_span r primary,
        \<lambda>r. diag_record_set_recovery r (Some ''authoritative'')]
       diag_record_new"

text \<open>Building and pushing one record; \<open>False\<close> when the builder ran out of memory.\<close>

definition reach_emit :: "reach_ctx \<Rightarrow> string \<Rightarrow> string \<Rightarrow> diag_span option \<Rightarrow> bool \<times> reach_ctx" where
  "reach_emit c code message primary =
     (case reach_new_record code message primary of
        None \<Rightarrow> (False, c\<lparr>rc_oom := True\<rparr>)
      | Some r \<Rightarrow> (True, c\<lparr>rc_records := rc_records c @ [r]\<rparr>))"

definition reach_is_noreturn_call :: "name_result \<Rightarrow> name_module \<Rightarrow> ast_node \<Rightarrow> bool" where
  "reach_is_noreturn_call nr m stmt =
     (case nbody stmt of
        AST_EXPR_STMT expr \<Rightarrow>
          (case nbody expr of
             AST_EXPR_CALL callee _ \<Rightarrow>
               (case name_symbol_for_node m callee of
                  None \<Rightarrow> False
                | Some sy \<Rightarrow>
                    sym_kind (sym_at nr sy) = NAME_SYM_FN \<and>
                    (sym_fqn (sym_at nr sy) = ''rt.proc.exit'' \<or> sym_fqn (sym_at nr sy) = ''rt.trap.report''))
           | _ \<Rightarrow> False)
      | _ \<Rightarrow> False)"

text \<open>The span of \<open>fn\<close> and the name; \<open>skip_trivia\<close> and \<open>ident_end\<close> are those of the type tables.\<close>

definition reach_fn_header_span :: "name_module \<Rightarrow> ast_node \<Rightarrow> diag_span option" where
  "reach_fn_header_span m decl =
     (case mod_src m of
        None \<Rightarrow> None
      | Some src \<Rightarrow>
          let start = pos_offset (span_start (nspan decl)); t = src_text src in
          if start < 0 \<or> int (length t) < start + 2 \<or> take 2 (drop (nat start) t) \<noteq> ''fn'' then None
          else
            case ident_end_at t (decl_skip_trivia t (nat start + 2)) of
              None \<Rightarrow> None
            | Some e \<Rightarrow> if length t < e then None else load_span_range src start (int e))"

section \<open>Falling through\<close>

function reach_cond_literal_true :: "ast_node \<Rightarrow> bool" where
  "reach_cond_literal_true cond =
     (case nbody cond of
        AST_EXPR_PAREN e \<Rightarrow> reach_cond_literal_true e
      | AST_EXPR_BOOL_LITERAL b \<Rightarrow> b
      | _ \<Rightarrow> False)"
  by pat_completeness auto
termination
proof (relation "measure size", goal_cases)
  case 1 show ?case by simp
qed (simp_all add: node_size)

declare reach_cond_literal_true.simps [simp del]

function reach_loop_has_exiting_break :: "ast_node \<Rightarrow> bool" where
  "reach_loop_has_exiting_break body =
     (case nbody body of
        AST_BLOCK items \<Rightarrow>
          list_ex
            (\<lambda>s. case nbody s of
                   AST_BREAK \<Rightarrow> True
                 | AST_BLOCK _ \<Rightarrow> reach_loop_has_exiting_break s
                 | AST_IF _ a b \<Rightarrow>
                     reach_loop_has_exiting_break a \<or>
                     (case b of None \<Rightarrow> False | Some e \<Rightarrow> reach_loop_has_exiting_break e)
                 | _ \<Rightarrow> False) items
      | _ \<Rightarrow> False)"
  by pat_completeness auto
termination
proof (relation "measure size", goal_cases)
  case 1 show ?case by simp
qed (auto simp: node_size dest!: size_list_member)

declare reach_loop_has_exiting_break.simps [simp del]

text \<open>The condition and body of a loop.\<close>

definition reach_loop_may_fall_past :: "ast_node option \<Rightarrow> ast_node \<Rightarrow> bool" where
  "reach_loop_may_fall_past cond body =
     (case cond of
        None \<Rightarrow> reach_loop_has_exiting_break body
      | Some e \<Rightarrow> if \<not> reach_cond_literal_true e then True else reach_loop_has_exiting_break body)"

definition clause_body :: "ast_node \<Rightarrow> ast_node option" where
  "clause_body cl =
     (case nbody cl of AST_CASE_CLAUSE _ b \<Rightarrow> Some b | AST_DEFAULT_CLAUSE b \<Rightarrow> Some b | _ \<Rightarrow> None)"

definition is_default :: "ast_node \<Rightarrow> bool" where
  "is_default cl = (case nbody cl of AST_DEFAULT_CLAUSE _ \<Rightarrow> True | _ \<Rightarrow> False)"

lemma clause_body_size: "clause_body cl = Some b \<Longrightarrow> size b < size cl"
  by (auto simp: clause_body_def node_size split: ast_body.splits)

function reach_stmt_may_fall_through :: "name_result \<Rightarrow> name_module \<Rightarrow> ast_node \<Rightarrow> nat \<Rightarrow> nat \<Rightarrow> bool" where
  "reach_stmt_may_fall_through nr m s ld sd =
     (case nbody s of
        AST_RETURN _ \<Rightarrow> False
      | AST_EXPR_STMT _ \<Rightarrow> \<not> reach_is_noreturn_call nr m s
      | AST_BREAK \<Rightarrow> \<not> (ld > 0 \<or> sd > 0)
      | AST_CONTINUE \<Rightarrow> \<not> (ld > 0)
      | AST_BLOCK items \<Rightarrow> list_all (\<lambda>x. reach_stmt_may_fall_through nr m x ld sd) items
      | AST_IF _ a b \<Rightarrow>
          (case b of
             None \<Rightarrow> True
           | Some e \<Rightarrow> reach_stmt_may_fall_through nr m a ld sd \<or> reach_stmt_may_fall_through nr m e ld sd)
      | AST_WHILE cond body \<Rightarrow> reach_loop_may_fall_past (Some cond) body
      | AST_FOR _ cond _ body \<Rightarrow> reach_loop_may_fall_past cond body
      | AST_SWITCH _ cases \<Rightarrow>
          if \<not> list_ex is_default cases then True
          else
            list_ex
              (\<lambda>cl. case clause_body cl of
                      None \<Rightarrow> False
                    | Some b \<Rightarrow>
                        (case nbody b of
                           AST_BLOCK items \<Rightarrow>
                             items = [] \<or> nbody (last items) = AST_BREAK \<or>
                             reach_stmt_may_fall_through nr m b ld (sd + 1)
                         | _ \<Rightarrow> False)) cases
      | AST_VAR_DECL _ _ _ \<Rightarrow> True
      | AST_CONST_DECL _ _ _ \<Rightarrow> True
      | AST_EMPTY_STMT \<Rightarrow> True
      | _ \<Rightarrow> False)"
  by pat_completeness auto
termination
proof (relation "measure (\<lambda>(nr, m, s, ld, sd). size s)", goal_cases)
  case 1 show ?case by simp
qed (auto simp: node_size dest!: size_list_member clause_body_size)

declare reach_stmt_may_fall_through.simps [simp del]

definition reach_list_may_fall_off :: "name_result \<Rightarrow> name_module \<Rightarrow> ast_node \<Rightarrow> nat \<Rightarrow> nat \<Rightarrow> bool" where
  "reach_list_may_fall_off nr m block ld sd =
     (case nbody block of
        AST_BLOCK items \<Rightarrow> list_all (\<lambda>x. reach_stmt_may_fall_through nr m x ld sd) items
      | _ \<Rightarrow> True)"


section \<open>Unreachable statements\<close>

definition reach_terminates :: "name_result \<Rightarrow> name_module \<Rightarrow> ast_node \<Rightarrow> nat \<Rightarrow> nat \<Rightarrow> bool" where
  "reach_terminates nr m s ld sd =
     (case nbody s of
        AST_RETURN _ \<Rightarrow> True
      | AST_EXPR_STMT _ \<Rightarrow> reach_is_noreturn_call nr m s
      | AST_BREAK \<Rightarrow> ld > 0 \<or> sd > 0
      | AST_CONTINUE \<Rightarrow> ld > 0
      | _ \<Rightarrow> False)"

text \<open>The state of the loop over the statements of a block: the value it has returned, if any, the
  flag \<open>terminated\<close>, and the context.\<close>

record walk_state =
  ws_done :: "bool option"
  ws_terminated :: bool
  ws_ctx :: reach_ctx

function reach_walk_stmt ::
  "name_result \<Rightarrow> name_module \<Rightarrow> ast_node \<Rightarrow> nat \<Rightarrow> nat \<Rightarrow> reach_ctx \<Rightarrow> bool \<times> reach_ctx" where
  "reach_walk_stmt nr m s ld sd c =
     (if rc_oom c then (True, c)
      else
        case nbody s of
          AST_BLOCK items \<Rightarrow>
            (let w = fold
               (\<lambda>x w. if ws_done w \<noteq> None then w
                  else if ws_terminated w then
                    (case reach_emit (ws_ctx w) ''AIC-E0417'' ''unreachable statement'' (Some (nspan x)) of
                       (ok, c1) \<Rightarrow> w\<lparr>ws_done := Some ok, ws_ctx := c1\<rparr>)
                  else
                    (case reach_walk_stmt nr m x ld sd (ws_ctx w) of
                       (ok, c1) \<Rightarrow>
                         \<lparr>ws_done = (if \<not> ok \<or> rc_oom c1 then Some False else None),
                          ws_terminated = reach_terminates nr m x ld sd, ws_ctx = c1\<rparr>))
               items \<lparr>ws_done = None, ws_terminated = False, ws_ctx = c\<rparr>
             in (case ws_done w of None \<Rightarrow> True | Some b \<Rightarrow> b, ws_ctx w))
        | AST_IF _ a b \<Rightarrow>
            (case reach_walk_stmt nr m a ld sd c of
               (False, c1) \<Rightarrow> (False, c1)
             | (True, c1) \<Rightarrow> (case b of None \<Rightarrow> (True, c1) | Some e \<Rightarrow> reach_walk_stmt nr m e ld sd c1))
        | AST_WHILE _ body \<Rightarrow> reach_walk_stmt nr m body (ld + 1) sd c
        | AST_FOR _ _ _ body \<Rightarrow> reach_walk_stmt nr m body (ld + 1) sd c
        | AST_SWITCH _ cases \<Rightarrow>
            fold
              (\<lambda>cl r. case clause_body cl of
                        None \<Rightarrow> r
                      | Some b \<Rightarrow>
                          if \<not> fst r then r
                          else (case reach_walk_stmt nr m b ld (sd + 1) (snd r) of
                                  (ok, c1) \<Rightarrow> (ok \<and> \<not> rc_oom c1, c1)))
              cases (True, c)
        | AST_RETURN _ \<Rightarrow> (True, c)
        | AST_BREAK \<Rightarrow> (True, c)
        | AST_CONTINUE \<Rightarrow> (True, c)
        | AST_EXPR_STMT _ \<Rightarrow> (True, c)
        | AST_VAR_DECL _ _ _ \<Rightarrow> (True, c)
        | AST_CONST_DECL _ _ _ \<Rightarrow> (True, c)
        | AST_EMPTY_STMT \<Rightarrow> (True, c)
        | _ \<Rightarrow> (False, c\<lparr>rc_unsupported := True\<rparr>))"
  by pat_completeness auto
termination
proof (relation "measure (\<lambda>(nr, m, s, ld, sd, c). size s)", goal_cases)
  case 1 show ?case by simp
qed (auto simp: node_size dest!: size_list_member clause_body_size)

declare reach_walk_stmt.simps [simp del]

definition reach_walk_block :: "name_result \<Rightarrow> name_module \<Rightarrow> ast_node \<Rightarrow> reach_ctx \<Rightarrow> bool \<times> reach_ctx" where
  "reach_walk_block nr m block c =
     (case nbody block of
        AST_BLOCK _ \<Rightarrow> reach_walk_stmt nr m block 0 0 c
      | _ \<Rightarrow> (False, c\<lparr>rc_unsupported := True\<rparr>))"

definition reach_walk_decl :: "name_result \<Rightarrow> name_module \<Rightarrow> ast_node \<Rightarrow> reach_ctx \<Rightarrow> bool \<times> reach_ctx" where
  "reach_walk_decl nr m decl c =
     (if rc_oom c then (True, c)
      else
        case nbody decl of
          AST_FN_DECL _ _ _ body _ \<Rightarrow> reach_walk_block nr m body c
        | _ \<Rightarrow> (True, c))"

section \<open>The check\<close>

text \<open>A message written with \<open>snprintf\<close> into 256 bytes.\<close>

definition no_return_msg :: "string \<Rightarrow> string" where
  "no_return_msg name =
     take 255 (''non-void function '' @ [CHR 0x27] @ name @ [CHR 0x27] @ '' has a path without return'')"

definition reach_check_fn_tail :: "name_result \<Rightarrow> name_module \<Rightarrow> ast_node \<Rightarrow> reach_ctx \<Rightarrow> reach_ctx" where
  "reach_check_fn_tail nr m decl c =
     (case nbody decl of
        AST_FN_DECL name _ ret body _ \<Rightarrow>
          if rc_oom c then c
          else if nbody ret = AST_TYPE_PRIM AST_PRIM_VOID then c
          else
            (case nbody body of
               AST_BLOCK _ \<Rightarrow>
                 if \<not> reach_list_may_fall_off nr m body 0 0 then c
                 else
                   snd (reach_emit c ''AIC-E0416'' (no_return_msg name)
                     (case reach_fn_header_span m decl of Some sp \<Rightarrow> Some sp | None \<Rightarrow> Some (nspan decl)))
             | _ \<Rightarrow> c\<lparr>rc_unsupported := True\<rparr>)
      | _ \<Rightarrow> c)"

fun reach_syms :: "name_result \<Rightarrow> name_module \<Rightarrow> sym_ref list \<Rightarrow> reach_ctx \<Rightarrow> reach_ctx" where
  "reach_syms nr m [] c = c"
| "reach_syms nr m (s # syms) c =
     (case sym_decl (sym_at nr s) of
        None \<Rightarrow> reach_syms nr m syms c
      | Some d \<Rightarrow>
          let c1 = reach_check_fn_tail nr m d c
          in if rc_oom c1 \<or> rc_unsupported c1 then c1
             else (case reach_walk_decl nr m d c1 of
                     (ok, c2) \<Rightarrow> if ok then reach_syms nr m syms c2 else c2))"

fun reach_modules :: "name_result \<Rightarrow> name_module list \<Rightarrow> reach_ctx \<Rightarrow> reach_ctx" where
  "reach_modules nr [] c = c"
| "reach_modules nr (m # ms) c =
     (let c1 = reach_syms nr m (mod_scope m) c
      in if rc_oom c1 \<or> rc_unsupported c1 then c1 else reach_modules nr ms c1)"

datatype stmt_reach_status =
    STMT_REACH_OK
  | STMT_REACH_DIAG_ERROR "diag_record option list"
  | STMT_REACH_UNSUPPORTED
  | STMT_REACH_OOM

text \<open>The name result and the layout are present; the layout is not read further.\<close>

definition stmt_reach_check ::
  "((diag_record option \<Rightarrow> diag_record option \<Rightarrow> int) \<Rightarrow> diag_record option list \<Rightarrow> diag_record option list)
     \<Rightarrow> name_result \<Rightarrow> stmt_reach_status" where
  "stmt_reach_check qsort nr =
     (let c = reach_modules nr (nr_modules nr) \<lparr>rc_records = [], rc_oom = False, rc_unsupported = False\<rparr>
      in if rc_oom c then STMT_REACH_OOM
         else if rc_records c \<noteq> [] then
           STMT_REACH_DIAG_ERROR (the (diag_sort_records qsort (Some (map Some (rc_records c)))))
         else if rc_unsupported c then STMT_REACH_UNSUPPORTED
         else STMT_REACH_OK)"

end
