(* ===== verification/ReachProps.thy ===== *)
theory ReachProps
  imports Reach TypesProps
begin

text \<open>
  Soundness of the reachability check against a big-step semantics of control flow in which
  conditions and switch selectors may take any value they can take: a function that passes has no
  statement behind a terminator, and no execution that reaches the end of its body if the breaks of the
  body are where the analysis looks for them (\<open>tame\<close>).
\<close>

section \<open>Control flow\<close>

datatype flow = Done | Broke | Continued | Returned | Halted

text \<open>Only a parenthesised literal is known to be true.\<close>

inductive may_be_false :: "ast_node \<Rightarrow> bool" where
  literal: "nbody e = AST_EXPR_BOOL_LITERAL False \<Longrightarrow> may_be_false e"
| paren: "nbody e = AST_EXPR_PAREN x \<Longrightarrow> may_be_false x \<Longrightarrow> may_be_false e"
| other: "(\<And>b. nbody e \<noteq> AST_EXPR_BOOL_LITERAL b) \<Longrightarrow> (\<And>x. nbody e \<noteq> AST_EXPR_PAREN x) \<Longrightarrow> may_be_false e"

fun loop_parts :: "ast_node \<Rightarrow> (ast_node option \<times> ast_node) option" where
  "loop_parts s =
     (case nbody s of AST_WHILE c b \<Rightarrow> Some (Some c, b) | AST_FOR _ c _ b \<Rightarrow> Some (c, b) | _ \<Rightarrow> None)"

inductive exec :: "name_result \<Rightarrow> name_module \<Rightarrow> ast_node \<Rightarrow> flow \<Rightarrow> bool"
  and execs :: "name_result \<Rightarrow> name_module \<Rightarrow> ast_node list \<Rightarrow> flow \<Rightarrow> bool"
  for nr :: name_result and m :: name_module
where
  ret: "nbody s = AST_RETURN v \<Longrightarrow> exec nr m s Returned"
| call: "nbody s = AST_EXPR_STMT e \<Longrightarrow> exec nr m s (if reach_is_noreturn_call nr m s then Halted else Done)"
| break: "nbody s = AST_BREAK \<Longrightarrow> exec nr m s Broke"
| continue: "nbody s = AST_CONTINUE \<Longrightarrow> exec nr m s Continued"
| var: "nbody s = AST_VAR_DECL n t i \<Longrightarrow> exec nr m s Done"
| const: "nbody s = AST_CONST_DECL n t i \<Longrightarrow> exec nr m s Done"
| empty: "nbody s = AST_EMPTY_STMT \<Longrightarrow> exec nr m s Done"
| block: "nbody s = AST_BLOCK items \<Longrightarrow> execs nr m items r \<Longrightarrow> exec nr m s r"
| if_then: "nbody s = AST_IF c a b \<Longrightarrow> exec nr m a r \<Longrightarrow> exec nr m s r"
| if_else: "nbody s = AST_IF c a (Some b) \<Longrightarrow> exec nr m b r \<Longrightarrow> exec nr m s r"
| if_skip: "nbody s = AST_IF c a None \<Longrightarrow> exec nr m s Done"
| loop_exit: "loop_parts s = Some (Some c, b) \<Longrightarrow> may_be_false c \<Longrightarrow> exec nr m s Done"
| loop_break: "loop_parts s = Some (c, b) \<Longrightarrow> exec nr m b Broke \<Longrightarrow> exec nr m s Done"
| loop_leave: "loop_parts s = Some (c, b) \<Longrightarrow> exec nr m b r \<Longrightarrow> r = Returned \<or> r = Halted \<Longrightarrow> exec nr m s r"
| loop_again: "loop_parts s = Some (c, b) \<Longrightarrow> exec nr m b r1 \<Longrightarrow> r1 = Done \<or> r1 = Continued \<Longrightarrow>
     exec nr m s r \<Longrightarrow> exec nr m s r"
| switch_none: "nbody s = AST_SWITCH e cases \<Longrightarrow> \<not> list_ex is_default cases \<Longrightarrow> exec nr m s Done"
| switch_case: "nbody s = AST_SWITCH e cases \<Longrightarrow> cl \<in> set cases \<Longrightarrow> clause_body cl = Some b \<Longrightarrow>
     exec nr m b r \<Longrightarrow> exec nr m s (if r = Broke then Done else r)"
| nil: "execs nr m [] Done"
| step: "exec nr m x Done \<Longrightarrow> execs nr m xs r \<Longrightarrow> execs nr m (x # xs) r"
| stop: "exec nr m x r \<Longrightarrow> r \<noteq> Done \<Longrightarrow> execs nr m (x # xs) r"

lemma may_be_false_iff: "may_be_false e \<longleftrightarrow> \<not> reach_cond_literal_true e"
proof
  show "may_be_false e \<Longrightarrow> \<not> reach_cond_literal_true e"
    by (induction rule: may_be_false.induct) (auto simp: reach_cond_literal_true.simps split: ast_body.splits)
next
  show "\<not> reach_cond_literal_true e \<Longrightarrow> may_be_false e"
  proof (induction e rule: reach_cond_literal_true.induct)
    case (1 e)
    show ?case
    proof (cases "(\<exists>b. nbody e = AST_EXPR_BOOL_LITERAL b) \<or> (\<exists>x. nbody e = AST_EXPR_PAREN x)")
      case True
      then show ?thesis using 1
        by (auto simp: reach_cond_literal_true.simps [of e] intro: may_be_false.intros)
    qed (auto intro: may_be_false.other)
  qed
qed

section \<open>Breaks\<close>

text \<open>A \<open>break\<close> that leaves the statement it occurs in.\<close>

function free_break :: "ast_node \<Rightarrow> bool" where
  "free_break s =
     (case nbody s of
        AST_BREAK \<Rightarrow> True
      | AST_BLOCK items \<Rightarrow> list_ex free_break items
      | AST_IF _ a b \<Rightarrow> free_break a \<or> (case b of None \<Rightarrow> False | Some e \<Rightarrow> free_break e)
      | _ \<Rightarrow> False)"
  by pat_completeness auto
termination
proof (relation "measure size", goal_cases)
  case 1 show ?case by simp
qed (auto simp: node_size dest!: size_list_member)

declare free_break.simps [simp del]

definition is_block :: "ast_node \<Rightarrow> bool" where
  "is_block s = (case nbody s of AST_BLOCK _ \<Rightarrow> True | _ \<Rightarrow> False)"

definition breaks_last :: "ast_node \<Rightarrow> bool" where
  "breaks_last b =
     (case nbody b of
        AST_BLOCK items \<Rightarrow>
          list_all (\<lambda>x. \<not> free_break x) (butlast items) \<and>
          (items \<noteq> [] \<longrightarrow> nbody (last items) = AST_BREAK \<or> \<not> free_break (last items))
      | _ \<Rightarrow> False)"

text \<open>Breaks are where the analysis looks for them: at the end of a switch clause, and in a loop not
  behind \<open>else if\<close>.\<close>

function tame :: "ast_node \<Rightarrow> bool" where
  "tame s =
     (case nbody s of
        AST_BLOCK items \<Rightarrow> list_all tame items
      | AST_IF _ a b \<Rightarrow>
          tame a \<and> is_block a \<and>
          (case b of None \<Rightarrow> True | Some e \<Rightarrow> tame e \<and> (is_block e \<or> \<not> free_break e))
      | AST_WHILE _ b \<Rightarrow> tame b \<and> is_block b
      | AST_FOR _ _ _ b \<Rightarrow> tame b \<and> is_block b
      | AST_SWITCH _ cases \<Rightarrow>
          list_all
            (\<lambda>cl. case clause_body cl of
                    None \<Rightarrow> True
                  | Some b \<Rightarrow> tame b \<and> breaks_last b) cases
      | _ \<Rightarrow> True)"
  by pat_completeness auto
termination
proof (relation "measure size", goal_cases)
  case 1 show ?case by simp
qed (auto simp: node_size dest!: size_list_member clause_body_size)

declare tame.simps [simp del]

lemma free_break_simps:
  "nbody s = AST_BREAK \<Longrightarrow> free_break s"
  "nbody s = AST_BLOCK items \<Longrightarrow> free_break s \<longleftrightarrow> (\<exists>x \<in> set items. free_break x)"
  "nbody s = AST_IF c a b \<Longrightarrow> free_break s \<longleftrightarrow> free_break a \<or> (\<exists>e. b = Some e \<and> free_break e)"
  by (simp_all add: free_break.simps [of s] list_ex_iff split: option.split)

lemma exec_break: "exec nr m s r \<Longrightarrow> r = Broke \<Longrightarrow> free_break s"
  and execs_break: "execs nr m ss r' \<Longrightarrow> r' = Broke \<Longrightarrow> \<exists>x \<in> set ss. free_break x"
  by (induction rule: exec_execs.inducts) (auto simp: free_break_simps split: if_split_asm)

lemma tame_loop_break:
  assumes "tame b" and "is_block b" and "free_break b"
  shows "reach_loop_has_exiting_break b"
  using assms
proof (induction b rule: reach_loop_has_exiting_break.induct)
  case (1 b)
  then obtain items where b: "nbody b = AST_BLOCK items" by (auto simp: is_block_def split: ast_body.splits)
  then obtain x where x: "x \<in> set items" "free_break x" using "1.prems"(3) by (auto simp: free_break_simps)
  have tx: "tame x" using "1.prems"(1) b x by (simp add: tame.simps [of b] list_all_iff)
  have "case nbody x of AST_BREAK \<Rightarrow> True | AST_BLOCK _ \<Rightarrow> reach_loop_has_exiting_break x
      | AST_IF _ a e \<Rightarrow> reach_loop_has_exiting_break a \<or> (case e of None \<Rightarrow> False | Some e \<Rightarrow> reach_loop_has_exiting_break e)
      | _ \<Rightarrow> False"
  proof (cases "nbody x")
    case (AST_BLOCK its)
    have "reach_loop_has_exiting_break x"
      by (rule "1.IH"(1) [OF b x(1) AST_BLOCK]) (use tx x(2) AST_BLOCK in \<open>simp_all add: is_block_def\<close>)
    with AST_BLOCK show ?thesis by simp
  next
    case (AST_IF c a e)
    have ta: "tame a" "is_block a" and te: "e = Some y \<Longrightarrow> tame y \<and> (is_block y \<or> \<not> free_break y)" for y
      using tx AST_IF by (simp_all add: tame.simps [of x])
    from x(2) AST_IF have "free_break a \<or> (\<exists>y. e = Some y \<and> free_break y)" by (simp add: free_break_simps)
    then show ?thesis
    proof
      assume "free_break a"
      then have "reach_loop_has_exiting_break a" by (intro "1.IH"(2) [OF b x(1) AST_IF]) (simp_all add: ta)
      with AST_IF show ?thesis by simp
    next
      assume "\<exists>y. e = Some y \<and> free_break y"
      then obtain y where y: "e = Some y" "free_break y" by blast
      with te have "reach_loop_has_exiting_break y \<or> reach_loop_has_exiting_break a"
        using "1.IH"(3) [OF b x(1) AST_IF y(1)] y(2) by blast
      with AST_IF y(1) show ?thesis by auto
    qed
  qed (use x(2) in \<open>simp_all add: free_break.simps [of x]\<close>)
  with b x(1) show ?case by (auto simp: reach_loop_has_exiting_break.simps [of b] list_ex_iff)
qed

section \<open>Soundness of the fall-through analysis\<close>

lemma loop_falls:
  assumes "loop_parts s = Some (c, b)"
  shows "reach_stmt_may_fall_through nr m s ld sd \<longleftrightarrow> reach_loop_may_fall_past c b"
    and "tame s \<Longrightarrow> tame b \<and> is_block b"
  using assms
  by (auto simp: reach_stmt_may_fall_through.simps [of nr m s] tame.simps [of s] split: ast_body.splits)

lemma loop_break_falls:
  assumes "loop_parts s = Some (c, b)" and "tame s" and "exec nr m b Broke"
  shows "reach_stmt_may_fall_through nr m s ld sd"
proof -
  have "reach_loop_has_exiting_break b"
    using loop_falls(2) [OF assms(1,2)] exec_break [OF assms(3)] by (intro tame_loop_break) auto
  then show ?thesis unfolding loop_falls(1) [OF assms(1)]
    by (cases c) (simp_all add: reach_loop_may_fall_past_def)
qed

lemma clause_tame:
  assumes "nbody s = AST_SWITCH e cases" and "tame s" and "cl \<in> set cases" and "clause_body cl = Some b"
  obtains items where "nbody b = AST_BLOCK items" "tame b" "\<forall>x \<in> set (butlast items). \<not> free_break x"
    "items \<noteq> [] \<longrightarrow> nbody (last items) = AST_BREAK \<or> \<not> free_break (last items)"
proof -
  have t: "tame b" "breaks_last b"
    using assms(2-4) by (force simp: tame.simps [of s] assms(1) list_all_iff)+
  then obtain items where i: "nbody b = AST_BLOCK items" by (cases "nbody b") (auto simp: breaks_last_def)
  with t show thesis by (intro that [OF i]) (simp_all add: breaks_last_def list_all_iff)
qed

lemma switch_falls:
  assumes s: "nbody s = AST_SWITCH e cases" and t: "tame s" and c: "cl \<in> set cases" "clause_body cl = Some b"
    and x: "exec nr m b r" and r: "r = Broke \<or> r = Done \<and> reach_stmt_may_fall_through nr m b ld (sd + 1)"
  shows "reach_stmt_may_fall_through nr m s ld sd"
proof -
  obtain items where b: "nbody b = AST_BLOCK items"
    and bl: "\<forall>x \<in> set (butlast items). \<not> free_break x"
    and la: "items \<noteq> [] \<longrightarrow> nbody (last items) = AST_BREAK \<or> \<not> free_break (last items)"
    by (rule clause_tame [OF s t c])
  have "items = [] \<or> nbody (last items) = AST_BREAK \<or> reach_stmt_may_fall_through nr m b ld (sd + 1)"
  proof (cases "r = Broke")
    case True
    with exec_break [OF x] b obtain y where y: "y \<in> set items" "free_break y" by (auto simp: free_break_simps)
    then have "items \<noteq> []" by auto
    moreover from this y have "y \<in> set (butlast items) \<or> y = last items"
      by (metis append_butlast_last_id in_set_conv_decomp rotate1.simps(2) set_ConsD set_rotate1)
    ultimately show ?thesis using y bl la by auto
  qed (use r in simp)
  then show ?thesis using c s b
    by (auto simp: reach_stmt_may_fall_through.simps [of nr m s] list_ex_iff intro!: bexI [of _ cl])
qed

lemma falls_simps:
  "nbody s = AST_RETURN v \<Longrightarrow> \<not> reach_stmt_may_fall_through nr m s ld sd"
  "nbody s = AST_EXPR_STMT e \<Longrightarrow> reach_stmt_may_fall_through nr m s ld sd \<longleftrightarrow> \<not> reach_is_noreturn_call nr m s"
  "nbody s = AST_BLOCK items \<Longrightarrow>
     reach_stmt_may_fall_through nr m s ld sd \<longleftrightarrow> list_all (\<lambda>x. reach_stmt_may_fall_through nr m x ld sd) items"
  "nbody s = AST_IF c a (Some b) \<Longrightarrow>
     reach_stmt_may_fall_through nr m s ld sd \<longleftrightarrow>
       reach_stmt_may_fall_through nr m a ld sd \<or> reach_stmt_may_fall_through nr m b ld sd"
  "nbody s = AST_IF c a None \<Longrightarrow> reach_stmt_may_fall_through nr m s ld sd"
  "nbody s = AST_VAR_DECL n t i \<Longrightarrow> reach_stmt_may_fall_through nr m s ld sd"
  "nbody s = AST_CONST_DECL n t e \<Longrightarrow> reach_stmt_may_fall_through nr m s ld sd"
  "nbody s = AST_EMPTY_STMT \<Longrightarrow> reach_stmt_may_fall_through nr m s ld sd"
  "nbody s = AST_SWITCH e cases \<Longrightarrow> \<not> list_ex is_default cases \<Longrightarrow> reach_stmt_may_fall_through nr m s ld sd"
  by (simp_all add: reach_stmt_may_fall_through.simps [of nr m s])

lemma tame_simps:
  "nbody s = AST_BLOCK items \<Longrightarrow> tame s \<longleftrightarrow> list_all tame items"
  "nbody s = AST_IF c a (Some b) \<Longrightarrow> tame s \<longleftrightarrow> tame a \<and> is_block a \<and> tame b \<and> (is_block b \<or> \<not> free_break b)"
  "nbody s = AST_IF c a None \<Longrightarrow> tame s \<longleftrightarrow> tame a \<and> is_block a"
  by (simp_all add: tame.simps [of s])

lemma exec_falls:
  "exec nr m s r \<Longrightarrow> tame s \<Longrightarrow> r = Done \<Longrightarrow> reach_stmt_may_fall_through nr m s ld sd"
  and execs_falls:
  "execs nr m ss r' \<Longrightarrow> list_all tame ss \<Longrightarrow> r' = Done \<Longrightarrow> list_all (\<lambda>x. reach_stmt_may_fall_through nr m x ld sd) ss"
proof (induction arbitrary: ld sd and ld sd rule: exec_execs.inducts)
  case (loop_exit s c b)
  then show ?case by (simp add: loop_falls(1) [OF loop_exit(1)] reach_loop_may_fall_past_def may_be_false_iff)
next
  case (loop_break s c b)
  then show ?case using loop_break_falls by blast
next
  case (switch_case s e cases cl b r)
  then show ?case
    using clause_tame [OF switch_case(1) switch_case.prems(1) switch_case(2,3)]
      switch_falls [OF switch_case(1) switch_case.prems(1) switch_case(2,3,4)]
    by (metis)
next
  case (if_then s c a b r)
  then show ?case by (cases b) (auto simp: falls_simps tame_simps)
qed (auto simp: falls_simps tame_simps split: if_split_asm)


section \<open>The walk\<close>

text \<open>No statement of a block stands behind a terminator of the block.\<close>

function no_dead :: "name_result \<Rightarrow> name_module \<Rightarrow> ast_node \<Rightarrow> nat \<Rightarrow> nat \<Rightarrow> bool" where
  "no_dead nr m s ld sd =
     (case nbody s of
        AST_BLOCK items \<Rightarrow>
          list_all (\<lambda>x. \<not> reach_terminates nr m x ld sd) (butlast items) \<and>
          list_all (\<lambda>x. no_dead nr m x ld sd) items
      | AST_IF _ a b \<Rightarrow> no_dead nr m a ld sd \<and> (case b of None \<Rightarrow> True | Some e \<Rightarrow> no_dead nr m e ld sd)
      | AST_WHILE _ b \<Rightarrow> no_dead nr m b (ld + 1) sd
      | AST_FOR _ _ _ b \<Rightarrow> no_dead nr m b (ld + 1) sd
      | AST_SWITCH _ cases \<Rightarrow>
          list_all (\<lambda>cl. case clause_body cl of None \<Rightarrow> True | Some b \<Rightarrow> no_dead nr m b ld (sd + 1)) cases
      | _ \<Rightarrow> True)"
  by pat_completeness auto
termination
proof (relation "measure (\<lambda>(nr, m, s, ld, sd). size s)", goal_cases)
  case 1 show ?case by simp
qed (auto simp: node_size dest!: size_list_member clause_body_size)

declare no_dead.simps [simp del]

definition semantic_record :: "string \<Rightarrow> string \<Rightarrow> diag_span option \<Rightarrow> diag_record" where
  "semantic_record code message span =
     diag_record_new\<lparr>rec_code := Some code, rec_severity := Some ''error'', rec_phase := Some ''semantic'',
       rec_message := Some message, rec_primary_span := span, rec_recovery := Some ''authoritative''\<rparr>"

definition reach_rec_ok :: "diag_record \<Rightarrow> bool" where
  "reach_rec_ok r \<longleftrightarrow> (\<exists>code \<in> {''AIC-E0416'', ''AIC-E0417''}. \<exists>message span. r = semantic_record code message (Some span))"

lemma lookup_E:
  assumes "code \<in> {''AIC-E0416'', ''AIC-E0417''}"
  shows "\<exists>info. diag_code_lookup code = Some info \<and> ci_phase info = ''semantic'' \<and> ci_severity info = ''error''"
  using assms by (elim insertE emptyE; simp add: diag_code_lookup_def kCodes_def code_info_def)

lemma reach_rec_valid: "reach_rec_ok r \<Longrightarrow> diag_record_validate r = None"
proof -
  assume "reach_rec_ok r"
  then obtain code message span where c: "code \<in> {''AIC-E0416'', ''AIC-E0417''}" and r: "r = semantic_record code message (Some span)"
    unfolding reach_rec_ok_def by blast
  obtain info where "diag_code_lookup code = Some info" "ci_phase info = ''semantic''" "ci_severity info = ''error''"
    using lookup_E [OF c] by blast
  then show ?thesis
    by (simp add: r semantic_record_def diag_record_validate_def is_one_of_consts diag_record_new_def)
qed

lemma reach_emit_eq:
  assumes "code \<in> {''AIC-E0416'', ''AIC-E0417''}"
  shows "reach_emit c code message (Some span) =
    (True, c\<lparr>rc_records := rc_records c @ [semantic_record code message (Some span)]\<rparr>)"
proof -
  obtain info where "diag_code_lookup code = Some info" "ci_phase info = ''semantic''" "ci_severity info = ''error''"
    using lookup_E [OF assms] by blast
  then show ?thesis
    by (simp add: reach_emit_def reach_new_record_def semantic_record_def setter_defs is_one_of_consts diag_record_new_def)
qed

text \<open>What a part of the walk does to the context.\<close>

definition walks :: "reach_ctx \<Rightarrow> reach_ctx \<Rightarrow> bool" where
  "walks c c' \<longleftrightarrow> \<not> rc_oom c' \<and> (rc_unsupported c \<longrightarrow> rc_unsupported c') \<and>
     (\<exists>rs. rc_records c' = rc_records c @ rs \<and> (\<forall>r \<in> set rs. reach_rec_ok r))"

lemma walks_refl: "\<not> rc_oom c \<Longrightarrow> walks c c"
  by (simp add: walks_def)

lemma walks_trans:
  assumes "walks c c'" and "walks c' c''"
  shows "walks c c''"
proof -
  obtain rs rs' where "rc_records c' = rc_records c @ rs" "\<forall>r \<in> set rs. reach_rec_ok r"
    "rc_records c'' = rc_records c' @ rs'" "\<forall>r \<in> set rs'. reach_rec_ok r"
    using assms unfolding walks_def by blast
  then have "rc_records c'' = rc_records c @ (rs @ rs') \<and> (\<forall>r \<in> set (rs @ rs'). reach_rec_ok r)" by auto
  with assms show ?thesis unfolding walks_def by blast
qed

lemma walks_quiet:
  assumes "walks c c'" and "walks c' c''" and "rc_records c'' = rc_records c"
  shows "rc_records c' = rc_records c \<and> rc_records c'' = rc_records c'"
proof -
  obtain rs rs' where "rc_records c' = rc_records c @ rs" "rc_records c'' = rc_records c' @ rs'"
    using assms(1,2) unfolding walks_def by blast
  with assms(3) show ?thesis by simp
qed

lemma walks_emit:
  "\<not> rc_oom c \<Longrightarrow> code \<in> {''AIC-E0416'', ''AIC-E0417''} \<Longrightarrow> walks c (snd (reach_emit c code message (Some span)))"
  unfolding reach_emit_eq walks_def reach_rec_ok_def by auto

definition walk_good :: "bool \<Rightarrow> bool \<Rightarrow> reach_ctx \<Rightarrow> reach_ctx \<Rightarrow> bool" where
  "walk_good good ok c c' \<longleftrightarrow> walks c c' \<and> (\<not> ok \<longrightarrow> rc_unsupported c') \<and> (ok \<and> rc_records c' = rc_records c \<longrightarrow> good)"

lemma walk_good_oom: "walk_good g ok c c' \<Longrightarrow> \<not> rc_oom c'"
  by (simp add: walk_good_def walks_def)

definition block_step ::
  "name_result \<Rightarrow> name_module \<Rightarrow> nat \<Rightarrow> nat \<Rightarrow> ast_node \<Rightarrow> walk_state \<Rightarrow> walk_state" where
  "block_step nr m ld sd x w =
     (if ws_done w \<noteq> None then w
      else if ws_terminated w then
        (case reach_emit (ws_ctx w) ''AIC-E0417'' ''unreachable statement'' (Some (nspan x)) of
           (ok, c1) \<Rightarrow> w\<lparr>ws_done := Some ok, ws_ctx := c1\<rparr>)
      else
        (case reach_walk_stmt nr m x ld sd (ws_ctx w) of
           (ok, c1) \<Rightarrow>
             \<lparr>ws_done = (if \<not> ok \<or> rc_oom c1 then Some False else None),
              ws_terminated = reach_terminates nr m x ld sd, ws_ctx = c1\<rparr>))"

lemma block_step_done: "ws_done w \<noteq> None \<Longrightarrow> fold (block_step nr m ld sd) items w = w"
  by (induction items) (simp_all add: block_step_def)

lemma block_walk:
  assumes "\<And>x c ok c'. x \<in> set items \<Longrightarrow> \<not> rc_oom c \<Longrightarrow> reach_walk_stmt nr m x ld sd c = (ok, c') \<Longrightarrow>
      walk_good (no_dead nr m x ld sd) ok c c'"
    and "\<not> rc_oom (ws_ctx w)" and "ws_done w = None"
    and "fold (block_step nr m ld sd) items w = w'"
  shows "walk_good ((ws_terminated w \<longrightarrow> items = []) \<and> list_all (\<lambda>x. \<not> reach_terminates nr m x ld sd) (butlast items) \<and>
      list_all (\<lambda>x. no_dead nr m x ld sd) items)
    (case ws_done w' of None \<Rightarrow> True | Some b \<Rightarrow> b) (ws_ctx w) (ws_ctx w')"
  using assms
proof (induction items arbitrary: w)
  case Nil
  then show ?case by (simp add: walk_good_def walks_refl)
next
  case (Cons x items)
  show ?case
  proof (cases "ws_terminated w")
    case True
    define c1 where "c1 = snd (reach_emit (ws_ctx w) ''AIC-E0417'' ''unreachable statement'' (Some (nspan x)))"
    have b: "block_step nr m ld sd x w = w\<lparr>ws_done := Some True, ws_ctx := c1\<rparr>"
      using True Cons.prems(3) by (simp add: block_step_def c1_def reach_emit_eq)
    then have w': "w' = w\<lparr>ws_done := Some True, ws_ctx := c1\<rparr>"
      using Cons.prems(4) by (simp add: block_step_done)
    have "walks (ws_ctx w) c1" unfolding c1_def by (rule walks_emit) (use Cons.prems(2) in auto)
    moreover have "rc_records c1 \<noteq> rc_records (ws_ctx w)" by (simp add: c1_def reach_emit_eq)
    ultimately show ?thesis by (simp add: w' walk_good_def)
  next
    case False
    obtain ok c1 where r: "reach_walk_stmt nr m x ld sd (ws_ctx w) = (ok, c1)"
      by (cases "reach_walk_stmt nr m x ld sd (ws_ctx w)")
    have g: "walk_good (no_dead nr m x ld sd) ok (ws_ctx w) c1" using Cons.prems(1) [OF _ Cons.prems(2) r] by simp
    then have oom: "\<not> rc_oom c1" by (rule walk_good_oom)
    define w1 where "w1 = \<lparr>ws_done = (if ok then None else Some False), ws_terminated = reach_terminates nr m x ld sd, ws_ctx = c1\<rparr>"
    have b: "block_step nr m ld sd x w = w1"
      using False Cons.prems(3) r oom by (simp add: block_step_def w1_def)
    show ?thesis
    proof (cases ok)
      case False
      then have "w' = w1" using Cons.prems(4) b by (simp add: block_step_done w1_def)
      then show ?thesis using g False by (simp add: w1_def walk_good_def)
    next
      case True
      have ih: "walk_good ((ws_terminated w1 \<longrightarrow> items = []) \<and> list_all (\<lambda>x. \<not> reach_terminates nr m x ld sd) (butlast items) \<and>
          list_all (\<lambda>x. no_dead nr m x ld sd) items)
        (case ws_done w' of None \<Rightarrow> True | Some b \<Rightarrow> b) (ws_ctx w1) (ws_ctx w')"
        by (rule Cons.IH) (use Cons.prems(1,4) True oom b in \<open>auto simp: w1_def\<close>)
      have w1: "ws_ctx w1 = c1" "ws_terminated w1 = reach_terminates nr m x ld sd" by (simp_all add: w1_def)
      have gw: "walks (ws_ctx w) c1" and gd: "rc_records c1 = rc_records (ws_ctx w) \<longrightarrow> no_dead nr m x ld sd"
        using g True unfolding walk_good_def by simp_all
      have iw: "walks c1 (ws_ctx w')"
        and iu: "\<not> (case ws_done w' of None \<Rightarrow> True | Some b \<Rightarrow> b) \<longrightarrow> rc_unsupported (ws_ctx w')"
        and id: "(case ws_done w' of None \<Rightarrow> True | Some b \<Rightarrow> b) \<and> rc_records (ws_ctx w') = rc_records c1 \<longrightarrow>
          (reach_terminates nr m x ld sd \<longrightarrow> items = []) \<and>
          list_all (\<lambda>x. \<not> reach_terminates nr m x ld sd) (butlast items) \<and> list_all (\<lambda>x. no_dead nr m x ld sd) items"
        using ih unfolding walk_good_def w1 by blast+
      have "(ws_terminated w \<longrightarrow> x # items = []) \<and>
          list_all (\<lambda>x. \<not> reach_terminates nr m x ld sd) (butlast (x # items)) \<and>
          list_all (\<lambda>x. no_dead nr m x ld sd) (x # items)"
        if "(case ws_done w' of None \<Rightarrow> True | Some b \<Rightarrow> b)" "rc_records (ws_ctx w') = rc_records (ws_ctx w)"
        using walks_quiet [OF gw iw that(2)] gd id that(1) False by (cases "items = []") simp_all
      moreover have "walks (ws_ctx w) (ws_ctx w')" by (rule walks_trans [OF gw iw])
      moreover note iu
      ultimately show ?thesis unfolding walk_good_def by blast
    qed
  qed
qed


definition clause_step ::
  "name_result \<Rightarrow> name_module \<Rightarrow> nat \<Rightarrow> nat \<Rightarrow> ast_node \<Rightarrow> bool \<times> reach_ctx \<Rightarrow> bool \<times> reach_ctx" where
  "clause_step nr m ld sd cl r =
     (case clause_body cl of
        None \<Rightarrow> r
      | Some b \<Rightarrow>
          if \<not> fst r then r
          else (case reach_walk_stmt nr m b ld (sd + 1) (snd r) of (ok, c1) \<Rightarrow> (ok \<and> \<not> rc_oom c1, c1)))"

lemma clause_walk:
  assumes "\<And>cl b c ok c'. cl \<in> set cases \<Longrightarrow> clause_body cl = Some b \<Longrightarrow> \<not> rc_oom c \<Longrightarrow>
      reach_walk_stmt nr m b ld (sd + 1) c = (ok, c') \<Longrightarrow> walk_good (no_dead nr m b ld (sd + 1)) ok c c'"
    and "\<not> rc_oom c" and "fold (clause_step nr m ld sd) cases (True, c) = (ok, c')"
  shows "walk_good (list_all (\<lambda>cl. case clause_body cl of None \<Rightarrow> True | Some b \<Rightarrow> no_dead nr m b ld (sd + 1)) cases) ok c c'"
  using assms
proof (induction cases arbitrary: c)
  case Nil
  then show ?case by (simp add: walk_good_def walks_refl)
next
  case (Cons cl cases)
  show ?case
  proof (cases "clause_body cl")
    case None
    have "walk_good (list_all (\<lambda>cl. case clause_body cl of None \<Rightarrow> True | Some b \<Rightarrow> no_dead nr m b ld (sd + 1)) cases) ok c c'"
    proof (rule Cons.IH)
      show "fold (clause_step nr m ld sd) cases (True, c) = (ok, c')"
        using Cons.prems(3) None by (simp add: clause_step_def [of _ _ _ _ cl])
    qed (rule Cons.prems(1) [OF list.set_intros(2)], assumption+, rule Cons.prems(2))
    with None show ?thesis by simp
  next
    case (Some b)
    obtain ok1 c1 where r: "reach_walk_stmt nr m b ld (sd + 1) c = (ok1, c1)" by (cases "reach_walk_stmt nr m b ld (sd + 1) c")
    have g: "walk_good (no_dead nr m b ld (sd + 1)) ok1 c c1"
      using Cons.prems(1) [OF _ Some Cons.prems(2) r] by simp
    then have oom: "\<not> rc_oom c1" by (rule walk_good_oom)
    have st: "clause_step nr m ld sd cl (True, c) = (ok1, c1)" using Some r oom by (simp add: clause_step_def)
    show ?thesis
    proof (cases ok1)
      case True
      have ih: "walk_good (list_all (\<lambda>cl. case clause_body cl of None \<Rightarrow> True | Some b \<Rightarrow> no_dead nr m b ld (sd + 1)) cases) ok c1 c'"
      proof (rule Cons.IH)
        show "fold (clause_step nr m ld sd) cases (True, c1) = (ok, c')" using Cons.prems(3) True st by simp
      qed (rule Cons.prems(1) [OF list.set_intros(2)], assumption+, rule oom)
      have w: "walks c c1" "walks c1 c'" using g ih by (simp_all add: walk_good_def)
      show ?thesis unfolding walk_good_def
        using walks_trans [OF w] walks_quiet [OF w] g ih True Some by (simp add: walk_good_def)
    next
      case False
      have "fold (clause_step nr m ld sd) cs (False, c1) = (False, c1)" for cs
        by (induction cs) (simp_all add: clause_step_def split: option.split)
      then have "ok = False" "c' = c1" using Cons.prems(3) st False by simp_all
      with g False show ?thesis by (simp add: walk_good_def)
    qed
  qed
qed

lemma walk_good_seq:
  assumes "walk_good g True c c1" and "walk_good h ok c1 c'"
  shows "walk_good (g \<and> h) ok c c'"
proof -
  have w: "walks c c1" "walks c1 c'" using assms by (simp_all add: walk_good_def)
  show ?thesis unfolding walk_good_def
    using walks_trans [OF w] walks_quiet [OF w] assms by (simp add: walk_good_def)
qed

lemma walk_stmt_block:
  "\<not> rc_oom c \<Longrightarrow> nbody s = AST_BLOCK items \<Longrightarrow>
     reach_walk_stmt nr m s ld sd c =
       (let w = fold (block_step nr m ld sd) items \<lparr>ws_done = None, ws_terminated = False, ws_ctx = c\<rparr>
        in (case ws_done w of None \<Rightarrow> True | Some b \<Rightarrow> b, ws_ctx w))"
  unfolding block_step_def by (subst reach_walk_stmt.simps) simp

lemma walk_stmt_switch:
  "\<not> rc_oom c \<Longrightarrow> nbody s = AST_SWITCH e cases \<Longrightarrow>
     reach_walk_stmt nr m s ld sd c = fold (clause_step nr m ld sd) cases (True, c)"
  unfolding clause_step_def by (subst reach_walk_stmt.simps) simp

lemma walk_stmt_good:
  "reach_walk_stmt nr m s ld sd c = (ok, c') \<Longrightarrow> \<not> rc_oom c \<Longrightarrow> walk_good (no_dead nr m s ld sd) ok c c'"
proof (induction "size s" arbitrary: s ld sd c ok c' rule: less_induct)
  case less
  note ih = less.hyps
  show ?case
  proof (cases "nbody s")
    case (AST_BLOCK items)
    define w where "w = fold (block_step nr m ld sd) items \<lparr>ws_done = None, ws_terminated = False, ws_ctx = c\<rparr>"
    have r: "ok = (case ws_done w of None \<Rightarrow> True | Some b \<Rightarrow> b)" "c' = ws_ctx w"
      using less.prems walk_stmt_block [OF less.prems(2) AST_BLOCK] by (simp_all add: w_def Let_def)
    have "walk_good (((ws_terminated \<lparr>ws_done = None, ws_terminated = False, ws_ctx = c\<rparr>) \<longrightarrow> items = []) \<and>
        list_all (\<lambda>x. \<not> reach_terminates nr m x ld sd) (butlast items) \<and> list_all (\<lambda>x. no_dead nr m x ld sd) items)
      (case ws_done w of None \<Rightarrow> True | Some b \<Rightarrow> b) (ws_ctx \<lparr>ws_done = None, ws_terminated = False, ws_ctx = c\<rparr>) (ws_ctx w)"
    proof (rule block_walk)
      fix x c ok c' assume x: "x \<in> set items" and h: "\<not> rc_oom c" "reach_walk_stmt nr m x ld sd c = (ok, c')"
      have "size x < size s" using size_list_member [OF x] AST_BLOCK by (simp add: node_size)
      from ih [OF this h(2,1)] show "walk_good (no_dead nr m x ld sd) ok c c'" .
    qed (use less.prems(2) in \<open>simp_all add: w_def\<close>)
    then show ?thesis by (simp add: r no_dead.simps [of nr m s] AST_BLOCK)
  next
    case (AST_IF e a b)
    obtain ok1 c1 where r: "reach_walk_stmt nr m a ld sd c = (ok1, c1)" by (cases "reach_walk_stmt nr m a ld sd c")
    have g: "walk_good (no_dead nr m a ld sd) ok1 c c1"
      by (rule ih [OF _ r less.prems(2)]) (simp add: node_size [OF AST_IF])
    have eq: "reach_walk_stmt nr m s ld sd c = (case (ok1, c1) of (False, c1) \<Rightarrow> (False, c1)
        | (True, c1) \<Rightarrow> (case b of None \<Rightarrow> (True, c1) | Some e \<Rightarrow> reach_walk_stmt nr m e ld sd c1))"
      using less.prems(2) by (subst reach_walk_stmt.simps) (simp add: AST_IF r)
    show ?thesis
    proof (cases "\<exists>y. ok1 \<and> b = Some y")
      case True
      then obtain y where y: "ok1" "b = Some y" by blast
      have "reach_walk_stmt nr m y ld sd c1 = (ok, c')" using less.prems(1) y by (simp add: eq)
      then have "walk_good (no_dead nr m y ld sd) ok c1 c'"
        by (rule ih [rotated]) (use y walk_good_oom [OF g] in \<open>simp_all add: node_size [OF AST_IF]\<close>)
      from walk_good_seq [OF _ this] g y show ?thesis by (simp add: no_dead.simps [of nr m s] AST_IF)
    next
      case False
      then have "ok = ok1 \<and> c' = c1" using less.prems(1) by (cases b; cases ok1) (simp_all add: eq)
      with False g show ?thesis
        by (cases b; cases ok1) (simp_all add: walk_good_def no_dead.simps [of nr m s] AST_IF)
    qed
  next
    case (AST_WHILE e b)
    have "reach_walk_stmt nr m b (ld + 1) sd c = (ok, c')"
      using less.prems reach_walk_stmt.simps [of nr m s] by (simp add: AST_WHILE)
    from ih [OF _ this less.prems(2)] show ?thesis by (simp add: node_size [OF AST_WHILE] no_dead.simps [of nr m s] AST_WHILE)
  next
    case (AST_FOR e1 e2 e3 b)
    have "reach_walk_stmt nr m b (ld + 1) sd c = (ok, c')"
      using less.prems reach_walk_stmt.simps [of nr m s] by (simp add: AST_FOR)
    from ih [OF _ this less.prems(2)] show ?thesis by (simp add: node_size [OF AST_FOR] no_dead.simps [of nr m s] AST_FOR)
  next
    case (AST_SWITCH e cases)
    have "walk_good (list_all (\<lambda>cl. case clause_body cl of None \<Rightarrow> True | Some b \<Rightarrow> no_dead nr m b ld (sd + 1)) cases) ok c c'"
    proof (rule clause_walk)
      fix cl b c ok c' assume cl: "cl \<in> set cases" "clause_body cl = Some b"
        and h: "\<not> rc_oom c" "reach_walk_stmt nr m b ld (sd + 1) c = (ok, c')"
      have "size b < size s"
        using size_list_estimation' [OF cl(1) order_refl, of size] clause_body_size [OF cl(2)] node_size [OF AST_SWITCH]
        by simp
      from ih [OF this h(2,1)] show "walk_good (no_dead nr m b ld (sd + 1)) ok c c'" .
    qed (use less.prems walk_stmt_switch [OF less.prems(2) AST_SWITCH] in simp_all)
    then show ?thesis by (simp add: no_dead.simps [of nr m s] AST_SWITCH)
  qed (use less.prems reach_walk_stmt.simps [of nr m s ld sd c] in
      \<open>auto simp: no_dead.simps [of nr m s] walk_good_def walks_def\<close>)
qed

section \<open>The check\<close>

text \<open>A function of the build with a body that is a block; its result type.\<close>

definition fn_parts :: "ast_node \<Rightarrow> (ast_node \<times> ast_node) option" where
  "fn_parts d = (case nbody d of AST_FN_DECL _ _ ret body _ \<Rightarrow> Some (ret, body) | _ \<Rightarrow> None)"

definition fn_good :: "name_result \<Rightarrow> name_module \<Rightarrow> ast_node \<Rightarrow> bool" where
  "fn_good nr m d \<longleftrightarrow>
     (\<forall>ret body. fn_parts d = Some (ret, body) \<longrightarrow>
        is_block body \<and> no_dead nr m body 0 0 \<and>
        (nbody ret \<noteq> AST_TYPE_PRIM AST_PRIM_VOID \<longrightarrow> \<not> reach_list_may_fall_off nr m body 0 0))"

lemma fn_tail_walks:
  assumes "\<not> rc_oom c"
  shows "walks c (reach_check_fn_tail nr m d c)"
    and "\<not> rc_unsupported (reach_check_fn_tail nr m d c) \<Longrightarrow> rc_records (reach_check_fn_tail nr m d c) = rc_records c \<Longrightarrow>
      fn_parts d = Some (ret, body) \<Longrightarrow> nbody ret \<noteq> AST_TYPE_PRIM AST_PRIM_VOID \<Longrightarrow> \<not> reach_list_may_fall_off nr m body 0 0"
proof -
  have e: "walks c (snd (reach_emit c ''AIC-E0416'' msg (case x of Some sp \<Rightarrow> Some sp | None \<Rightarrow> Some y)))" for msg x y
    using walks_emit [OF assms, of "''AIC-E0416''"] by (cases x) simp_all
  have n: "rc_records (snd (reach_emit c ''AIC-E0416'' msg (case x of Some sp \<Rightarrow> Some sp | None \<Rightarrow> Some y))) \<noteq> rc_records c" for msg x y
    by (cases x) (simp_all add: reach_emit_eq)
  show "walks c (reach_check_fn_tail nr m d c)"
    using assms e by (auto simp: reach_check_fn_tail_def walks_refl split: ast_body.split) (auto simp: walks_def)
  show "\<not> rc_unsupported (reach_check_fn_tail nr m d c) \<Longrightarrow> rc_records (reach_check_fn_tail nr m d c) = rc_records c \<Longrightarrow>
      fn_parts d = Some (ret, body) \<Longrightarrow> nbody ret \<noteq> AST_TYPE_PRIM AST_PRIM_VOID \<Longrightarrow> \<not> reach_list_may_fall_off nr m body 0 0"
    using assms n
    by (auto simp: reach_check_fn_tail_def fn_parts_def split: ast_body.splits if_split_asm)
qed


lemma walk_decl_good:
  assumes "\<not> rc_oom c" and "reach_walk_decl nr m d c = (ok, c')"
  shows "walks c c' \<and> (\<not> ok \<longrightarrow> rc_unsupported c') \<and>
    (ok \<and> rc_records c' = rc_records c \<and> fn_parts d = Some (ret, body) \<longrightarrow> is_block body \<and> no_dead nr m body 0 0)"
proof (cases "fn_parts d")
  case None
  then have "ok \<and> c' = c" using assms by (auto simp: reach_walk_decl_def fn_parts_def split: ast_body.splits)
  with None assms(1) show ?thesis by (simp add: walks_refl)
next
  case (Some p)
  obtain ret' body' where p: "p = (ret', body')" by (cases p)
  have w: "reach_walk_block nr m body' c = (ok, c')"
    using assms Some p by (auto simp: reach_walk_decl_def fn_parts_def split: ast_body.splits)
  show ?thesis
  proof (cases "is_block body'")
    case True
    then have "reach_walk_stmt nr m body' 0 0 c = (ok, c')"
      using w by (auto simp: reach_walk_block_def is_block_def split: ast_body.splits)
    from walk_stmt_good [OF this assms(1)] True Some p show ?thesis by (auto simp: walk_good_def)
  next
    case False
    then have "\<not> ok \<and> c' = c\<lparr>rc_unsupported := True\<rparr>"
      using w by (auto simp: reach_walk_block_def is_block_def split: ast_body.splits)
    with assms(1) show ?thesis by (simp add: walks_def)
  qed
qed

lemma reach_syms_good:
  assumes "\<not> rc_oom c" and "\<not> rc_unsupported c"
  shows "walks c (reach_syms nr m syms c)"
    and "\<not> rc_unsupported (reach_syms nr m syms c) \<Longrightarrow> rc_records (reach_syms nr m syms c) = rc_records c \<Longrightarrow>
      s \<in> set syms \<Longrightarrow> sym_decl (sym_at nr s) = Some d \<Longrightarrow> fn_good nr m d"
proof -
  have "walks c (reach_syms nr m syms c) \<and>
    (\<not> rc_unsupported (reach_syms nr m syms c) \<and> rc_records (reach_syms nr m syms c) = rc_records c \<longrightarrow>
      (\<forall>s \<in> set syms. \<forall>d. sym_decl (sym_at nr s) = Some d \<longrightarrow> fn_good nr m d))"
    using assms
  proof (induction syms arbitrary: c)
    case Nil
    then show ?case by (simp add: walks_refl)
  next
    case (Cons y syms)
    show ?case
    proof (cases "sym_decl (sym_at nr y)")
      case None
      with Cons show ?thesis by simp
    next
      case (Some d)
      define c1 where "c1 = reach_check_fn_tail nr m d c"
      have w1: "walks c c1" unfolding c1_def by (rule fn_tail_walks(1) [OF Cons.prems(1)])
      then have o1: "\<not> rc_oom c1" by (simp add: walks_def)
      obtain ok c2 where r: "reach_walk_decl nr m d c1 = (ok, c2)" by (cases "reach_walk_decl nr m d c1")
      note g = walk_decl_good [OF o1 r]
      have eq: "reach_syms nr m (y # syms) c =
          (if rc_unsupported c1 then c1 else if ok then reach_syms nr m syms c2 else c2)"
        using o1 by (simp add: Some Let_def r flip: c1_def)
      show ?thesis
      proof (cases "\<not> rc_unsupported c1 \<and> ok \<and> \<not> rc_unsupported c2")
        case True
        have w2: "walks c1 c2" and o2: "\<not> rc_oom c2" using g by (simp_all add: walks_def)
        define c3 where "c3 = reach_syms nr m syms c2"
        have ih: "walks c2 c3 \<and> (\<not> rc_unsupported c3 \<and> rc_records c3 = rc_records c2 \<longrightarrow>
            (\<forall>s \<in> set syms. \<forall>d. sym_decl (sym_at nr s) = Some d \<longrightarrow> fn_good nr m d))"
          unfolding c3_def by (rule Cons.IH) (use True o2 in simp_all)
        have e3: "reach_syms nr m (y # syms) c = c3" using eq True by (simp add: c3_def)
        have w13: "walks c1 c3" using walks_trans [OF w2] ih by blast
        have "fn_good nr m d" if "\<not> rc_unsupported c3" "rc_records c3 = rc_records c"
        proof -
          have q1: "rc_records c1 = rc_records c" "rc_records c3 = rc_records c1" using walks_quiet [OF w1 w13 that(2)] by simp_all
          have q2: "rc_records c2 = rc_records c1" using walks_quiet [OF w2 _ q1(2)] ih by blast
          show ?thesis unfolding fn_good_def
            using walk_decl_good [OF o1 r] q2 True fn_tail_walks(2) [OF Cons.prems(1), of nr m d] q1(1) by (simp flip: c1_def)
        qed
        moreover have "rc_records c3 = rc_records c2" if "rc_records c3 = rc_records c"
          using walks_quiet [OF walks_trans [OF w1 w2] _ that] ih by blast
        moreover have "walks c c3" by (rule walks_trans [OF w1 w13])
        ultimately show ?thesis unfolding e3 using ih Some by auto
      next
        case False
        have w12: "walks c1 c2" using g by simp
        have "walks c2 (reach_syms nr m syms c2) \<and> rc_unsupported (reach_syms nr m syms c2)" if "rc_unsupported c2"
        proof -
          have "walks e (reach_syms nr m zs e) \<and> rc_unsupported (reach_syms nr m zs e)"
            if "\<not> rc_oom e" "rc_unsupported e" for zs e
            using that
          proof (induction zs arbitrary: e)
            case (Cons z zs)
            have "rc_unsupported (reach_check_fn_tail nr m d e)" "walks e (reach_check_fn_tail nr m d e)" for d
              using fn_tail_walks(1) [OF Cons.prems(1), of nr m d] Cons.prems by (simp_all add: walks_def)
            with Cons show ?case by (auto simp: Let_def split: option.split)
          qed (simp add: walks_refl)
          with that g show ?thesis by (simp add: walks_def)
        qed
        then have "walks c (reach_syms nr m (y # syms) c) \<and> rc_unsupported (reach_syms nr m (y # syms) c)"
          unfolding eq using False w1 walks_trans [OF w1 w12] g walks_trans [OF walks_trans [OF w1 w12]] by auto
        then show ?thesis by blast
      qed
    qed
  qed
  then show "walks c (reach_syms nr m syms c)"
    and "\<not> rc_unsupported (reach_syms nr m syms c) \<Longrightarrow> rc_records (reach_syms nr m syms c) = rc_records c \<Longrightarrow>
      s \<in> set syms \<Longrightarrow> sym_decl (sym_at nr s) = Some d \<Longrightarrow> fn_good nr m d"
    by blast+
qed


lemma reach_modules_good:
  assumes "\<not> rc_oom c" and "\<not> rc_unsupported c"
  shows "walks c (reach_modules nr ms c) \<and>
    (\<not> rc_unsupported (reach_modules nr ms c) \<and> rc_records (reach_modules nr ms c) = rc_records c \<longrightarrow>
      (\<forall>m \<in> set ms. \<forall>s \<in> set (mod_scope m). \<forall>d. sym_decl (sym_at nr s) = Some d \<longrightarrow> fn_good nr m d))"
  using assms
proof (induction ms arbitrary: c)
  case Nil
  then show ?case by (simp add: walks_refl)
next
  case (Cons m ms)
  define c1 where "c1 = reach_syms nr m (mod_scope m) c"
  have w1: "walks c c1" unfolding c1_def by (rule reach_syms_good(1) [OF Cons.prems])
  then have o1: "\<not> rc_oom c1" by (simp add: walks_def)
  have eq: "reach_modules nr (m # ms) c = (if rc_unsupported c1 then c1 else reach_modules nr ms c1)"
    using o1 by (simp add: Let_def flip: c1_def)
  show ?case
  proof (cases "rc_unsupported c1")
    case True
    then show ?thesis using w1 unfolding eq by simp
  next
    case False
    define c2 where "c2 = reach_modules nr ms c1"
    have ih: "walks c1 c2" "\<not> rc_unsupported c2 \<and> rc_records c2 = rc_records c1 \<Longrightarrow>
        m \<in> set ms \<Longrightarrow> s \<in> set (mod_scope m) \<Longrightarrow> sym_decl (sym_at nr s) = Some d \<Longrightarrow> fn_good nr m d" for m s d
      using Cons.IH [OF o1 False] unfolding c2_def by blast+
    have "fn_good nr m' d" if q: "\<not> rc_unsupported c2" "rc_records c2 = rc_records c"
      and m: "m' \<in> set (m # ms)" "s \<in> set (mod_scope m')" "sym_decl (sym_at nr s) = Some d" for m' s d
    proof -
      note r = walks_quiet [OF w1 ih(1) q(2)]
      show ?thesis
      proof (cases "m' = m")
        case True
        show ?thesis unfolding True
          by (rule reach_syms_good(2) [OF Cons.prems, of nr m "mod_scope m" s d])
            (use False r m True in \<open>simp_all flip: c1_def\<close>)
      qed (use ih(2) q(1) r m in auto)
    qed
    with False walks_trans [OF w1 ih(1)] show ?thesis unfolding eq c2_def [symmetric] by auto
  qed
qed

lemma reach_run:
  fixes nr
  defines "c \<equiv> reach_modules nr (nr_modules nr) \<lparr>rc_records = [], rc_oom = False, rc_unsupported = False\<rparr>"
  shows "\<not> rc_oom c" and "\<forall>r \<in> set (rc_records c). reach_rec_ok r"
    and "\<not> rc_unsupported c \<Longrightarrow> rc_records c = [] \<Longrightarrow> m \<in> set (nr_modules nr) \<Longrightarrow> s \<in> set (mod_scope m) \<Longrightarrow>
      sym_decl (sym_at nr s) = Some d \<Longrightarrow> fn_good nr m d"
  using reach_modules_good [of "\<lparr>rc_records = [], rc_oom = False, rc_unsupported = False\<rparr>" nr "nr_modules nr"]
  unfolding c_def [symmetric] by (auto simp: walks_def)

text \<open>C3: when the check passes, no statement of any block of a function stands behind a terminator of its
  block; and, if the function has a result type and its body is \<open>tame\<close>, no execution of the body
  reaches its end. Tame is a body in which a \<open>break\<close> that leaves a \<open>switch\<close> is the last statement of its
  clause, and a \<open>break\<close> that leaves a loop does not stand behind \<open>else if\<close>; on other bodies the check
  is incomplete, see \<open>nested_break_overlooked\<close>.\<close>

theorem reach_ok_sound:
  assumes ok: "stmt_reach_check qs nr = STMT_REACH_OK"
    and m: "m \<in> set (nr_modules nr)" and s: "s \<in> set (mod_scope m)" "sym_decl (sym_at nr s) = Some d"
    and d: "nbody d = AST_FN_DECL name params ret body pub"
  shows "no_dead nr m body 0 0 \<and>
    (nbody ret \<noteq> AST_TYPE_PRIM AST_PRIM_VOID \<and> tame body \<longrightarrow> \<not> exec nr m body Done)"
proof -
  let ?c = "reach_modules nr (nr_modules nr) \<lparr>rc_records = [], rc_oom = False, rc_unsupported = False\<rparr>"
  have "\<not> rc_unsupported ?c" "rc_records ?c = []"
    using ok by (auto simp: stmt_reach_check_def Let_def split: if_split_asm)
  from reach_run(3) [OF this m s] have "fn_good nr m d" .
  then have b: "is_block body" "no_dead nr m body 0 0"
    and r: "nbody ret \<noteq> AST_TYPE_PRIM AST_PRIM_VOID \<Longrightarrow> \<not> reach_list_may_fall_off nr m body 0 0"
    by (auto simp: fn_good_def fn_parts_def d)
  obtain items where i: "nbody body = AST_BLOCK items" using b(1) by (auto simp: is_block_def split: ast_body.splits)
  have "\<not> exec nr m body Done" if "nbody ret \<noteq> AST_TYPE_PRIM AST_PRIM_VOID" "tame body"
    using exec_falls [of nr m body Done 0 0] r [OF that(1)] that(2) i
    by (auto simp: reach_list_may_fall_off_def falls_simps)
  with b(2) show ?thesis by blast
qed

text \<open>C40: the diagnostics of a failing check are sorted, valid semantic errors with the codes of this
  pass and a span.\<close>

theorem reach_errors_valid:
  assumes "c_qsort qs" and "stmt_reach_check qs nr = STMT_REACH_DIAG_ERROR recs"
  shows "recs \<noteq> [] \<and> cmp_sorted diag_record_compare recs \<and>
    (\<forall>x \<in> set recs. \<exists>r. x = Some r \<and> reach_rec_ok r \<and> diag_record_validate r = None)"
proof -
  let ?c = "reach_modules nr (nr_modules nr) \<lparr>rc_records = [], rc_oom = False, rc_unsupported = False\<rparr>"
  have ne: "rc_records ?c \<noteq> []" and recs: "recs = the (diag_sort_records qs (Some (map Some (rc_records ?c))))"
    using assms(2) by (auto simp: stmt_reach_check_def Let_def split: if_split_asm)
  note s = sort_result [OF assms(1) recs]
  have "set recs = Some ` set (rc_records ?c)" using mset_eq_setD [OF s(1)] by simp
  moreover have "recs \<noteq> []" using s(1) ne by auto
  ultimately show ?thesis using s(2) reach_run(2) [of nr] reach_rec_valid by auto
qed

section \<open>Two functions\<close>

definition fn_build :: "ast_node list \<Rightarrow> name_result" where
  "fn_build items =
     \<lparr>nr_modules =
       [\<lparr>mod_parts = [''m''], mod_fqn = ''m'', mod_path = None, mod_program = None, mod_src = None,
         mod_is_entry = True, mod_is_runtime = False, mod_scope = [0], mod_imports = [], mod_refs = []\<rparr>],
      nr_project_root = [], nr_entry_file = [],
      nr_syms = [(demo_sym ''f'' (AstNode 1 demo_span (AST_FN_DECL ''f'' []
         (AstNode 2 demo_span (AST_TYPE_PRIM AST_PRIM_I32)) (AstNode 3 demo_span (AST_BLOCK items)) False)))
         \<lparr>sym_kind := NAME_SYM_FN\<rparr>]\<rparr>"

abbreviation nd :: "ast_body \<Rightarrow> ast_node" where
  "nd b \<equiv> AstNode 0 demo_span b"

text \<open>\<open>while (true) { if (c) { return; } }\<close>, and a switch whose only clause is
  \<open>default: { if (c) { break; } return; }\<close>.\<close>

definition loop_items :: "ast_node list" where
  "loop_items = [nd (AST_WHILE (nd (AST_EXPR_BOOL_LITERAL True)) (nd (AST_BLOCK
     [nd (AST_IF (nd (AST_EXPR_IDENT ''c'')) (nd (AST_BLOCK [nd (AST_RETURN None)])) None)])))]"

definition switch_items :: "ast_node list" where
  "switch_items = [nd (AST_SWITCH (nd (AST_EXPR_IDENT ''x'')) [nd (AST_DEFAULT_CLAUSE (nd (AST_BLOCK
     [nd (AST_IF (nd (AST_EXPR_IDENT ''c'')) (nd (AST_BLOCK [nd AST_BREAK])) None), nd (AST_RETURN None)])))])]"

lemmas reach_run_simps =
  stmt_reach_check_def fn_build_def demo_sym_def reach_check_fn_tail_def reach_list_may_fall_off_def
  reach_walk_decl_def reach_walk_block_def reach_terminates_def Let_def

lemma loop_check: "stmt_reach_check qs (fn_build loop_items) = STMT_REACH_OK"
  by (simp add: reach_run_simps loop_items_def reach_stmt_may_fall_through.simps reach_walk_stmt.simps
      reach_loop_may_fall_past_def reach_cond_literal_true.simps reach_loop_has_exiting_break.simps)

lemma reach_ok_sound_witness:
  "\<not> exec (fn_build loop_items) (hd (nr_modules (fn_build loop_items))) (AstNode 3 demo_span (AST_BLOCK loop_items)) Done"
proof -
  have t: "tame (AstNode 3 demo_span (AST_BLOCK loop_items))"
    by (simp add: loop_items_def tame.simps is_block_def)
  let ?nr = "fn_build loop_items"
  have "hd (nr_modules ?nr) \<in> set (nr_modules ?nr)" "0 \<in> set (mod_scope (hd (nr_modules ?nr)))"
    and d: "sym_decl (sym_at ?nr 0) = Some (AstNode 1 demo_span (AST_FN_DECL ''f'' []
       (AstNode 2 demo_span (AST_TYPE_PRIM AST_PRIM_I32)) (AstNode 3 demo_span (AST_BLOCK loop_items)) False))"
    by (simp_all add: fn_build_def demo_sym_def)
  from reach_ok_sound [OF loop_check this] t show ?thesis by fastforce
qed

text \<open>A \<open>break\<close> nested in a switch clause is overlooked: a function with a result type whose body is
  such a switch passes the check, although it has an execution that reaches the end of its body.\<close>

theorem nested_break_overlooked:
  "stmt_reach_check qs (fn_build switch_items) = STMT_REACH_OK \<and>
   exec (fn_build switch_items) (hd (nr_modules (fn_build switch_items))) (AstNode 3 demo_span (AST_BLOCK switch_items)) Done"
proof
  show "stmt_reach_check qs (fn_build switch_items) = STMT_REACH_OK"
    by (simp add: reach_run_simps switch_items_def reach_stmt_may_fall_through.simps reach_walk_stmt.simps
        clause_body_def is_default_def)
  let ?x = "exec (fn_build switch_items) (hd (nr_modules (fn_build switch_items)))"
  let ?xs = "execs (fn_build switch_items) (hd (nr_modules (fn_build switch_items)))"
  have "?x (nd AST_BREAK) Broke" by (rule exec_execs.break) simp
  then have "?xs [nd AST_BREAK] Broke" by (rule exec_execs.stop) simp
  then have "?x (nd (AST_BLOCK [nd AST_BREAK])) Broke" by (rule exec_execs.block [rotated]) simp
  then have "?x (nd (AST_IF (nd (AST_EXPR_IDENT ''c'')) (nd (AST_BLOCK [nd AST_BREAK])) None)) Broke"
    by (rule exec_execs.if_then [rotated]) simp
  then have "?xs (nd (AST_IF (nd (AST_EXPR_IDENT ''c'')) (nd (AST_BLOCK [nd AST_BREAK])) None) # ys) Broke" for ys
    by (rule exec_execs.stop) simp
  then have b: "?x (nd (AST_BLOCK [nd (AST_IF (nd (AST_EXPR_IDENT ''c'')) (nd (AST_BLOCK [nd AST_BREAK])) None),
      nd (AST_RETURN None)])) Broke"
    by (rule exec_execs.block [rotated]) simp
  have "?x (hd switch_items) (if Broke = Broke then Done else Broke)"
    by (rule exec_execs.switch_case [OF _ _ _ b]) (auto simp: switch_items_def clause_body_def)
  then have "?x (hd switch_items) Done" by simp
  then have "?xs switch_items Done"
    using exec_execs.step [OF _ exec_execs.nil] by (simp add: switch_items_def)
  then show "?x (AstNode 3 demo_span (AST_BLOCK switch_items)) Done" by (rule exec_execs.block [rotated]) simp
qed

lemma reach_errors_valid_witness:
  "\<exists>recs. stmt_reach_check insertion_sort (fn_build []) = STMT_REACH_DIAG_ERROR recs \<and> length recs = 1 \<and>
     cmp_sorted diag_record_compare recs"
proof -
  obtain recs where r: "stmt_reach_check insertion_sort (fn_build []) = STMT_REACH_DIAG_ERROR recs" "length recs = 1"
    by (simp add: reach_run_simps reach_emit_eq reach_fn_header_span_def reach_walk_stmt.simps diag_sort_records_def)
  with reach_errors_valid [OF insertion_sort.c_qsort_axioms r(1)] show ?thesis by blast
qed

end
