(* ===== verification/Spec2Isabelle.thy ===== *)
theory Spec2Isabelle
  imports DiagJson RtMemProps RtTrap RtIo LexRound LexStream ParseProps LayoutProps ReachProps
begin

text \<open>
  A verification library for the AI-Co Stage-0 compiler and its runtime (directory
  \<open>bootstrap/\<close> of the repository). The compiler reads a source (\<open>load\<close>), makes tokens (\<open>lex\<close>) and a
  syntax tree (\<open>parse\<close>), resolves names (\<open>name\<close>), checks types, layouts and statements (\<open>types\<close>,
  \<open>layout\<close>, \<open>sema\<close>), and generates code; every stage reports through \<open>diag\<close>. The runtime
  (\<open>rt_mem\<close>, \<open>rt_io\<close>, \<open>rt_trap\<close>) is linked with the generated program and reports its traps with the
  same diagnostics.

  The theories and the code they model:

  \<^item> \<open>Prelude\<close>: C integers, bytes, \<open>strcmp\<close>, first-match scans and three-way comparators.
  \<^item> \<open>Diag\<close>: diagnostic records, the code registry, validation, trap factories and ordering
    (\<open>src/diag/diag.c\<close>, \<open>diag_codes.c\<close>, \<open>diag.h\<close>).
  \<^item> \<open>DiagEmit\<close>, \<open>DiagJson\<close>: the JSONL emitter (\<open>src/diag/diag_emit.c\<close>), and a JSON reader with
    which the emitted text is read back.
  \<^item> \<open>RtMem\<close>, \<open>RtMemProps\<close>: the runtime allocator, its reuse package and API (\<open>runtime/rt_mem\<close>).
  \<^item> \<open>RtTrap\<close>: trap records of the runtime (\<open>runtime/rt_mem/rt_mem_trap.c\<close>, \<open>runtime/rt_trap\<close>), built
    with \<open>Diag\<close> and written with \<open>DiagEmit\<close>.
  \<^item> \<open>RtIo\<close>: the runtime's file handle table (\<open>runtime/rt_io\<close>).
  \<^item> \<open>Utf8\<close>: UTF-8 as a specification, and the interface of a validator.
  \<^item> \<open>Load\<close>: the source loader (\<open>src/load/load.c\<close>), reporting through \<open>Diag\<close>.
  \<^item> \<open>Lex\<close>, \<open>LexProps\<close>, \<open>LexRound\<close>, \<open>LexStream\<close>: the lexer on a loaded source
    (\<open>src/lex/lex.c\<close>). \<open>LexStream\<close> states the lexical grammar without the scanner and proves that
    the lexer accepts exactly its texts; \<open>LexRound\<close> has the round trip of rendered tokens.
  \<^item> \<open>Ast\<close>: the syntax tree (\<open>src/ast/ast.h\<close>); a pointer to a node is its identity.
  \<^item> \<open>ParseCore\<close>, \<open>ParseExpr\<close>, \<open>Parse\<close>: the recursive-descent parser (\<open>src/parse/parse.c\<close>), its context,
    expressions and types, statements and declarations. \<open>Grammar\<close> states the grammar of the
    language on token positions, without the parser; \<open>ParseContract\<close> the contract of a parse
    function and the rules that compose it; \<open>ParseSound\<close>, \<open>ParseStmtSound\<close>, \<open>ParseDeclSound\<close> and
    \<open>ParseProgram\<close> the contract of each function; \<open>ParseProps\<close> the properties of whole programs
    and of the lexer followed by the parser.
  \<^item> \<open>Names\<close>: the symbols, modules and references that name resolution hands on
    (\<open>src/name/name.h\<close>) and their lookups.
  \<^item> \<open>Types\<close>, \<open>TypesProps\<close>: type tables, identity, rendering and the completeness of structs
    (\<open>src/types/type_tables.c\<close>, \<open>type_identity.c\<close>).
  \<^item> \<open>Layout\<close>, \<open>LayoutEval\<close>, \<open>LayoutProps\<close>: layouts of structs and values of enums, with their constant
    evaluator (\<open>src/layout/layout.c\<close>).
  \<^item> \<open>Reach\<close>, \<open>ReachProps\<close>: reachability of statements and missing returns
    (\<open>src/sema/stmt_reach.c\<close>), against a big-step execution of statements.

  Interfaces are locales, interpreted on the model: \<open>three_way\<close> (comparators), \<open>c_qsort\<close> (the C
  library's sort, a parameter of the code that calls it), \<open>hooks_contract\<close> (the allocator's reuse
  hooks), \<open>utf8_validator\<close> (the validators of the loader's specification and of the lexer),
  \<open>expr_parser\<close> and \<open>block_parser\<close> (what the parse functions of expressions and statements require
  of the recursion they are called with).

  Not modelled: the name resolver (\<open>src/name/name.c\<close> beyond its lookups; the passes that read its
  result are proved for every result), the semantic passes that need the types of expressions
  (\<open>src/types/convert.c\<close>, \<open>optype.c\<close>, \<open>src/sema\<close> but for \<open>stmt_reach.c\<close>), the build-wide constant
  evaluator (\<open>src/const\<close>), the intermediate representation and code generation (\<open>src/ir\<close>,
  \<open>src/backend\<close>), the constructors and the dump of the syntax tree (\<open>src/ast/ast.c\<close>), and the
  runtime's processes (\<open>runtime/rt_proc\<close>).

  Heap allocation inside the compiler succeeds in the model; where the code keeps an out-of-memory
  flag or buffer mark for other reasons too, the flag is kept. Loops and recursions of the lexer,
  the passes and the runtime are functions with proved termination. The parser's are partial
  functions whose value \<open>None\<close> means that the call never returns, and it is proved that every call
  returns; no fuel is used.
\<close>

end
